(* ===== verification/Prelude.thy ===== *)
theory Prelude
  imports Complex_Main "HOL-Library.Word"
begin

text \<open>
  Shared vocabulary of the mptsd development: the machine integer widths of the C code,
  the search loop \<^verbatim>\<open>for (i=0; i<n; i++) if (P(i)) break;\<close> that the
  dictionary and the PID table are built on, lists of fixed-size packets, and the generic
  list lemmas and theorem collections the component theories share.
\<close>

unbundle bit_operations_syntax

section \<open>Machine types\<close>

type_synonym u8 = "8 word"
type_synonym u16 = "16 word"
type_synonym u32 = "32 word"
type_synonym u64 = "64 word"

text \<open>
  The bytes of a transport stream. Strings of the C code are HOL strings: lists of
  characters (bytes) without the terminating NUL.
\<close>

type_synonym bytes = "u8 list"

text \<open>
  \<^verbatim>\<open>(int) x\<close> for a value of a wider integer type: the low 32 bits read
  as two's complement, as the compilers the program is built with define it.
\<close>

definition to_int32 :: "int \<Rightarrow> int" where
  "to_int32 x = sint (word_of_int x :: u32)"

text \<open>\<^verbatim>\<open>(uint16_t) x\<close> of a signed value.\<close>

definition to_u16 :: "int \<Rightarrow> u16" where
  "to_u16 x = word_of_int x"

section \<open>Theorem collections\<close>

text \<open>
  \<open>len_simps\<close>: what an operation does to the length of an array or a buffer.
  \<open>frame_simps\<close>: the fields an operation leaves alone.
  \<open>inv_intros\<close>: every operation keeps its component's invariant.
\<close>

named_theorems len_simps
named_theorems frame_simps
named_theorems inv_intros

section \<open>The search loop\<close>

text \<open>
  \<open>scan_idx P n\<close> is the index at which the loop breaks, \<open>None\<close> when it
  runs to the end.
\<close>

definition scan_idx :: "(nat \<Rightarrow> bool) \<Rightarrow> nat \<Rightarrow> nat option" where
  "scan_idx P n = find P [0..<n]"

lemma scan_idx_Some_iff:
  "scan_idx P n = Some i \<longleftrightarrow> i < n \<and> P i \<and> (\<forall>j<i. \<not> P j)"
  by (auto simp: scan_idx_def find_Some_iff)

lemma scan_idx_None_iff: "scan_idx P n = None \<longleftrightarrow> (\<forall>i<n. \<not> P i)"
  by (auto simp: scan_idx_def find_None_iff)

lemma scan_idx_SomeD:
  assumes "scan_idx P n = Some i"
  shows "i < n" and "P i" and "j < i \<Longrightarrow> \<not> P j"
  using assms by (auto simp: scan_idx_Some_iff)

lemma scan_idx_cong:
  assumes "n = m" and "\<And>i. i < m \<Longrightarrow> P i = Q i"
  shows "scan_idx P n = scan_idx Q m"
  unfolding scan_idx_def assms(1)
  using assms(2) by (intro find_cong) auto

lemma scan_idx_unique:
  "i < n \<Longrightarrow> P i \<Longrightarrow> (\<And>j. j < n \<Longrightarrow> P j \<Longrightarrow> j = i) \<Longrightarrow> scan_idx P n = Some i"
  unfolding scan_idx_Some_iff by (metis less_irrefl less_trans)

lemma scan_idx_exists:
  assumes "i < n" and "P i"
  shows "\<exists>k. scan_idx P n = Some k \<and> k \<le> i"
proof (cases "scan_idx P n")
  case None
  with assms show ?thesis by (simp add: scan_idx_None_iff)
next
  case (Some k)
  with assms(2) have "\<not> i < k" by (auto simp: scan_idx_Some_iff)
  with Some show ?thesis by simp
qed

section \<open>Maps and lists of slots\<close>

lemma map_eqI: "(\<And>k v. f k = Some v \<longleftrightarrow> g k = Some v) \<Longrightarrow> f = g"
  by (rule ext) (metis not_None_eq)

lemma map_of_rev_distinct: "distinct (map fst xs) \<Longrightarrow> map_of (rev xs) = map_of xs"
proof (induction xs)
  case (Cons x xs)
  then have "map_of xs (fst x) = None" by (simp add: map_of_eq_None_iff)
  with Cons show ?case
    by (cases x) (auto simp: map_add_def fun_eq_iff split: option.splits)
qed simp

text \<open>Counting the slots that satisfy a predicate across one update.\<close>

lemma length_filter_update:
  assumes "i < length xs"
  shows "length (filter P (xs[i := y])) + (if P (xs ! i) then 1 else 0) =
         length (filter P xs) + (if P y then 1 else 0)"
  using assms
proof (induction xs arbitrary: i)
  case Nil
  then show ?case by simp
next
  case (Cons x xs)
  then show ?case by (cases i) auto
qed

lemma length_filter_less_ex:
  "length (filter P xs) < length xs \<Longrightarrow> \<exists>i<length xs. \<not> P (xs ! i)"
  by (metis filter_True in_set_conv_nth less_irrefl)

lemma length_filter_all: "(\<forall>i<length xs. P (xs ! i)) \<Longrightarrow> length (filter P xs) = length xs"
  by (metis filter_True in_set_conv_nth)

lemma nth_append_replicate:
  "i < length xs + n \<Longrightarrow> (xs @ replicate n y) ! i = (if i < length xs then xs ! i else y)"
  by (auto simp: nth_append)

section \<open>Blocks of fixed size\<close>

text \<open>
  \<open>blit buf off xs\<close> is \<^verbatim>\<open>memcpy(buf + off, xs, n)\<close> inside the
  array \<open>buf\<close>; the callers keep \<open>off + length xs\<close> inside it.
\<close>

definition blit :: "'a list \<Rightarrow> nat \<Rightarrow> 'a list \<Rightarrow> 'a list" where
  "blit buf off xs = take off buf @ xs @ drop (off + length xs) buf"

text \<open>\<open>bslice buf off n\<close>: the \<open>n\<close> bytes at \<open>buf + off\<close>.\<close>

definition bslice :: "'a list \<Rightarrow> nat \<Rightarrow> nat \<Rightarrow> 'a list" where
  "bslice buf off n = take n (drop off buf)"

lemma length_blit [len_simps, simp]:
  "off + length xs \<le> length buf \<Longrightarrow> length (blit buf off xs) = length buf"
  by (simp add: blit_def)

lemma length_bslice [len_simps, simp]:
  "off + n \<le> length buf \<Longrightarrow> length (bslice buf off n) = n"
  by (simp add: bslice_def)

lemma bslice_blit_same [simp]:
  "off + length xs \<le> length buf \<Longrightarrow> n = length xs \<Longrightarrow> bslice (blit buf off xs) off n = xs"
  by (simp add: blit_def bslice_def)

lemma bslice_blit_before:
  "off + length xs \<le> length buf \<Longrightarrow> o2 + n \<le> off \<Longrightarrow> bslice (blit buf off xs) o2 n = bslice buf o2 n"
  by (simp add: blit_def bslice_def min_def take_drop)

lemma bslice_blit_after:
  "off + length xs \<le> length buf \<Longrightarrow> off + length xs \<le> o2 \<Longrightarrow>
   bslice (blit buf off xs) o2 n = bslice buf o2 n"
  by (simp add: blit_def bslice_def)

lemma nth_bslice: "off + n \<le> length buf \<Longrightarrow> i < n \<Longrightarrow> bslice buf off n ! i = buf ! (off + i)"
  by (simp add: bslice_def)

end
