(* ===== verification/Inidict.thy ===== *)
theory Inidict
  imports Prelude
begin

text \<open>
  The string dictionary of \<^verbatim>\<open>src/inidict.c\<close>: three parallel arrays
  (keys, values, hashes) with NULL keys for the free slots, a count of the used slots and
  linear search by hash and key. The record and the operations follow the C code; below
  them the abstract contract (a finite map from keys to possibly NULL values), the locale
  that states it for the clients, and its interpretation on the C operations.
\<close>

section \<open>State\<close>

text \<open>
  The pointers a dictionary query can return: NULL, the pointer \<^verbatim>\<open>(char*)-1\<close>
  that callers pass as "not found", or a string.
\<close>

datatype sptr = SNull | SInvalid | SStr string

text \<open>A value slot read as a pointer.\<close>

definition sptr_of :: "string option \<Rightarrow> sptr" where
  "sptr_of v = (case v of None \<Rightarrow> SNull | Some s \<Rightarrow> SStr s)"

record dictionary =
  dn :: nat
  dsize :: nat
  dval :: "string option list"
  dkey :: "string option list"
  dhash :: "u32 list"

datatype dict_error =
    DNull \<comment> \<open>NULL dictionary or key: the function returns -1\<close>
  | DNoMem \<comment> \<open>the arrays can't grow: the function returns -1 with the arrays lost\<close>
  | DOob \<comment> \<open>a write past the end of the arrays\<close>

section \<open>Operations\<close>

text \<open>
  \<^verbatim>\<open>(unsigned) key[i]\<close>: \<^verbatim>\<open>char\<close> is signed on the
  platforms the program targets, so bytes from 128 are sign-extended.
\<close>

definition char_u32 :: "char \<Rightarrow> u32" where
  "char_u32 c = scast (of_char c :: u8)"

fun hash_loop :: "u32 \<Rightarrow> string \<Rightarrow> u32" where
  "hash_loop hash [] = hash"
| "hash_loop hash (c # cs) =
     (let h1 = hash + char_u32 c;
          h2 = h1 + push_bit 10 h1;
          h3 = h2 XOR drop_bit 6 h2
      in hash_loop h3 cs)"

definition dictionary_hash :: "string \<Rightarrow> u32" where
  "dictionary_hash key =
     (let h = hash_loop 0 key;
          h1 = h + push_bit 3 h;
          h2 = h1 XOR drop_bit 11 h1
      in h2 + push_bit 15 h2)"

definition DICTMINSZ :: int where
  "DICTMINSZ = 128"

definition dictionary_new :: "int \<Rightarrow> dictionary" where
  "dictionary_new sz0 =
     (let sz = nat (if sz0 < DICTMINSZ then DICTMINSZ else sz0)
      in \<lparr> dn = 0, dsize = sz, dval = replicate sz None, dkey = replicate sz None,
           dhash = replicate sz 0 \<rparr>)"

text \<open>
  The strings \<^verbatim>\<open>dictionary_del\<close> passes to \<^verbatim>\<open>free\<close>,
  in order: the key and the value of every slot that has them.
\<close>

definition dictionary_del :: "dictionary \<Rightarrow> string list" where
  "dictionary_del d =
     concat (map (\<lambda>i. (case dkey d ! i of None \<Rightarrow> [] | Some k \<Rightarrow> [k]) @
                      (case dval d ! i of None \<Rightarrow> [] | Some v \<Rightarrow> [v]))
                 [0..<dsize d])"

text \<open>
  The search loop that \<^verbatim>\<open>dictionary_get\<close>, \<^verbatim>\<open>dictionary_set\<close>
  and \<^verbatim>\<open>dictionary_unset\<close> share: skip the free slots, compare the hash,
  then the string.
\<close>

definition dict_find :: "dictionary \<Rightarrow> string \<Rightarrow> nat option" where
  "dict_find d key =
     (let hash = dictionary_hash key
      in scan_idx (\<lambda>i. dkey d ! i \<noteq> None \<and> hash = dhash d ! i \<and> dkey d ! i = Some key)
                  (dsize d))"

definition dictionary_get :: "dictionary \<Rightarrow> string \<Rightarrow> sptr \<Rightarrow> sptr" where
  "dictionary_get d key def =
     (case dict_find d key of
        Some i \<Rightarrow> sptr_of (dval d ! i)
      | None \<Rightarrow> def)"

text \<open>
  \<^verbatim>\<open>mem_double\<close> of an array of \<open>n\<close> elements of \<open>elt\<close>
  bytes; \<open>can\<close> says which sizes \<^verbatim>\<open>calloc\<close> can provide. The new half
  is zeroed.
\<close>

definition mem_double :: "(nat \<Rightarrow> bool) \<Rightarrow> nat \<Rightarrow> nat \<Rightarrow> 'a \<Rightarrow> 'a list \<Rightarrow> 'a list option" where
  "mem_double can elt n zero xs =
     (if can (2 * (n * elt)) then Some (take n xs @ replicate n zero) else None)"

definition dict_grow :: "(nat \<Rightarrow> bool) \<Rightarrow> dictionary \<Rightarrow> dict_error + dictionary" where
  "dict_grow can d =
     (if dn d = dsize d then
        (case (mem_double can 8 (dsize d) None (dval d),
               mem_double can 8 (dsize d) None (dkey d),
               mem_double can 4 (dsize d) 0 (dhash d)) of
           (Some v, Some k, Some h) \<Rightarrow>
             Inr (d\<lparr> dval := v, dkey := k, dhash := h, dsize := dsize d * 2 \<rparr>)
         | _ \<Rightarrow> Inl DNoMem)
      else Inr d)"

text \<open>The first free slot takes the new key; no free slot would be a write at index \<open>size\<close>.\<close>

definition dict_insert :: "dictionary \<Rightarrow> string \<Rightarrow> string option \<Rightarrow> dict_error + dictionary" where
  "dict_insert d key val =
     (case scan_idx (\<lambda>i. dkey d ! i = None) (dsize d) of
        None \<Rightarrow> Inl DOob
      | Some i \<Rightarrow> Inr (d\<lparr> dkey := (dkey d)[i := Some key],
                          dval := (dval d)[i := val],
                          dhash := (dhash d)[i := dictionary_hash key],
                          dn := dn d + 1 \<rparr>))"

definition dictionary_set ::
  "(nat \<Rightarrow> bool) \<Rightarrow> dictionary option \<Rightarrow> string option \<Rightarrow> string option \<Rightarrow> dict_error + dictionary"
where
  "dictionary_set can dp keyp val =
     (case (dp, keyp) of
        (Some d, Some key) \<Rightarrow>
          (case (if dn d > 0 then dict_find d key else None) of
             Some i \<Rightarrow> Inr (d\<lparr> dval := (dval d)[i := val] \<rparr>)
           | None \<Rightarrow>
               (case dict_grow can d of
                  Inl e \<Rightarrow> Inl e
                | Inr d' \<Rightarrow> dict_insert d' key val))
      | _ \<Rightarrow> Inl DNull)"

definition dictionary_unset :: "dictionary \<Rightarrow> string option \<Rightarrow> dictionary" where
  "dictionary_unset d keyp =
     (case keyp of
        None \<Rightarrow> d
      | Some key \<Rightarrow>
          (case dict_find d key of
             None \<Rightarrow> d
           | Some i \<Rightarrow> d\<lparr> dkey := (dkey d)[i := None],
                          dval := (dval d)[i := None],
                          dhash := (dhash d)[i := 0],
                          dn := dn d - 1 \<rparr>))"

definition nl :: string where
  "nl = [CHR 0x0A]"

text \<open>\<^verbatim>\<open>%20s\<close>: right-justified in 20 columns.\<close>

definition pad_left :: "nat \<Rightarrow> string \<Rightarrow> string" where
  "pad_left w s = replicate (w - length s) (CHR '' '') @ s"

text \<open>What \<^verbatim>\<open>dictionary_dump\<close> writes to a stream that is not NULL.\<close>

definition dictionary_dump :: "dictionary option \<Rightarrow> string" where
  "dictionary_dump dp =
     (case dp of
        None \<Rightarrow> []
      | Some d \<Rightarrow>
          if dn d < 1 then ''empty dictionary'' @ nl
          else concat (map (\<lambda>i. case dkey d ! i of
                                 None \<Rightarrow> []
                               | Some k \<Rightarrow> pad_left 20 k @ [CHR 0x09] @ ''['' @
                                           (case dval d ! i of None \<Rightarrow> ''UNDEF'' | Some v \<Rightarrow> v) @
                                           '']'' @ nl)
                           [0..<dsize d]))"

section \<open>The contract of the dictionary\<close>

text \<open>The finite map a dictionary stands for: a key in it has a value that may be NULL.\<close>

definition dict_map :: "dictionary \<Rightarrow> string \<Rightarrow> string option option" where
  "dict_map d k =
     map_option (\<lambda>i. dval d ! i) (scan_idx (\<lambda>i. dkey d ! i = Some k) (dsize d))"

text \<open>
  Well-formedness: three arrays of \<open>size\<close> slots, the count of used slots, the
  stored hash of every key, no key twice.
\<close>

definition dict_ok :: "dictionary \<Rightarrow> bool" where
  "dict_ok d \<longleftrightarrow>
     length (dval d) = dsize d \<and> length (dkey d) = dsize d \<and> length (dhash d) = dsize d \<and>
     0 < dsize d \<and>
     dn d = length (filter (\<lambda>k. k \<noteq> None) (dkey d)) \<and>
     (\<forall>i<dsize d. case dkey d ! i of None \<Rightarrow> True | Some k \<Rightarrow> dhash d ! i = dictionary_hash k) \<and>
     (\<forall>i<dsize d. \<forall>j<dsize d. dkey d ! i \<noteq> None \<longrightarrow> dkey d ! i = dkey d ! j \<longrightarrow> i = j)"

lemma dict_okI:
  assumes "length (dval d) = dsize d" "length (dkey d) = dsize d" "length (dhash d) = dsize d"
    and "0 < dsize d" "dn d = length (filter (\<lambda>k. k \<noteq> None) (dkey d))"
    and "\<And>i k. i < dsize d \<Longrightarrow> dkey d ! i = Some k \<Longrightarrow> dhash d ! i = dictionary_hash k"
    and "\<And>i j k. i < dsize d \<Longrightarrow> j < dsize d \<Longrightarrow> dkey d ! i = Some k \<Longrightarrow> dkey d ! j = Some k \<Longrightarrow> i = j"
  shows "dict_ok d"
  using assms by (auto simp: dict_ok_def split: option.splits)

lemma dict_okD:
  assumes "dict_ok d"
  shows "length (dval d) = dsize d" "length (dkey d) = dsize d" "length (dhash d) = dsize d"
    and "0 < dsize d" "dn d = length (filter (\<lambda>k. k \<noteq> None) (dkey d))"
    and "\<And>i k. i < dsize d \<Longrightarrow> dkey d ! i = Some k \<Longrightarrow> dhash d ! i = dictionary_hash k"
    and "\<And>i j k. i < dsize d \<Longrightarrow> j < dsize d \<Longrightarrow> dkey d ! i = Some k \<Longrightarrow> dkey d ! j = Some k \<Longrightarrow> i = j"
  using assms by (auto simp: dict_ok_def split: option.splits)

lemma dict_ok_count: "dict_ok d \<Longrightarrow> dn d \<le> dsize d"
  by (metis dict_okD(2,5) length_filter_le)

text \<open>On a well-formed dictionary the hash comparison never hides a key.\<close>

lemma dict_find_eq:
  assumes "dict_ok d"
  shows "dict_find d key = scan_idx (\<lambda>i. dkey d ! i = Some key) (dsize d)"
  unfolding dict_find_def Let_def
  using dict_okD(6) [OF assms] by (intro scan_idx_cong) auto

lemma dict_map_Some_iff:
  assumes "dict_ok d"
  shows "dict_map d k = Some v \<longleftrightarrow> (\<exists>i<dsize d. dkey d ! i = Some k \<and> dval d ! i = v)"
proof
  assume "dict_map d k = Some v"
  then show "\<exists>i<dsize d. dkey d ! i = Some k \<and> dval d ! i = v"
    by (auto simp: dict_map_def dest: scan_idx_SomeD)
next
  assume "\<exists>i<dsize d. dkey d ! i = Some k \<and> dval d ! i = v"
  then obtain i where i: "i < dsize d" "dkey d ! i = Some k" "dval d ! i = v" by auto
  have "scan_idx (\<lambda>i. dkey d ! i = Some k) (dsize d) = Some i"
    using i dict_okD(7) [OF assms] by (intro scan_idx_unique) auto
  with i show "dict_map d k = Some v" by (simp add: dict_map_def)
qed

lemma dict_map_None_iff:
  assumes "dict_ok d"
  shows "dict_map d k = None \<longleftrightarrow> (\<forall>i<dsize d. dkey d ! i \<noteq> Some k)"
  using dict_map_Some_iff [OF assms, of k] by (metis not_None_eq)

lemma dict_find_None: "dict_ok d \<Longrightarrow> dict_find d k = None \<longleftrightarrow> dict_map d k = None"
  by (simp add: dict_find_eq dict_map_def)

section \<open>Every operation keeps the contract\<close>

lemma dict_new_ok [inv_intros]: "dict_ok (dictionary_new sz)"
  by (rule dict_okI) (auto simp: dictionary_new_def DICTMINSZ_def Let_def)

lemma dict_new_map: "dict_map (dictionary_new sz) = (\<lambda>_. None)"
  by (rule ext) (simp add: dict_map_def dictionary_new_def Let_def scan_idx_None_iff)

lemma dictionary_get_map:
  "dict_ok d \<Longrightarrow>
   dictionary_get d k def = (case dict_map d k of None \<Rightarrow> def | Some v \<Rightarrow> sptr_of v)"
  by (simp add: dictionary_get_def dict_find_eq dict_map_def split: option.splits)

text \<open>Overwriting the value of a present key.\<close>

lemma dict_overwrite:
  assumes ok: "dict_ok d" and i: "i < dsize d" "dkey d ! i = Some k"
    and d'_def: "d' = d\<lparr> dval := (dval d)[i := v] \<rparr>"
  shows "dict_ok d'" and "dict_map d' = (dict_map d)(k \<mapsto> v)"
proof -
  show ok': "dict_ok d'"
    using dict_okD [OF ok] by (intro dict_okI) (auto simp: d'_def)
  show "dict_map d' = (dict_map d)(k \<mapsto> v)"
  proof (rule map_eqI)
    fix q w
    show "dict_map d' q = Some w \<longleftrightarrow> ((dict_map d)(k \<mapsto> v)) q = Some w"
      unfolding dict_map_Some_iff [OF ok'] fun_upd_apply
      using i dict_okD(1) [OF ok] dict_okD(7) [OF ok] dict_map_Some_iff [OF ok, of q w]
      by (auto simp: d'_def nth_list_update)
  qed
qed

text \<open>Growing keeps every key and leaves a free slot.\<close>

lemma dict_grow_Inr:
  assumes ok: "dict_ok d" and g: "dict_grow can d = Inr d'"
  shows "dict_ok d'" and "dict_map d' = dict_map d" and "dn d' < dsize d'"
proof -
  consider (same) "d' = d" "dn d \<noteq> dsize d"
    | (grown) "dn d = dsize d"
        "d' = d\<lparr> dval := dval d @ replicate (dsize d) None,
                dkey := dkey d @ replicate (dsize d) None,
                dhash := dhash d @ replicate (dsize d) 0, dsize := dsize d * 2 \<rparr>"
    using g dict_okD(1-3) [OF ok]
    by (auto simp: dict_grow_def mem_double_def split: if_splits option.splits)
  then have "dict_ok d' \<and> dict_map d' = dict_map d \<and> dn d' < dsize d'"
  proof cases
    case same
    with dict_ok_count [OF ok] ok show ?thesis by simp
  next
    case grown
    have key: "dkey d' ! i = (if i < dsize d then dkey d ! i else None)"
      and val: "dval d' ! i = (if i < dsize d then dval d ! i else None)"
      and hash: "dhash d' ! i = (if i < dsize d then dhash d ! i else 0)"
      if "i < dsize d'" for i
      using that grown dict_okD(1-3) [OF ok] by (auto simp: nth_append)
    have size: "dsize d' = 2 * dsize d" and n: "dn d' = dn d"
      using grown by auto
    have ok': "dict_ok d'"
    proof (rule dict_okI)
      show "dn d' = length (filter (\<lambda>k. k \<noteq> None) (dkey d'))"
        using grown dict_okD(5) [OF ok] by simp
      show "i = j" if "i < dsize d'" "j < dsize d'" "dkey d' ! i = Some k" "dkey d' ! j = Some k" for i j k
        using that key dict_okD(7) [OF ok] by (metis option.distinct(1))
      show "dhash d' ! i = dictionary_hash k" if "i < dsize d'" "dkey d' ! i = Some k" for i k
        using that key hash dict_okD(6) [OF ok] by (metis option.distinct(1))
    qed (use grown dict_okD [OF ok] in auto)
    have "dict_map d' = dict_map d"
    proof (rule map_eqI)
      fix q w
      show "dict_map d' q = Some w \<longleftrightarrow> dict_map d q = Some w"
        unfolding dict_map_Some_iff [OF ok] dict_map_Some_iff [OF ok']
        using key val size by (metis mult_2 option.distinct(1) trans_less_add1)
    qed
    with ok' grown dict_okD(4) [OF ok] show ?thesis by simp
  qed
  then show "dict_ok d'" and "dict_map d' = dict_map d" and "dn d' < dsize d'" by auto
qed

text \<open>Which slots hold a key after slot \<open>i\<close> of both arrays is overwritten.\<close>

lemma slot_upd_map:
  assumes "i < n" "length ks = n" "length vs = n" "ks' = ks[i := x]" "vs' = vs[i := y]"
  shows "(\<exists>j<n. ks' ! j = Some q \<and> vs' ! j = w) \<longleftrightarrow>
         (x = Some q \<and> y = w) \<or> (\<exists>j<n. j \<noteq> i \<and> ks ! j = Some q \<and> vs ! j = w)"
  using assms by (auto simp: nth_list_update)

text \<open>Inserting a key that is not in the dictionary, when a slot is free.\<close>

lemma dict_insert_Inr:
  assumes ok: "dict_ok d" and new: "dict_map d k = None" and space: "dn d < dsize d"
  shows "\<exists>d'. dict_insert d k v = Inr d' \<and> dict_ok d' \<and> dict_map d' = (dict_map d)(k \<mapsto> v) \<and>
              dn d' = dn d + 1 \<and> dsize d' = dsize d"
proof -
  note D = dict_okD [OF ok]
  have "\<exists>i<dsize d. dkey d ! i = None"
    using length_filter_less_ex [of "\<lambda>k. k \<noteq> None" "dkey d"] space D(2,5) by auto
  then obtain i where sc: "scan_idx (\<lambda>i. dkey d ! i = None) (dsize d) = Some i"
    using scan_idx_exists [of _ "dsize d" "\<lambda>i. dkey d ! i = None"] by blast
  then have i: "i < dsize d" "dkey d ! i = None" by (auto dest: scan_idx_SomeD)
  define d' where "d' = d\<lparr> dkey := (dkey d)[i := Some k], dval := (dval d)[i := v],
                          dhash := (dhash d)[i := dictionary_hash k], dn := dn d + 1 \<rparr>"
  have ins: "dict_insert d k v = Inr d'" by (simp add: dict_insert_def sc d'_def)
  have nk: "dkey d ! j \<noteq> Some k" if "j < dsize d" for j
    using new that by (simp add: dict_map_None_iff [OF ok])
  have ok': "dict_ok d'"
  proof (rule dict_okI)
    show "dn d' = length (filter (\<lambda>k. k \<noteq> None) (dkey d'))"
      using length_filter_update [of i "dkey d" "\<lambda>k. k \<noteq> None" "Some k"] i D(2,5)
      by (simp add: d'_def)
    show "a = b" if "a < dsize d'" "b < dsize d'" "dkey d' ! a = Some q" "dkey d' ! b = Some q" for a b q
      using that nk i D(2) D(7) by (auto simp: d'_def nth_list_update split: if_splits)
    show "dhash d' ! a = dictionary_hash q" if "a < dsize d'" "dkey d' ! a = Some q" for a q
      using that i D(2,3,6) by (auto simp: d'_def nth_list_update split: if_splits)
  qed (use D in \<open>auto simp: d'_def\<close>)
  moreover have "dict_map d' = (dict_map d)(k \<mapsto> v)"
  proof (rule map_eqI)
    fix q w
    have "dict_map d' q = Some w \<longleftrightarrow>
          (Some k = Some q \<and> v = w) \<or> (\<exists>j<dsize d. j \<noteq> i \<and> dkey d ! j = Some q \<and> dval d ! j = w)"
      unfolding dict_map_Some_iff [OF ok'] using i D(1,2)
      by (subst slot_upd_map [symmetric, of i "dsize d"]) (auto simp: d'_def)
    then show "dict_map d' q = Some w \<longleftrightarrow> ((dict_map d)(k \<mapsto> v)) q = Some w"
      using i nk dict_map_Some_iff [OF ok, of q w] by auto
  qed
  ultimately show ?thesis using ins by (auto simp: d'_def)
qed

text \<open>Clearing the slot of a key.\<close>

lemma dict_clear:
  assumes ok: "dict_ok d" and i: "i < dsize d" "dkey d ! i = Some k"
    and d'_def: "d' = d\<lparr> dkey := (dkey d)[i := None], dval := (dval d)[i := None],
                         dhash := (dhash d)[i := 0], dn := dn d - 1 \<rparr>"
  shows "dict_ok d'" and "dict_map d' = (dict_map d)(k := None)"
proof -
  note D = dict_okD [OF ok]
  show ok': "dict_ok d'"
  proof (rule dict_okI)
    show "dn d' = length (filter (\<lambda>k. k \<noteq> None) (dkey d'))"
      using length_filter_update [of i "dkey d" "\<lambda>k. k \<noteq> None" None] i D(2,5)
      by (simp add: d'_def)
    show "a = b" if "a < dsize d'" "b < dsize d'" "dkey d' ! a = Some q" "dkey d' ! b = Some q" for a b q
      using that i D(2) D(7) by (auto simp: d'_def nth_list_update split: if_splits)
    show "dhash d' ! a = dictionary_hash q" if "a < dsize d'" "dkey d' ! a = Some q" for a q
      using that i D(2,3,6) by (auto simp: d'_def nth_list_update split: if_splits)
  qed (use D in \<open>auto simp: d'_def\<close>)
  show "dict_map d' = (dict_map d)(k := None)"
  proof (rule map_eqI)
    fix q w
    have "dict_map d' q = Some w \<longleftrightarrow>
          (None = Some q \<and> None = w) \<or> (\<exists>j<dsize d. j \<noteq> i \<and> dkey d ! j = Some q \<and> dval d ! j = w)"
      unfolding dict_map_Some_iff [OF ok'] using i D(1,2)
      by (subst slot_upd_map [symmetric, of i "dsize d"]) (auto simp: d'_def)
    then show "dict_map d' q = Some w \<longleftrightarrow> ((dict_map d)(k := None)) q = Some w"
      using i D(7) dict_map_Some_iff [OF ok, of q w] by (cases "q = k") auto
  qed
qed

text \<open>
  \<^verbatim>\<open>dictionary_set\<close> on a well-formed dictionary: it fails only when the arrays
  must grow and can't, and never writes outside them.
\<close>

lemma dictionary_set_cases:
  assumes ok: "dict_ok d"
  shows "(\<exists>d'. dictionary_set can (Some d) (Some k) v = Inr d' \<and> dict_ok d' \<and>
               dict_map d' = (dict_map d)(k \<mapsto> v)) \<or>
         (dictionary_set can (Some d) (Some k) v = Inl DNoMem \<and> dict_map d k = None \<and> dn d = dsize d)"
proof (cases "if dn d > 0 then dict_find d k else None")
  case (Some i)
  then have "dict_find d k = Some i" by (simp split: if_splits)
  then have i: "i < dsize d" "dkey d ! i = Some k"
    using scan_idx_SomeD by (auto simp: dict_find_eq [OF ok])
  have "dictionary_set can (Some d) (Some k) v = Inr (d\<lparr> dval := (dval d)[i := v] \<rparr>)"
    using Some by (simp add: dictionary_set_def)
  then show ?thesis using dict_overwrite [OF ok i refl] by blast
next
  case None
  have new: "dict_map d k = None"
  proof (cases "dn d > 0")
    case True
    with None show ?thesis using dict_find_None [OF ok] by simp
  next
    case False
    then have "filter (\<lambda>k. k \<noteq> None) (dkey d) = []" using dict_okD(5) [OF ok] by simp
    then show ?thesis
      using dict_okD(2) [OF ok] unfolding dict_map_None_iff [OF ok] filter_empty_conv
      by (metis nth_mem option.distinct(1))
  qed
  show ?thesis
  proof (cases "dict_grow can d")
    case (Inl e)
    then have "e = DNoMem" and "dn d = dsize d"
      by (auto simp: dict_grow_def split: if_splits option.splits)
    with Inl None new show ?thesis by (simp add: dictionary_set_def)
  next
    case (Inr g)
    note G = dict_grow_Inr [OF ok Inr]
    obtain d' where "dict_insert g k v = Inr d'" "dict_ok d'" "dict_map d' = (dict_map g)(k \<mapsto> v)"
      using dict_insert_Inr [OF G(1) _ G(3), of k v] G(2) new by auto
    with Inr None G(2) show ?thesis by (auto simp: dictionary_set_def)
  qed
qed

lemma dictionary_set_ok [inv_intros]:
  "dict_ok d \<Longrightarrow> dictionary_set can (Some d) (Some k) v = Inr d' \<Longrightarrow> dict_ok d'"
  and dictionary_set_map:
  "dict_ok d \<Longrightarrow> dictionary_set can (Some d) (Some k) v = Inr d' \<Longrightarrow>
   dict_map d' = (dict_map d)(k \<mapsto> v)"
  using dictionary_set_cases [of d can k v] by auto

lemma dictionary_unset_ok [inv_intros]: "dict_ok d \<Longrightarrow> dict_ok (dictionary_unset d kp)"
  and dictionary_unset_map:
  "dict_ok d \<Longrightarrow> dict_map (dictionary_unset d (Some k)) = (dict_map d)(k := None)"
proof -
  assume ok: "dict_ok d"
  have "dict_ok (dictionary_unset d (Some k)) \<and>
        dict_map (dictionary_unset d (Some k)) = (dict_map d)(k := None)" for k
  proof (cases "dict_find d k")
    case None
    then have "dict_map d k = None" using dict_find_None [OF ok] by simp
    then have "(dict_map d)(k := None) = dict_map d" by auto
    with ok None show ?thesis by (simp add: dictionary_unset_def)
  next
    case (Some i)
    then have "i < dsize d" "dkey d ! i = Some k"
      using scan_idx_SomeD by (auto simp: dict_find_eq [OF ok])
    from dict_clear [OF ok this refl] Some show ?thesis by (simp add: dictionary_unset_def)
  qed
  then show "dict_ok (dictionary_unset d kp)"
    and "dict_map (dictionary_unset d (Some k)) = (dict_map d)(k := None)"
    using ok by (cases kp; simp add: dictionary_unset_def)+
qed

section \<open>The interface for the clients\<close>

text \<open>
  What the INI parser and the configuration loader rely on: a store of strings with
  update, removal and lookup with a default. \<open>look\<close> is the map it stands for.
\<close>

locale string_store =
  fixes look :: "'d \<Rightarrow> string \<Rightarrow> string option option"
    and new :: 'd
    and put :: "'d \<Rightarrow> string \<Rightarrow> string option \<Rightarrow> 'e + 'd"
    and del :: "'d \<Rightarrow> string \<Rightarrow> 'd"
    and fetch :: "'d \<Rightarrow> string \<Rightarrow> sptr \<Rightarrow> sptr"
    and inv :: "'d \<Rightarrow> bool"
  assumes new_inv: "inv new"
    and new_look: "look new = (\<lambda>_. None)"
    and put_inv: "inv d \<Longrightarrow> put d k v = Inr d' \<Longrightarrow> inv d'"
    and put_look: "inv d \<Longrightarrow> put d k v = Inr d' \<Longrightarrow> look d' = (look d)(k \<mapsto> v)"
    and del_inv: "inv d \<Longrightarrow> inv (del d k)"
    and del_look: "inv d \<Longrightarrow> look (del d k) = (look d)(k := None)"
    and fetch_look: "inv d \<Longrightarrow> fetch d k def = (case look d k of None \<Rightarrow> def | Some v \<Rightarrow> sptr_of v)"

text \<open>A sequence of updates, stopping at the first that fails.\<close>

fun put_all :: "('d \<Rightarrow> string \<Rightarrow> string option \<Rightarrow> 'e + 'd) \<Rightarrow> 'd \<Rightarrow> (string \<times> string option) list \<Rightarrow> 'e + 'd"
where
  "put_all put d [] = Inr d"
| "put_all put d ((k, v) # kvs) =
     (case put d k v of Inl e \<Rightarrow> Inl e | Inr d' \<Rightarrow> put_all put d' kvs)"

context string_store begin

lemma fetch_put_same: "inv d \<Longrightarrow> put d k v = Inr d' \<Longrightarrow> fetch d' k def = sptr_of v"
  by (simp add: fetch_look put_inv put_look)

lemma fetch_put_other: "inv d \<Longrightarrow> put d k v = Inr d' \<Longrightarrow> q \<noteq> k \<Longrightarrow> fetch d' q def = fetch d q def"
  by (simp add: fetch_look put_inv put_look)

lemma fetch_del: "inv d \<Longrightarrow> fetch (del d k) q def = (if q = k then def else fetch d q def)"
  by (simp add: fetch_look del_inv del_look)

lemma put_all_look:
  "inv d \<Longrightarrow> put_all put d kvs = Inr d' \<Longrightarrow> inv d' \<and> look d' = look d ++ map_of (rev kvs)"
proof (induction kvs arbitrary: d)
  case Nil
  then show ?case by simp
next
  case (Cons kv kvs)
  obtain k v where kv: "kv = (k, v)" by (cases kv)
  with Cons.prems obtain d1 where d1: "put d k v = Inr d1" "put_all put d1 kvs = Inr d'"
    by (auto split: sum.splits)
  from Cons.IH [OF put_inv [OF Cons.prems(1) d1(1)] d1(2)] put_look [OF Cons.prems(1) d1(1)]
  show ?case by (simp add: kv map_add_assoc [symmetric] map_add_upd_left map_add_def fun_eq_iff split: option.splits)
qed

text \<open>The last value written for a key is the one a later lookup returns.\<close>

lemma put_all_last:
  assumes "inv d" and "put_all put d (kvs @ (k, v) # rest) = Inr d'" and "k \<notin> fst ` set rest"
  shows "fetch d' k def = sptr_of v"
proof -
  from put_all_look [OF assms(1,2)] have "inv d'"
    and "look d' = look d ++ map_of (rev (kvs @ (k, v) # rest))" by auto
  moreover have "map_of (rev rest) k = None"
    using assms(3) by (simp add: map_of_eq_None_iff)
  ultimately show ?thesis by (simp add: fetch_look map_add_def)
qed

end

interpretation dict: string_store dict_map "dictionary_new sz"
  "\<lambda>d k v. dictionary_set can (Some d) (Some k) v"
  "\<lambda>d k. dictionary_unset d (Some k)" dictionary_get dict_ok
  for sz :: int and can :: "nat \<Rightarrow> bool"
  by unfold_locales
    (simp_all add: dict_new_ok dict_new_map dictionary_set_ok dictionary_set_map
      dictionary_unset_ok dictionary_unset_map dictionary_get_map)

section \<open>Properties\<close>

text \<open>
  Storing in a dictionary either succeeds, keeps the table well formed and changes exactly
  the entry of the key, or fails because a new key needs the full table to grow and there
  is no memory; it never fails for a key that is present, and never writes outside the arrays.
\<close>

theorem dictionary_set_total:
  "dict_ok d \<Longrightarrow>
   (\<exists>d'. dictionary_set can (Some d) (Some k) v = Inr d' \<and> dict_ok d' \<and> dict_map d' = (dict_map d)(k \<mapsto> v)) \<or>
   (dictionary_set can (Some d) (Some k) v = Inl DNoMem \<and> dict_map d k = None \<and> dn d = dsize d)"
  by (rule dictionary_set_cases)

theorem dictionary_set_total_witness:
  "\<exists>d'. dictionary_set (\<lambda>_. True) (Some (dictionary_new 0)) (Some ''a'') (Some ''1'') = Inr d' \<and> dict_ok d' \<and>
        dict_map d' = [''a'' \<mapsto> Some ''1'']"
proof -
  have "dn (dictionary_new 0) \<noteq> dsize (dictionary_new 0)" by code_simp
  with dictionary_set_total [of "dictionary_new 0" "\<lambda>_. True" "''a''" "Some ''1''"]
  show ?thesis by (simp add: dict_new_ok dict_new_map)
qed

text \<open>
  C35. After any sequence of stores, a lookup of a key gives the value stored last under it.
\<close>

theorem dictionary_last_store:
  assumes "dict_ok d"
    and "put_all (\<lambda>d k v. dictionary_set can (Some d) (Some k) v) d (kvs @ (k, v) # rest) = Inr d'"
    and "k \<notin> fst ` set rest"
  shows "dictionary_get d' k def = sptr_of v"
  by (rule dict.put_all_last [OF assms])

theorem dictionary_last_store_witness:
  "case put_all (\<lambda>d k v. dictionary_set (\<lambda>_. True) (Some d) (Some k) v) (dictionary_new 0)
          [(''a'', Some ''1''), (''a'', Some ''2''), (''b'', None)] of
     Inr d' \<Rightarrow> dictionary_get d' ''a'' SNull = SStr ''2''
   | Inl _ \<Rightarrow> False"
proof -
  let ?put = "\<lambda>d k v. dictionary_set (\<lambda>_. True) (Some d) (Some k) v"
  let ?kvs = "[(''a'', Some ''1''), (''a'', Some ''2''), (''b'', None)]"
  have "case put_all ?put (dictionary_new 0) ?kvs of Inr d' \<Rightarrow> True | Inl _ \<Rightarrow> False" by code_simp
  then obtain d' where d': "put_all ?put (dictionary_new 0) ?kvs = Inr d'" by (auto split: sum.splits)
  have "dictionary_get d' ''a'' SNull = sptr_of (Some ''2'')"
    by (rule dictionary_last_store [OF dict_new_ok, of _ 0 "[(''a'', Some ''1'')]" _ _ "[(''b'', None)]"])
      (use d' in simp_all)
  with d' show ?thesis by (simp add: sptr_of_def)
qed

text \<open>Removing a key makes lookups of it give the default and leaves every other lookup alone.\<close>

theorem dictionary_unset_lookup:
  assumes "dict_ok d"
  shows "dictionary_get (dictionary_unset d (Some k)) q def = (if q = k then def else dictionary_get d q def)"
  by (rule dict.fetch_del [OF assms])

theorem dictionary_unset_lookup_witness:
  "dictionary_get (dictionary_unset (dictionary_new 0) (Some ''a'')) ''a'' SInvalid = SInvalid"
  using dictionary_unset_lookup [OF dict_new_ok, of 0 "''a''" "''a''" SInvalid] by simp

end
