(* ===== verification/Clib.thy ===== *)
theory Clib
  imports Prelude
begin

text \<open>
  The parts of the C library the sources use on strings: character classes in the "C"
  locale (the program never calls \<^verbatim>\<open>setlocale\<close>), number conversion,
  \<^verbatim>\<open>sscanf\<close> for the conversions that occur in the sources,
  \<^verbatim>\<open>fgets\<close>, and decimal printing.
\<close>

section \<open>Character classes\<close>

definition char_code :: "char \<Rightarrow> nat" where
  "char_code c = of_char c"

definition isspace :: "char \<Rightarrow> bool" where
  "isspace c \<longleftrightarrow> char_code c = 32 \<or> (9 \<le> char_code c \<and> char_code c \<le> 13)"

definition isdigit :: "char \<Rightarrow> bool" where
  "isdigit c \<longleftrightarrow> 48 \<le> char_code c \<and> char_code c \<le> 57"

definition islower :: "char \<Rightarrow> bool" where
  "islower c \<longleftrightarrow> 97 \<le> char_code c \<and> char_code c \<le> 122"

definition isupper :: "char \<Rightarrow> bool" where
  "isupper c \<longleftrightarrow> 65 \<le> char_code c \<and> char_code c \<le> 90"

definition tolower :: "char \<Rightarrow> char" where
  "tolower c = (if isupper c then char_of (char_code c + 32) else c)"

lemmas char_defs = isspace_def isdigit_def islower_def isupper_def char_code_def

lemma char_code_char_of [simp]: "n < 256 \<Longrightarrow> char_code (char_of n) = n"
  by (simp add: char_code_def)

lemma char_code_less: "char_code c < 256"
  by (simp add: char_code_def)

lemma char_code_inj: "char_code a = char_code b \<longleftrightarrow> a = b"
  by (simp add: char_code_def)

lemma tolower_idem [simp]: "tolower (tolower c) = tolower c"
  using char_code_less [of c] by (auto simp: tolower_def isupper_def)

lemma isspace_tolower [simp]: "isspace (tolower c) = isspace c"
  using char_code_less [of c] by (auto simp: tolower_def isupper_def isspace_def)

section \<open>Number conversion\<close>

definition digit_val :: "char \<Rightarrow> nat" where
  "digit_val c =
     (if isdigit c then char_code c - 48
      else if islower c then char_code c - 87
      else if isupper c then char_code c - 55
      else 99)"

text \<open>The digits below the base at the front of the string, as a number.\<close>

fun eat_digits :: "nat \<Rightarrow> nat \<Rightarrow> string \<Rightarrow> nat" where
  "eat_digits base acc [] = acc"
| "eat_digits base acc (c # cs) =
     (if digit_val c < base then eat_digits base (acc * base + digit_val c) cs else acc)"

definition has_hex_prefix :: "string \<Rightarrow> bool" where
  "has_hex_prefix s \<longleftrightarrow>
     (case s of a # b # c # _ \<Rightarrow> a = CHR ''0'' \<and> (b = CHR ''x'' \<or> b = CHR ''X'') \<and> digit_val c < 16
      | _ \<Rightarrow> False)"

text \<open>The base \<^verbatim>\<open>strtol\<close> works in and the string after a 0x prefix.\<close>

definition strtol_base :: "nat \<Rightarrow> string \<Rightarrow> nat \<times> string" where
  "strtol_base base s =
     (if (base = 0 \<or> base = 16) \<and> has_hex_prefix s then (16, drop 2 s)
      else if base = 0 then (if take 1 s = ''0'' then 8 else 10, s)
      else (base, s))"

definition clamp_long :: "int \<Rightarrow> int" where
  "clamp_long x = max (- (2 ^ 63)) (min (2 ^ 63 - 1) x)"

text \<open>The optional sign.\<close>

definition take_sign :: "string \<Rightarrow> bool \<times> string" where
  "take_sign s =
     (case s of c # cs \<Rightarrow> if c = CHR ''-'' then (True, cs) else if c = CHR ''+'' then (False, cs) else (False, s)
      | [] \<Rightarrow> (False, s))"

definition strtol :: "nat \<Rightarrow> string \<Rightarrow> int" where
  "strtol base s =
     (let (neg, s1) = take_sign (dropWhile isspace s);
          (b, s2) = strtol_base base s1;
          v = int (eat_digits b 0 s2)
      in clamp_long (if neg then - v else v))"

definition atoi :: "string \<Rightarrow> int" where
  "atoi s = to_int32 (strtol 10 s)"

text \<open>\<^verbatim>\<open>%d\<close> of a natural number.\<close>

fun show_nat :: "nat \<Rightarrow> string" where
  "show_nat n = (if n < 10 then [char_of (48 + n)] else show_nat (n div 10) @ [char_of (48 + n mod 10)])"

declare show_nat.simps [simp del]

lemma eat_digits_append:
  "(\<forall>c \<in> set ds. digit_val c < base) \<Longrightarrow>
   eat_digits base acc (ds @ rest) = eat_digits base (eat_digits base acc ds) rest"
  by (induction ds arbitrary: acc) auto

lemma digit_val_digit: "n < 10 \<Longrightarrow> digit_val (char_of (48 + n)) = n"
  by (simp add: digit_val_def isdigit_def)

lemma show_nat_digits: "\<forall>c \<in> set (show_nat n). isdigit c"
proof (induction n rule: show_nat.induct)
  case (1 n)
  then show ?case
    by (subst show_nat.simps) (auto simp: isdigit_def)
qed

lemma show_nat_nonempty: "show_nat n \<noteq> []"
  by (subst show_nat.simps) simp

lemma isdigit_val: "isdigit c \<Longrightarrow> digit_val c < 10"
  by (auto simp: digit_val_def isdigit_def)

lemma eat_show_nat: "eat_digits 10 0 (show_nat n) = n"
proof (induction n rule: show_nat.induct)
  case (1 n)
  show ?case
  proof (cases "n < 10")
    case True
    then show ?thesis by (subst show_nat.simps) (simp add: digit_val_digit)
  next
    case False
    have "\<forall>c \<in> set (show_nat (n div 10)). digit_val c < 10"
      using show_nat_digits isdigit_val by blast
    with False 1 show ?thesis
      by (subst show_nat.simps) (simp add: eat_digits_append digit_val_digit)
  qed
qed

lemma digit_not_space_sign:
  "isdigit c \<Longrightarrow> \<not> isspace c \<and> c \<noteq> CHR ''-'' \<and> c \<noteq> CHR ''+''"
  by (auto simp: char_defs)

text \<open>Printing a number and reading it back gives the number.\<close>

lemma strtol_show_nat:
  assumes "int n < 2 ^ 63"
  shows "strtol 10 (show_nat n) = int n"
proof -
  obtain c cs where s: "show_nat n = c # cs" by (metis list.exhaust show_nat_nonempty)
  have "isdigit c" using show_nat_digits [of n] s by simp
  then have "take_sign (dropWhile isspace (show_nat n)) = (False, show_nat n)"
    using digit_not_space_sign [of c] by (simp add: s take_sign_def)
  with assms show ?thesis
    by (simp add: strtol_def strtol_base_def eat_show_nat clamp_long_def)
qed

lemma to_int32_id: "- (2 ^ 31) \<le> x \<Longrightarrow> x < 2 ^ 31 \<Longrightarrow> to_int32 x = x"
  by (simp add: to_int32_def signed_of_int signed_take_bit_int_eq_self)

lemma to_int32_bounds: "- (2 ^ 31) \<le> to_int32 x" "to_int32 x < 2 ^ 31"
  unfolding to_int32_def using sint_range_size [of "word_of_int x :: u32"] by (simp_all add: word_size)

lemma atoi_show_nat: "n < 2 ^ 31 \<Longrightarrow> atoi (show_nat n) = int n"
  by (simp add: atoi_def strtol_show_nat to_int32_id)

section \<open>sscanf\<close>

text \<open>
  The directives that occur in the sources: white space, a literal character, a set
  conversion (negated or not) and a decimal conversion with a maximal width. A set
  conversion takes the longest non-empty prefix in the set. A conversion that fails stops
  the scan; the fields stored so far are the result.
\<close>

datatype scan_item =
    SWs | SLit char | SNotIn string | SIn string | SInt nat

datatype scan_field = FStr string | FNum int

text \<open>\<^verbatim>\<open>%Nd\<close>: white space, then at most \<open>w\<close> characters of sign and digits.\<close>

definition scan_int :: "nat \<Rightarrow> string \<Rightarrow> (int \<times> string) option" where
  "scan_int w s =
     (let s0 = dropWhile isspace s;
          (neg, s1) = take_sign (take w s0);
          ds = takeWhile isdigit s1
      in if ds = [] then None
         else Some (to_int32 (let v = int (eat_digits 10 0 ds) in if neg then - v else v),
                    drop (length (take w s0) - length s1 + length ds) s0))"

fun sscanf :: "scan_item list \<Rightarrow> string \<Rightarrow> scan_field list" where
  "sscanf [] s = []"
| "sscanf (SWs # f) s = sscanf f (dropWhile isspace s)"
| "sscanf (SLit c # f) s = (case s of x # xs \<Rightarrow> if x = c then sscanf f xs else [] | [] \<Rightarrow> [])"
| "sscanf (SNotIn cs # f) s =
     (let m = takeWhile (\<lambda>c. c \<notin> set cs) s
      in if m = [] then [] else FStr m # sscanf f (drop (length m) s))"
| "sscanf (SIn cs # f) s =
     (let m = takeWhile (\<lambda>c. c \<in> set cs) s
      in if m = [] then [] else FStr m # sscanf f (drop (length m) s))"
| "sscanf (SInt w # f) s =
     (case scan_int w s of None \<Rightarrow> [] | Some (v, rest) \<Rightarrow> FNum v # sscanf f rest)"

section \<open>fgets\<close>

text \<open>
  \<^verbatim>\<open>fgets(buf, n, f)\<close> on the rest of the file: at most \<open>n - 1\<close>
  characters, up to and including the first newline; NULL at the end of the file. The
  callers keep \<open>n\<close> at least 2.
\<close>

definition newline :: char where
  "newline = CHR 0x0A"

definition fgets :: "nat \<Rightarrow> string \<Rightarrow> (string \<times> string) option" where
  "fgets n s =
     (if s = [] \<or> n < 2 then None
      else (let body = takeWhile (\<lambda>c. c \<noteq> newline) (take (n - 1) s);
                k = (if length body < length (take (n - 1) s) then length body + 1 else length body)
            in Some (take k s, drop k s)))"

lemma fgets_None_iff: "fgets n s = None \<longleftrightarrow> s = [] \<or> n < 2"
  by (simp add: fgets_def Let_def)

lemma fgets_eof [simp]: "fgets n [] = None"
  by (simp add: fgets_None_iff)

lemma fgets_shrinks: "fgets n s = Some (l, rest) \<Longrightarrow> length rest < length s \<and> s = l @ rest \<and> l \<noteq> []"
proof -
  assume a: "fgets n s = Some (l, rest)"
  then have s: "s \<noteq> []" "2 \<le> n" by (auto simp: fgets_def split: if_splits)
  define body where "body = takeWhile (\<lambda>c. c \<noteq> newline) (take (n - 1) s)"
  define k where "k = (if length body < length (take (n - 1) s) then length body + 1 else length body)"
  have lr: "l = take k s" "rest = drop k s"
    using a s unfolding fgets_def Let_def body_def [symmetric] k_def [symmetric] by simp_all
  have "length (take (n - 1) s) > 0" using s by (cases s) auto
  then have "0 < k" by (auto simp: k_def)
  with lr s show ?thesis by (cases s) auto
qed

lemma isspace_newline [simp]: "isspace newline"
  by (simp add: isspace_def newline_def char_code_def)

lemma fgets_line:
  assumes "newline \<notin> set l" and "length l + 2 \<le> n"
  shows "fgets n (l @ newline # rest) = Some (l @ [newline], rest)"
proof -
  have t: "take (n - 1) (l @ newline # rest) = l @ newline # take (n - 2 - length l) rest"
  proof -
    obtain m where "n - 1 - length l = Suc m" using assms(2) by (cases "n - 1 - length l") auto
    moreover from this have "m = n - 2 - length l" using assms(2) by simp
    ultimately show ?thesis using assms(2) by simp
  qed
  have tw: "takeWhile (\<lambda>c. c \<noteq> newline) (l @ newline # ys) = l" for ys
    using assms(1) by (metis (mono_tags, lifting) append.right_neutral takeWhile.simps(2) takeWhile_append2)
  have lt: "length l < length (l @ newline # take (n - 2 - length l) rest)" by simp
  show ?thesis
    using assms(2) unfolding fgets_def t tw Let_def by simp
qed

section \<open>Stripping blanks\<close>

definition rstrip :: "string \<Rightarrow> string" where
  "rstrip s = rev (dropWhile isspace (rev s))"

lemma rstrip_snoc [simp]: "rstrip (s @ [c]) = (if isspace c then rstrip s else s @ [c])"
  by (simp add: rstrip_def)

lemma rstrip_Nil [simp]: "rstrip [] = []"
  by (simp add: rstrip_def)

lemma length_rstrip: "length (rstrip s) \<le> length s"
  by (metis length_dropWhile_le length_rev rstrip_def)

lemma rstrip_id: "s = [] \<or> \<not> isspace (last s) \<Longrightarrow> rstrip s = s"
  by (cases s rule: rev_cases) auto

lemma rstrip_last: "rstrip s \<noteq> [] \<Longrightarrow> \<not> isspace (last (rstrip s))"
  unfolding rstrip_def by (metis hd_dropWhile last_rev rev_is_Nil_conv)

lemma rstrip_append_blank: "(\<forall>c \<in> set b. isspace c) \<Longrightarrow> rstrip (s @ b) = rstrip s"
  by (induction b rule: rev_induct) (simp_all flip: append_assoc)

end
