(* ===== verification/Iniparser.thy ===== *)
theory Iniparser
  imports Inidict Clib
begin

text \<open>
  The INI parser of \<^verbatim>\<open>src/iniparser.c\<close>: line classification through
  \<^verbatim>\<open>sscanf\<close>, the loader with its continuation lines and its error counter,
  the typed queries and the two dump functions. Outcomes that are undefined in C (a read
  before the line buffer, a \<^verbatim>\<open>sprintf\<close> past \<^verbatim>\<open>tmp\<close>) are
  explicit error values.
\<close>

section \<open>Strings\<close>

definition ASCIILINESZ :: nat where
  "ASCIILINESZ = 1024"

definition strlwc :: "string \<Rightarrow> string" where
  "strlwc s = map tolower (take ASCIILINESZ s)"

definition strstrip :: "string \<Rightarrow> string" where
  "strstrip s = rstrip (dropWhile isspace s)"

section \<open>One line\<close>

datatype line_status =
  LINE_UNPROCESSED | LINE_ERROR | LINE_EMPTY | LINE_COMMENT | LINE_SECTION | LINE_VALUE

text \<open>
  The formats of the source, in its order: a value in double quotes, in single quotes, a
  bare value up to a comment, and the two special cases of an empty value.
\<close>

definition fmt_section :: "scan_item list" where
  "fmt_section = [SLit CHR ''['', SNotIn '']'']"

definition fmt_dquote :: "scan_item list" where
  "fmt_dquote = [SNotIn ''='', SWs, SLit CHR ''='', SWs, SLit CHR 0x22, SNotIn [CHR 0x22], SLit CHR 0x22]"

definition fmt_squote :: "scan_item list" where
  "fmt_squote = [SNotIn ''='', SWs, SLit CHR ''='', SWs, SLit CHR 0x27, SNotIn [CHR 0x27], SLit CHR 0x27]"

definition fmt_bare :: "scan_item list" where
  "fmt_bare = [SNotIn ''='', SWs, SLit CHR ''='', SWs, SNotIn '';#'']"

definition fmt_comment :: "scan_item list" where
  "fmt_comment = [SNotIn ''='', SWs, SLit CHR ''='', SWs, SIn '';#'']"

definition fmt_empty :: "scan_item list" where
  "fmt_empty = [SNotIn ''='', SWs, SIn ''='']"

text \<open>
  The output buffers \<open>key\<close> and \<open>value\<close> after a scan: a conversion that
  succeeded has written its buffer even when a later one failed.
\<close>

fun assign2 :: "scan_field list \<Rightarrow> string \<times> string \<Rightarrow> string \<times> string" where
  "assign2 [FStr a] (k, v) = (a, v)"
| "assign2 (FStr a # FStr b # _) (k, v) = (a, b)"
| "assign2 _ kv = kv"

text \<open>Try the formats in order until one converts two fields (\<^verbatim>\<open>||\<close> of the source).\<close>

fun try_formats :: "scan_item list list \<Rightarrow> string \<Rightarrow> string \<times> string \<Rightarrow> bool \<times> string \<times> string" where
  "try_formats [] line kv = (False, kv)"
| "try_formats (f # fs) line kv =
     (let r = sscanf f line; kv' = assign2 r kv
      in if length r = 2 then (True, kv') else try_formats fs line kv')"

definition dquote2 :: string where
  "dquote2 = [CHR 0x22, CHR 0x22]"

definition squote2 :: string where
  "squote2 = [CHR 0x27, CHR 0x27]"

definition iniparser_line ::
  "string \<Rightarrow> string \<Rightarrow> string \<Rightarrow> string \<Rightarrow> line_status \<times> string \<times> string \<times> string"
where
  "iniparser_line input_line sect key val =
     (let line = strstrip input_line in
      if line = [] then (LINE_EMPTY, sect, key, val)
      else if hd line = CHR ''#'' then (LINE_COMMENT, sect, key, val)
      else if hd line = CHR ''['' \<and> last line = CHR '']'' then
        (let s = (case sscanf fmt_section line of [FStr x] \<Rightarrow> x | _ \<Rightarrow> sect)
         in (LINE_SECTION, strlwc (strstrip s), key, val))
      else
        (case try_formats [fmt_dquote, fmt_squote, fmt_bare] line (key, val) of
           (True, k, v) \<Rightarrow>
             (let v' = strstrip v
              in (LINE_VALUE, sect, strlwc (strstrip k),
                  if v' = dquote2 \<or> v' = squote2 then [] else v'))
         | (False, k, v) \<Rightarrow>
             (case try_formats [fmt_comment, fmt_empty] line (k, v) of
                (True, k', v') \<Rightarrow> (LINE_VALUE, sect, strlwc (strstrip k'), [])
              | (False, k', v') \<Rightarrow> (LINE_ERROR, sect, k', v'))))"

section \<open>Loading a file\<close>

datatype load_error =
    LoadOpen \<comment> \<open>the file can't be opened: NULL\<close>
  | LoadTooLong nat \<comment> \<open>line (by number) without a newline in the buffer: NULL\<close>
  | LoadSyntax \<comment> \<open>the error counter is not zero at the end: NULL\<close>
  | LoadNoMem \<comment> \<open>the dictionary can't grow\<close>
  | LoadOob \<comment> \<open>the byte before the line buffer is read as a backslash\<close>
  | LoadOverflow \<comment> \<open>section and key don't fit in \<^verbatim>\<open>tmp\<close>\<close>

record ini_state =
  i_rest :: string \<comment> \<open>the unread part of the file\<close>
  i_pfx :: string \<comment> \<open>the first \<open>last\<close> characters of the line buffer\<close>
  i_sec :: string
  i_key :: string
  i_val :: string
  i_dict :: dictionary
  i_errs :: int
  i_lineno :: nat

text \<open>
  The \<^verbatim>\<open>switch\<close> on a complete logical line. The error counter is
  overwritten by the result of a successful update, as in the source.
\<close>

definition ini_switch :: "(nat \<Rightarrow> bool) \<Rightarrow> string \<Rightarrow> ini_state \<Rightarrow> load_error + ini_state" where
  "ini_switch can line st =
     (case iniparser_line line (i_sec st) (i_key st) (i_val st) of
        (sta, sect, key, val) \<Rightarrow>
          (let st1 = st\<lparr> i_sec := sect, i_key := key, i_val := val, i_pfx := [] \<rparr> in
           case sta of
             LINE_SECTION \<Rightarrow>
               (case dictionary_set can (Some (i_dict st)) (Some sect) None of
                  Inl e \<Rightarrow> Inl LoadNoMem
                | Inr d \<Rightarrow> Inr (st1\<lparr> i_dict := d, i_errs := 0 \<rparr>))
           | LINE_VALUE \<Rightarrow>
               (let tmp = sect @ '':'' @ key in
                if length tmp > ASCIILINESZ then Inl LoadOverflow
                else (case dictionary_set can (Some (i_dict st)) (Some tmp) (Some val) of
                        Inl e \<Rightarrow> Inl LoadNoMem
                      | Inr d \<Rightarrow> Inr (st1\<lparr> i_dict := d, i_errs := 0 \<rparr>)))
           | LINE_ERROR \<Rightarrow> Inr (st1\<lparr> i_errs := i_errs st + 1 \<rparr>)
           | _ \<Rightarrow> Inr st1))"

text \<open>
  One pass of the loop over \<^verbatim>\<open>fgets\<close>. \<open>below\<close> is the byte in memory
  before the line buffer, which the source reads when the stripped line is empty.
\<close>

definition ini_step :: "(nat \<Rightarrow> bool) \<Rightarrow> char \<Rightarrow> string \<Rightarrow> string \<Rightarrow> ini_state \<Rightarrow> load_error + ini_state"
where
  "ini_step can below chunk rest st =
     (let st0 = st\<lparr> i_rest := rest, i_lineno := i_lineno st + 1 \<rparr>;
          raw = i_pfx st @ chunk in
      if last raw \<noteq> newline then Inl (LoadTooLong (i_lineno st0))
      else
        (let line = rstrip raw in
         if line = [] then
           (if below = CHR 0x5C then Inl LoadOob else ini_switch can [] st0)
         else if last line = CHR 0x5C then Inr (st0\<lparr> i_pfx := butlast line \<rparr>)
         else ini_switch can line st0))"

text \<open>The switch leaves the unread input and the line number alone and clears the line buffer.\<close>

lemma ini_switch_frame [frame_simps]:
  "ini_switch can line st = Inr st' \<Longrightarrow>
   i_rest st' = i_rest st \<and> i_lineno st' = i_lineno st \<and> i_pfx st' = []"
  by (auto simp: ini_switch_def Let_def split: prod.splits line_status.splits sum.splits if_splits)

lemma ini_step_rest [frame_simps]:
  "ini_step can below chunk rest st = Inr st' \<Longrightarrow> i_rest st' = rest"
  by (auto simp: ini_step_def Let_def split: if_splits dest!: ini_switch_frame)

function ini_loop :: "(nat \<Rightarrow> bool) \<Rightarrow> char \<Rightarrow> ini_state \<Rightarrow> load_error + ini_state" where
  "ini_loop can below st =
     (case fgets (ASCIILINESZ - length (i_pfx st)) (i_rest st) of
        None \<Rightarrow> Inr st
      | Some (chunk, rest) \<Rightarrow>
          (case ini_step can below chunk rest st of
             Inl e \<Rightarrow> Inl e
           | Inr st' \<Rightarrow> ini_loop can below st'))"
  by pat_completeness auto
termination
  by (relation "measure (\<lambda>(can, below, st). length (i_rest st))")
    (auto dest!: fgets_shrinks simp: ini_step_rest)

declare ini_loop.simps [simp del]

definition ini_init :: "string \<Rightarrow> ini_state" where
  "ini_init content =
     \<lparr> i_rest = content, i_pfx = [], i_sec = [], i_key = [], i_val = [],
       i_dict = dictionary_new 0, i_errs = 0, i_lineno = 0 \<rparr>"

definition iniparser_load :: "(nat \<Rightarrow> bool) \<Rightarrow> char \<Rightarrow> string option \<Rightarrow> load_error + dictionary" where
  "iniparser_load can below file =
     (case file of
        None \<Rightarrow> Inl LoadOpen
      | Some content \<Rightarrow>
          (case ini_loop can below (ini_init content) of
             Inl e \<Rightarrow> Inl e
           | Inr st \<Rightarrow> if i_errs st \<noteq> 0 then Inl LoadSyntax else Inr (i_dict st)))"

section \<open>Queries and updates\<close>

definition iniparser_getstring :: "dictionary option \<Rightarrow> string option \<Rightarrow> sptr \<Rightarrow> sptr" where
  "iniparser_getstring dp keyp def =
     (case (dp, keyp) of
        (Some d, Some key) \<Rightarrow> dictionary_get d (strlwc key) def
      | _ \<Rightarrow> def)"

text \<open>
  The typed queries. A key stored with a NULL value (a section name) makes the source
  dereference NULL, which is the value \<open>None\<close> here.
\<close>

definition iniparser_getint :: "dictionary option \<Rightarrow> string option \<Rightarrow> int \<Rightarrow> int option" where
  "iniparser_getint dp keyp notfound =
     (case iniparser_getstring dp keyp SInvalid of
        SInvalid \<Rightarrow> Some notfound
      | SNull \<Rightarrow> None
      | SStr s \<Rightarrow> Some (to_int32 (strtol 0 s)))"

text \<open>\<open>atof\<close> is the conversion of the C library.\<close>

definition iniparser_getdouble :: "(string \<Rightarrow> 'a) \<Rightarrow> dictionary option \<Rightarrow> string option \<Rightarrow> 'a \<Rightarrow> 'a option" where
  "iniparser_getdouble atof dp keyp notfound =
     (case iniparser_getstring dp keyp SInvalid of
        SInvalid \<Rightarrow> Some notfound
      | SNull \<Rightarrow> None
      | SStr s \<Rightarrow> Some (atof s))"

definition iniparser_getboolean :: "dictionary option \<Rightarrow> string option \<Rightarrow> int \<Rightarrow> int option" where
  "iniparser_getboolean dp keyp notfound =
     (case iniparser_getstring dp keyp SInvalid of
        SInvalid \<Rightarrow> Some notfound
      | SNull \<Rightarrow> None
      | SStr s \<Rightarrow>
          Some (if s \<noteq> [] \<and> hd s \<in> set ''yY1tT'' then 1
                else if s \<noteq> [] \<and> hd s \<in> set ''nN0fF'' then 0
                else notfound))"

definition iniparser_find_entry :: "dictionary option \<Rightarrow> string option \<Rightarrow> bool" where
  "iniparser_find_entry dp entry = (iniparser_getstring dp entry SInvalid \<noteq> SInvalid)"

definition iniparser_set ::
  "(nat \<Rightarrow> bool) \<Rightarrow> dictionary option \<Rightarrow> string option \<Rightarrow> string option \<Rightarrow> dict_error + dictionary"
where
  "iniparser_set can dp entry val = dictionary_set can dp (map_option strlwc entry) val"

definition iniparser_unset :: "dictionary \<Rightarrow> string option \<Rightarrow> dictionary" where
  "iniparser_unset d entry = dictionary_unset d (map_option strlwc entry)"

section \<open>Sections and dumps\<close>

text \<open>The slot holds a section name: a key without a colon.\<close>

definition is_sec_slot :: "dictionary \<Rightarrow> nat \<Rightarrow> bool" where
  "is_sec_slot d i \<longleftrightarrow>
     (case dkey d ! i of None \<Rightarrow> False | Some k \<Rightarrow> CHR '':'' \<notin> set k)"

definition iniparser_getnsec :: "dictionary option \<Rightarrow> int" where
  "iniparser_getnsec dp =
     (case dp of
        None \<Rightarrow> -1
      | Some d \<Rightarrow> int (length (filter (is_sec_slot d) [0..<dsize d])))"

text \<open>The loop of \<^verbatim>\<open>iniparser_getsecname\<close>: stop at the slot where the count passes \<open>n\<close>.\<close>

fun secname_loop :: "dictionary \<Rightarrow> int \<Rightarrow> int \<Rightarrow> nat list \<Rightarrow> string option" where
  "secname_loop d n foundsec [] = None"
| "secname_loop d n foundsec (i # is) =
     (if is_sec_slot d i then
        (if foundsec + 1 > n then dkey d ! i else secname_loop d n (foundsec + 1) is)
      else secname_loop d n foundsec is)"

definition iniparser_getsecname :: "dictionary option \<Rightarrow> int \<Rightarrow> string option" where
  "iniparser_getsecname dp n =
     (case dp of
        None \<Rightarrow> None
      | Some d \<Rightarrow> if n < 0 then None else secname_loop d n 0 [0..<dsize d])"

definition iniparser_dump :: "dictionary option \<Rightarrow> string" where
  "iniparser_dump dp =
     (case dp of
        None \<Rightarrow> []
      | Some d \<Rightarrow>
          concat (map (\<lambda>i. case dkey d ! i of
                         None \<Rightarrow> []
                       | Some k \<Rightarrow>
                           (case dval d ! i of
                              Some v \<Rightarrow> ''['' @ k @ '']=['' @ v @ '']'' @ [newline]
                            | None \<Rightarrow> ''['' @ k @ '']=UNDEF'' @ [newline]))
                  [0..<dsize d]))"

text \<open>\<^verbatim>\<open>%-30s\<close>: left-justified in 30 columns.\<close>

definition pad_right :: "nat \<Rightarrow> string \<Rightarrow> string" where
  "pad_right w s = s @ replicate (w - length s) (CHR '' '')"

definition dump_section :: "dictionary \<Rightarrow> string \<Rightarrow> string" where
  "dump_section d secname =
     [newline] @ ''['' @ secname @ '']'' @ [newline] @
     concat (map (\<lambda>j. case dkey d ! j of
                    None \<Rightarrow> []
                  | Some k \<Rightarrow>
                      if take (length secname + 1) k = secname @ '':'' then
                        pad_right 30 (drop (length secname + 1) k) @ '' = '' @
                        (case dval d ! j of Some v \<Rightarrow> v | None \<Rightarrow> []) @ [newline]
                      else [])
             [0..<dsize d])"

text \<open>
  \<^verbatim>\<open>iniparser_dump_ini\<close>. With no section every entry is printed as it is; a
  NULL value is passed to \<^verbatim>\<open>%s\<close> there, for which the C library prints
  \<^verbatim>\<open>(null)\<close>.
\<close>

definition iniparser_dump_ini :: "dictionary option \<Rightarrow> string" where
  "iniparser_dump_ini dp =
     (case dp of
        None \<Rightarrow> []
      | Some d \<Rightarrow>
          if iniparser_getnsec dp < 1 then
            concat (map (\<lambda>i. case dkey d ! i of
                           None \<Rightarrow> []
                         | Some k \<Rightarrow> k @ '' = '' @
                             (case dval d ! i of Some v \<Rightarrow> v | None \<Rightarrow> ''(null)'') @ [newline])
                    [0..<dsize d])
          else
            concat (map (\<lambda>i. case iniparser_getsecname dp (int i) of
                           Some s \<Rightarrow> dump_section d s
                         | None \<Rightarrow> [])
                    [0..<nat (iniparser_getnsec dp)]) @ [newline])"

section \<open>The formatted queries the configuration uses\<close>

text \<open>
  \<^verbatim>\<open>vsnprintf(key, sizeof(key)-1, ...)\<close> with \<^verbatim>\<open>char key[128]\<close>:
  at most 126 characters of the formatted key.
\<close>

definition handle_format :: "string \<Rightarrow> string" where
  "handle_format k = take 126 k"

definition ini_get_string :: "dictionary option \<Rightarrow> sptr \<Rightarrow> string \<Rightarrow> sptr" where
  "ini_get_string dp def k = iniparser_getstring dp (Some (handle_format k)) def"

text \<open>The copy has the same contents; NULL stays NULL.\<close>

definition ini_get_string_copy :: "dictionary option \<Rightarrow> sptr \<Rightarrow> string \<Rightarrow> sptr" where
  "ini_get_string_copy dp def k = iniparser_getstring dp (Some (handle_format k)) def"

definition ini_get_int :: "dictionary option \<Rightarrow> int \<Rightarrow> string \<Rightarrow> int option" where
  "ini_get_int dp def k = iniparser_getint dp (Some (handle_format k)) def"

definition ini_get_double :: "(string \<Rightarrow> 'a) \<Rightarrow> dictionary option \<Rightarrow> 'a \<Rightarrow> string \<Rightarrow> 'a option" where
  "ini_get_double atof dp def k = iniparser_getdouble atof dp (Some (handle_format k)) def"

definition ini_get_bool :: "dictionary option \<Rightarrow> int \<Rightarrow> string \<Rightarrow> int option" where
  "ini_get_bool dp def k = iniparser_getboolean dp (Some (handle_format k)) def"

section \<open>Lines do not depend on the stale output buffers\<close>

lemma sscanf_strings:
  "(\<forall>x \<in> set f. \<forall>w. x \<noteq> SInt w) \<Longrightarrow> \<forall>r \<in> set (sscanf f s). \<exists>a. r = FStr a"
  by (induction f s rule: sscanf.induct) (auto simp: Let_def split: list.splits)

lemma assign2_pair:
  "length r = 2 \<Longrightarrow> (\<forall>x \<in> set r. \<exists>a. x = FStr a) \<Longrightarrow> assign2 r kv = assign2 r kv'"
  by (cases kv; cases kv') (auto simp: numeral_2_eq_2 length_Suc_conv)

lemma try_formats_indep:
  assumes "\<forall>f \<in> set fs. \<forall>x \<in> set f. \<forall>w. x \<noteq> SInt w"
  shows "fst (try_formats fs l kv) = fst (try_formats fs l kv')"
    and "fst (try_formats fs l kv) \<Longrightarrow> try_formats fs l kv = try_formats fs l kv'"
  using assms
proof (induction fs arbitrary: kv kv')
  case (Cons f fs)
  {
    case 1
    then show ?case using Cons.IH(1) by (simp add: Let_def)
  next
    case 2
    have "assign2 (sscanf f l) kv = assign2 (sscanf f l) kv'" if "length (sscanf f l) = 2"
      using that assign2_pair sscanf_strings [of f l] 2(2) by simp
    then show ?case
      using Cons.IH(2) [of "assign2 (sscanf f l) kv" "assign2 (sscanf f l) kv'"] 2
      by (auto simp: Let_def)
  }
qed simp_all

lemma formats_no_int:
  "\<forall>f \<in> set [fmt_dquote, fmt_squote, fmt_bare]. \<forall>x \<in> set f. \<forall>w. x \<noteq> SInt w"
  "\<forall>f \<in> set [fmt_comment, fmt_empty]. \<forall>x \<in> set f. \<forall>w. x \<noteq> SInt w"
  by (auto simp: fmt_dquote_def fmt_squote_def fmt_bare_def fmt_comment_def fmt_empty_def)

lemma iniparser_line_indep:
  assumes "iniparser_line l sec k v = (sta, sec', k', v')"
  shows "\<exists>k2 v2. iniparser_line l sec [] [] = (sta, sec', k2, v2) \<and>
                 (sta = LINE_VALUE \<longrightarrow> k2 = k' \<and> v2 = v')"
proof -
  let ?l = "strstrip l" and ?A = "[fmt_dquote, fmt_squote, fmt_bare]" and ?B = "[fmt_comment, fmt_empty]"
  obtain a ka va where A: "try_formats ?A ?l (k, v) = (a, ka, va)" by (metis prod_cases3)
  obtain b kb vb where A': "try_formats ?A ?l ([], []) = (b, kb, vb)" by (metis prod_cases3)
  obtain c kc vc where B: "try_formats ?B ?l (ka, va) = (c, kc, vc)" by (metis prod_cases3)
  obtain d kd vd where B': "try_formats ?B ?l (kb, vb) = (d, kd, vd)" by (metis prod_cases3)
  have ab: "a = b" and aeq: "a \<Longrightarrow> ka = kb \<and> va = vb"
    using try_formats_indep [OF formats_no_int(1), of ?l "(k, v)" "([], [])"] A A' by auto
  have cd: "c = d" and ceq: "c \<Longrightarrow> kc = kd \<and> vc = vd"
    using try_formats_indep [OF formats_no_int(2), of ?l "(ka, va)" "(kb, vb)"] B B' by auto
  show ?thesis
    using assms ab aeq cd ceq A A' B B'
    by (cases a; cases c) (auto simp: iniparser_line_def Let_def split: if_splits)
qed

section \<open>The abstract reading of a file\<close>

text \<open>The physical lines of a file, without their newlines.\<close>

function phys_lines :: "string \<Rightarrow> string list" where
  "phys_lines s =
     (if s = [] then []
      else takeWhile (\<lambda>c. c \<noteq> newline) s #
           phys_lines (drop (Suc (length (takeWhile (\<lambda>c. c \<noteq> newline) s))) s))"
  by pat_completeness auto
termination
  by (relation "measure length") auto

declare phys_lines.simps [simp del]

text \<open>Logical lines: trailing blanks removed, a final backslash joins the next line.\<close>

fun join_lines :: "string \<Rightarrow> string list \<Rightarrow> string list" where
  "join_lines pfx [] = []"
| "join_lines pfx (l # ls) =
     (let line = rstrip (pfx @ l)
      in if line \<noteq> [] \<and> last line = CHR 0x5C then join_lines (butlast line) ls
         else line # join_lines [] ls)"

text \<open>
  The updates a list of logical lines stands for, in order, and the value of the error
  counter at the end: a section or value line sets it back to zero.
\<close>

fun ini_spec :: "string \<Rightarrow> int \<Rightarrow> string list \<Rightarrow> (string \<times> string option) list \<times> int" where
  "ini_spec sec errs [] = ([], errs)"
| "ini_spec sec errs (l # ls) =
     (case iniparser_line l sec [] [] of (sta, s, k, v) \<Rightarrow>
        (case sta of
           LINE_SECTION \<Rightarrow> apfst ((#) (s, None)) (ini_spec s 0 ls)
         | LINE_VALUE \<Rightarrow> apfst ((#) (s @ '':'' @ k, Some v)) (ini_spec s 0 ls)
         | LINE_ERROR \<Rightarrow> ini_spec s (errs + 1) ls
         | _ \<Rightarrow> ini_spec s errs ls))"

lemma phys_lines_Nil [simp]: "phys_lines [] = []"
  by (simp add: phys_lines.simps)

lemma phys_lines_line [simp]:
  "newline \<notin> set l \<Longrightarrow> phys_lines (l @ newline # rest) = l # phys_lines rest"
proof -
  assume "newline \<notin> set l"
  then have "takeWhile (\<lambda>c. c \<noteq> newline) (l @ newline # rest) = l"
    by (metis (mono_tags, lifting) append.right_neutral takeWhile.simps(2) takeWhile_append2)
  then show ?thesis by (subst phys_lines.simps) simp
qed

lemma fgets_newline:
  assumes "fgets n s = Some (c, r)" and "last c = newline"
  obtains l where "c = l @ [newline]" and "newline \<notin> set l" and "s = l @ newline # r"
proof -
  define t where "t = take (n - 1) s"
  define body where "body = takeWhile (\<lambda>c. c \<noteq> newline) t"
  have nn: "\<not> (s = [] \<or> n < 2)" using assms(1) by (auto simp: fgets_def)
  have c: "c = take (if length body < length t then length body + 1 else length body) s"
    using assms(1) nn unfolding fgets_def Let_def body_def [symmetric] t_def [symmetric] by simp
  have tb: "take (length body) t = body"
    unfolding body_def by (metis takeWhile_eq_take)
  have nb: "newline \<notin> set body" unfolding body_def by (auto dest: set_takeWhileD)
  have bs: "take (length body) s = body"
    using tb by (metis append_take_drop_id body_def length_takeWhile_le t_def take_append
        append.right_neutral diff_is_0_eq take0)
  have "c \<noteq> []" using fgets_shrinks [OF assms(1)] by simp
  show ?thesis
  proof (cases "length body < length t")
    case False
    then have "c = body" using c bs by simp
    then show ?thesis using assms(2) nb \<open>c \<noteq> []\<close> last_in_set by metis
  next
    case True
    then have "length body < length s" by (simp add: t_def)
    then have "c = body @ [s ! length body]" using c True bs by (simp add: take_Suc_conv_app_nth)
    then have "c = body @ [newline]" using assms(2) by simp
    then show ?thesis using that nb fgets_shrinks [OF assms(1)] by simp
  qed
qed

section \<open>The loader refines the abstract reading\<close>

text \<open>The update operation of the dictionary, as the interface sees it.\<close>

abbreviation dput :: "(nat \<Rightarrow> bool) \<Rightarrow> dictionary \<Rightarrow> string \<Rightarrow> string option \<Rightarrow> dict_error + dictionary" where
  "dput can d k v \<equiv> dictionary_set can (Some d) (Some k) v"

text \<open>What remains to be done from a loader state.\<close>

definition todo :: "ini_state \<Rightarrow> (string \<times> string option) list \<times> int" where
  "todo st = ini_spec (i_sec st) (i_errs st) (join_lines (i_pfx st) (phys_lines (i_rest st)))"

text \<open>One logical line: the updates it makes are the first of those to be done.\<close>

lemma ini_switch_spec:
  assumes "ini_switch can line st = Inr st'"
  shows "\<exists>kvs. put_all (dput can) (i_dict st) kvs = Inr (i_dict st') \<and>
               (\<forall>ls. ini_spec (i_sec st) (i_errs st) (line # ls) =
                     apfst (append kvs) (ini_spec (i_sec st') (i_errs st') ls))"
proof -
  obtain sta s k v where L: "iniparser_line line (i_sec st) (i_key st) (i_val st) = (sta, s, k, v)"
    by (metis prod_cases4)
  from iniparser_line_indep [OF L] obtain k2 v2
    where L2: "iniparser_line line (i_sec st) [] [] = (sta, s, k2, v2)"
      "sta = LINE_VALUE \<Longrightarrow> k2 = k \<and> v2 = v" by auto
  define kvs where "kvs = (case sta of LINE_SECTION \<Rightarrow> [(s, None)]
                             | LINE_VALUE \<Rightarrow> [(s @ '':'' @ k, Some v)] | _ \<Rightarrow> [])"
  have "put_all (dput can) (i_dict st) kvs = Inr (i_dict st')"
    using assms L by (auto simp: ini_switch_def kvs_def Let_def split: line_status.splits sum.splits if_splits)
  moreover have "ini_spec (i_sec st) (i_errs st) (line # ls) =
                 apfst (append kvs) (ini_spec (i_sec st') (i_errs st') ls)" for ls
    using assms L L2
    by (auto simp: ini_switch_def kvs_def Let_def apfst_def map_prod_def
        split: line_status.splits sum.splits if_splits prod.splits)
  ultimately show ?thesis by blast
qed

lemma put_all_append:
  "put_all put d (xs @ ys) = (case put_all put d xs of Inl e \<Rightarrow> Inl e | Inr d' \<Rightarrow> put_all put d' ys)"
  by (induction xs arbitrary: d) (auto split: sum.splits)

text \<open>One pass of the loop.\<close>

lemma ini_step_spec:
  assumes F: "fgets n (i_rest st) = Some (chunk, rest)"
    and S: "ini_step can below chunk rest st = Inr st'"
  shows "\<exists>kvs. put_all (dput can) (i_dict st) kvs = Inr (i_dict st') \<and>
               todo st = apfst (append kvs) (todo st')"
proof -
  let ?st0 = "st\<lparr> i_rest := rest, i_lineno := i_lineno st + 1 \<rparr>"
  have "chunk \<noteq> []" using fgets_shrinks [OF F] by simp
  with S have "last chunk = newline" by (auto simp: ini_step_def Let_def split: if_splits)
  from fgets_newline [OF F this] obtain l
    where l: "chunk = l @ [newline]" "newline \<notin> set l" "i_rest st = l @ newline # rest" .
  define line where "line = rstrip (i_pfx st @ l)"
  have raw: "rstrip (i_pfx st @ chunk) = line"
    by (simp add: l line_def flip: append_assoc)
  have T: "todo st = ini_spec (i_sec st) (i_errs st)
             (if line \<noteq> [] \<and> last line = CHR 0x5C then join_lines (butlast line) (phys_lines rest)
              else line # join_lines [] (phys_lines rest))"
    by (simp add: todo_def l Let_def line_def)
  show ?thesis
  proof (cases "line \<noteq> [] \<and> last line = CHR 0x5C")
    case True
    with S raw \<open>chunk \<noteq> []\<close> \<open>last chunk = newline\<close>
    have "st' = ?st0\<lparr> i_pfx := butlast line \<rparr>" by (simp add: ini_step_def Let_def)
    with True T show ?thesis by (intro exI [of _ "[]"]) (simp add: todo_def apfst_def map_prod_def split: prod.splits)
  next
    case False
    with S raw \<open>chunk \<noteq> []\<close> \<open>last chunk = newline\<close>
    have sw: "ini_switch can line ?st0 = Inr st'"
      by (auto simp: ini_step_def Let_def split: if_splits)
    from ini_switch_spec [OF sw] ini_switch_frame [OF sw] False T
    show ?thesis by (auto simp: todo_def)
  qed
qed

text \<open>The line buffer is never full when a continuation line is read, so \<^verbatim>\<open>fgets\<close> gets room.\<close>

definition pfx_ok :: "ini_state \<Rightarrow> bool" where
  "pfx_ok st \<longleftrightarrow> length (i_pfx st) + 3 \<le> ASCIILINESZ"

lemma fgets_length: "fgets n s = Some (c, r) \<Longrightarrow> length c \<le> n - 1"
proof -
  assume a: "fgets n s = Some (c, r)"
  define t where "t = take (n - 1) s"
  have "c = take (if length (takeWhile (\<lambda>c. c \<noteq> newline) t) < length t
                  then length (takeWhile (\<lambda>c. c \<noteq> newline) t) + 1
                  else length (takeWhile (\<lambda>c. c \<noteq> newline) t)) s"
    using a unfolding fgets_def Let_def t_def [symmetric] by (auto split: if_splits)
  then have "length c \<le> length t"
    using length_takeWhile_le [of "\<lambda>c. c \<noteq> newline" t] by (auto simp: min_def split: if_splits)
  then show ?thesis by (simp add: t_def)
qed

lemma ini_step_pfx [inv_intros]:
  assumes "pfx_ok st" and F: "fgets (ASCIILINESZ - length (i_pfx st)) (i_rest st) = Some (chunk, rest)"
    and S: "ini_step can below chunk rest st = Inr st'"
  shows "pfx_ok st'"
proof -
  have "chunk \<noteq> []" using fgets_shrinks [OF F] by simp
  with S have "last chunk = newline" by (auto simp: ini_step_def Let_def split: if_splits)
  with \<open>chunk \<noteq> []\<close> obtain l where l: "chunk = l @ [newline]" by (metis append_butlast_last_id)
  have len: "length (i_pfx st) + length l + 2 \<le> ASCIILINESZ"
    using fgets_length [OF F] assms(1) by (simp add: l pfx_ok_def)
  have raw: "rstrip (i_pfx st @ chunk) = rstrip (i_pfx st @ l)"
    by (simp add: l flip: append_assoc)
  have "length (butlast (rstrip (i_pfx st @ l))) + 3 \<le> ASCIILINESZ \<or> rstrip (i_pfx st @ l) = []"
    using length_rstrip [of "i_pfx st @ l"] len by (cases "rstrip (i_pfx st @ l)") auto
  moreover have "i_pfx st' = [] \<or> (rstrip (i_pfx st @ l) \<noteq> [] \<and> i_pfx st' = butlast (rstrip (i_pfx st @ l)))"
    using S raw by (auto simp: ini_step_def Let_def split: if_splits dest!: ini_switch_frame)
  ultimately show ?thesis by (auto simp: pfx_ok_def ASCIILINESZ_def)
qed

lemma ini_loop_spec:
  "ini_loop can below st = Inr st' \<Longrightarrow> pfx_ok st \<Longrightarrow>
   put_all (dput can) (i_dict st) (fst (todo st)) = Inr (i_dict st') \<and> snd (todo st) = i_errs st'"
proof (induction can below st rule: ini_loop.induct)
  case (1 can below st)
  show ?case
  proof (cases "fgets (ASCIILINESZ - length (i_pfx st)) (i_rest st)")
    case None
    with 1(3) have "i_rest st = []" by (auto simp: fgets_None_iff pfx_ok_def)
    with None 1(2) show ?thesis by (simp add: ini_loop.simps [of can below st] todo_def)
  next
    case (Some cr)
    obtain chunk rest where cr: "cr = (chunk, rest)" by (cases cr)
    with Some 1(2) obtain st1 where st1: "ini_step can below chunk rest st = Inr st1"
      "ini_loop can below st1 = Inr st'"
      by (auto simp: ini_loop.simps [of can below st] split: sum.splits)
    from ini_step_spec [OF Some [unfolded cr] st1(1)] obtain kvs
      where kvs: "put_all (dput can) (i_dict st) kvs = Inr (i_dict st1)"
        "todo st = apfst (append kvs) (todo st1)" by blast
    have "put_all (dput can) (i_dict st1) (fst (todo st1)) = Inr (i_dict st') \<and> snd (todo st1) = i_errs st'"
      using 1(1) [OF Some cr [symmetric] st1] ini_step_pfx [OF 1(3) Some [unfolded cr] st1(1)] by simp
    with kvs show ?thesis by (simp add: put_all_append)
  qed
qed

text \<open>The reading of a whole file.\<close>

definition file_spec :: "string \<Rightarrow> (string \<times> string option) list \<times> int" where
  "file_spec content = ini_spec [] 0 (join_lines [] (phys_lines content))"

lemma iniparser_load_map:
  assumes "iniparser_load can below (Some content) = Inr d"
  shows "dict_ok d" and "dict_map d = map_of (rev (fst (file_spec content)))"
    and "snd (file_spec content) = 0"
proof -
  obtain st where st: "ini_loop can below (ini_init content) = Inr st" "i_errs st = 0" "d = i_dict st"
    using assms by (auto simp: iniparser_load_def split: sum.splits if_splits)
  have t: "todo (ini_init content) = file_spec content" "pfx_ok (ini_init content)"
    by (simp_all add: todo_def ini_init_def file_spec_def pfx_ok_def ASCIILINESZ_def)
  from ini_loop_spec [OF st(1) t(2)] t(1) st
  have P: "put_all (dput can) (dictionary_new 0) (fst (file_spec content)) = Inr d"
    and "snd (file_spec content) = 0" by (simp_all add: ini_init_def)
  with dict.put_all_look [OF dict_new_ok P] dict_new_map
  show "dict_ok d" and "dict_map d = map_of (rev (fst (file_spec content)))"
    and "snd (file_spec content) = 0"
    by (simp_all add: map_add_def fun_eq_iff split: option.splits)
qed

section \<open>Files that fit the buffers load\<close>

definition unlines :: "string list \<Rightarrow> string" where
  "unlines ls = concat (map (\<lambda>l. l @ [newline]) ls)"

text \<open>
  Every physical line, after the part carried over by a continuation, fits the line
  buffer; a section and a key together fit \<^verbatim>\<open>tmp\<close>.
\<close>

fun lines_fit :: "string \<Rightarrow> string list \<Rightarrow> bool" where
  "lines_fit pfx [] = True"
| "lines_fit pfx (l # ls) =
     (newline \<notin> set l \<and> length pfx + length l + 2 \<le> ASCIILINESZ \<and>
      (let line = rstrip (pfx @ l)
       in if line \<noteq> [] \<and> last line = CHR 0x5C then lines_fit (butlast line) ls
          else lines_fit [] ls))"

definition keys_fit :: "(string \<times> string option) list \<Rightarrow> bool" where
  "keys_fit kvs \<longleftrightarrow> (\<forall>kv \<in> set kvs. length (fst kv) \<le> ASCIILINESZ)"

lemma phys_unlines [simp]: "(\<forall>l \<in> set ls. newline \<notin> set l) \<Longrightarrow> phys_lines (unlines ls) = ls"
  by (induction ls) (simp_all add: unlines_def)

lemma lines_fit_newline: "lines_fit pfx ls \<Longrightarrow> \<forall>l \<in> set ls. newline \<notin> set l"
  by (induction pfx ls rule: lines_fit.induct) (auto simp: Let_def split: if_splits)

lemma dictionary_set_room:
  "dict_ok d \<Longrightarrow> \<exists>d'. dictionary_set (\<lambda>_. True) (Some d) (Some k) v = Inr d' \<and> dict_ok d'"
proof -
  assume ok: "dict_ok d"
  have "dictionary_set (\<lambda>_. True) (Some d) (Some k) v \<noteq> Inl DNoMem"
    by (auto simp: dictionary_set_def dict_grow_def mem_double_def dict_insert_def split: option.splits if_splits)
  with dictionary_set_cases [OF ok, of "\<lambda>_. True" k v] show ?thesis by blast
qed

lemma ini_switch_total:
  assumes "dict_ok (i_dict st)" and "keys_fit (fst (ini_spec (i_sec st) (i_errs st) (line # ls)))"
  shows "\<exists>st'. ini_switch (\<lambda>_. True) line st = Inr st' \<and> dict_ok (i_dict st')"
proof -
  obtain sta s k v where L: "iniparser_line line (i_sec st) (i_key st) (i_val st) = (sta, s, k, v)"
    by (metis prod_cases4)
  from iniparser_line_indep [OF L] obtain k2 v2
    where L2: "iniparser_line line (i_sec st) [] [] = (sta, s, k2, v2)"
      "sta = LINE_VALUE \<Longrightarrow> k2 = k \<and> v2 = v" by auto
  have "length (s @ '':'' @ k) \<le> ASCIILINESZ" if "sta = LINE_VALUE"
    using assms(2) L2 that by (auto simp: keys_fit_def apfst_def map_prod_def split: prod.splits)
  with L dictionary_set_room [OF assms(1), of s None]
    dictionary_set_room [OF assms(1), of "s @ '':'' @ k" "Some v"] assms(1)
  show ?thesis by (cases sta) (auto simp: ini_switch_def Let_def)
qed

lemma ini_loop_total:
  assumes "below \<noteq> CHR 0x5C"
  shows "i_rest st = unlines ls \<Longrightarrow> lines_fit (i_pfx st) ls \<Longrightarrow> dict_ok (i_dict st) \<Longrightarrow>
    keys_fit (fst (todo st)) \<Longrightarrow> \<exists>st'. ini_loop (\<lambda>_. True) below st = Inr st'"
proof (induction ls arbitrary: st)
  case Nil
  then show ?case by (simp add: unlines_def ini_loop.simps [of _ _ st] fgets_None_iff)
next
  case (Cons l ls)
  define line where "line = rstrip (i_pfx st @ l)"
  have rest: "i_rest st = l @ newline # unlines ls" using Cons.prems(1) by (simp add: unlines_def)
  have l: "newline \<notin> set l" "length (i_pfx st) + length l + 2 \<le> ASCIILINESZ" using Cons.prems(2) by auto
  have F: "fgets (ASCIILINESZ - length (i_pfx st)) (i_rest st) = Some (l @ [newline], unlines ls)"
    unfolding rest using l by (intro fgets_line) auto
  have raw: "rstrip (i_pfx st @ l @ [newline]) = line"
    by (simp add: line_def flip: append_assoc)
  have nl: "\<forall>l \<in> set ls. newline \<notin> set l" using lines_fit_newline [OF Cons.prems(2)] by simp
  let ?st0 = "st\<lparr> i_rest := unlines ls, i_lineno := i_lineno st + 1 \<rparr>"
  have step: "\<exists>st1. ini_step (\<lambda>_. True) below (l @ [newline]) (unlines ls) st = Inr st1 \<and>
                   dict_ok (i_dict st1) \<and> lines_fit (i_pfx st1) ls"
  proof (cases "line \<noteq> [] \<and> last line = CHR 0x5C")
    case True
    then show ?thesis using raw Cons.prems(2,3) by (simp add: ini_step_def Let_def line_def)
  next
    case False
    have "keys_fit (fst (ini_spec (i_sec ?st0) (i_errs ?st0) (line # join_lines [] ls)))"
      using Cons.prems(4) False l nl by (auto simp: todo_def rest Let_def line_def)
    with Cons.prems(3) obtain st1 where st1: "ini_switch (\<lambda>_. True) line ?st0 = Inr st1" "dict_ok (i_dict st1)"
      using ini_switch_total [of ?st0] by auto
    have "lines_fit [] ls" using Cons.prems(2) False by (simp add: Let_def line_def)
    with st1 ini_switch_frame [OF st1(1)] show ?thesis
      using raw False assms by (auto simp: ini_step_def Let_def)
  qed
  then obtain st1 where st1: "ini_step (\<lambda>_. True) below (l @ [newline]) (unlines ls) st = Inr st1"
    "dict_ok (i_dict st1)" "lines_fit (i_pfx st1) ls" by blast
  from ini_step_spec [OF F st1(1)] obtain kvs where "todo st = apfst (append kvs) (todo st1)" by blast
  then have "keys_fit (fst (todo st1))" using Cons.prems(4) by (auto simp: keys_fit_def)
  with Cons.IH [of st1] st1 ini_step_rest [OF st1(1)] F show ?case
    by (simp add: ini_loop.simps [of _ _ st])
qed

text \<open>The loader on a file that fits, in full: the map, or a syntax error.\<close>

lemma iniparser_load_total:
  assumes "below \<noteq> CHR 0x5C" and "lines_fit [] ls" and "keys_fit (fst (ini_spec [] 0 (join_lines [] ls)))"
  shows "(snd (ini_spec [] 0 (join_lines [] ls)) = 0 \<and>
          (\<exists>d. iniparser_load (\<lambda>_. True) below (Some (unlines ls)) = Inr d \<and> dict_ok d \<and>
               dict_map d = map_of (rev (fst (ini_spec [] 0 (join_lines [] ls)))))) \<or>
         (snd (ini_spec [] 0 (join_lines [] ls)) \<noteq> 0 \<and>
          iniparser_load (\<lambda>_. True) below (Some (unlines ls)) = Inl LoadSyntax)"
proof -
  have fs: "file_spec (unlines ls) = ini_spec [] 0 (join_lines [] ls)"
    using lines_fit_newline [OF assms(2)] by (simp add: file_spec_def)
  have td: "todo (ini_init (unlines ls)) = file_spec (unlines ls)"
    by (simp add: todo_def ini_init_def file_spec_def)
  obtain st where st: "ini_loop (\<lambda>_. True) below (ini_init (unlines ls)) = Inr st"
    using ini_loop_total [OF assms(1), of "ini_init (unlines ls)" ls] assms(2,3) fs td
    by (auto simp: ini_init_def dict_new_ok)
  have "snd (file_spec (unlines ls)) = i_errs st"
    using ini_loop_spec [OF st] td by (simp add: pfx_ok_def ini_init_def ASCIILINESZ_def)
  with st iniparser_load_map [of "\<lambda>_. True" below "unlines ls"] fs
  show ?thesis by (cases "i_errs st = 0") (auto simp: iniparser_load_def)
qed

section \<open>What is written is read back\<close>

text \<open>
  Names and values that survive the line syntax: no blanks at the ends, none of the
  characters the formats stop at, lower case for sections and keys.
\<close>

definition trimmed :: "string \<Rightarrow> bool" where
  "trimmed s \<longleftrightarrow> s \<noteq> [] \<and> \<not> isspace (hd s) \<and> \<not> isspace (last s) \<and> newline \<notin> set s"

definition plain_name :: "string \<Rightarrow> bool" where
  "plain_name s \<longleftrightarrow> trimmed s \<and> map tolower s = s \<and> length s \<le> 400"

definition plain_section :: "string \<Rightarrow> bool" where
  "plain_section s \<longleftrightarrow> plain_name s \<and> CHR '']'' \<notin> set s"

definition plain_key :: "string \<Rightarrow> bool" where
  "plain_key k \<longleftrightarrow> plain_name k \<and> CHR ''='' \<notin> set k \<and> hd k \<noteq> CHR ''#'' \<and> hd k \<noteq> CHR ''[''"

definition plain_value :: "string \<Rightarrow> bool" where
  "plain_value v \<longleftrightarrow> trimmed v \<and> CHR '';'' \<notin> set v \<and> CHR ''#'' \<notin> set v \<and>
     hd v \<noteq> CHR 0x22 \<and> hd v \<noteq> CHR 0x27 \<and> last v \<noteq> CHR 0x5C \<and> length v \<le> 600"

definition render_entry :: "string \<times> string \<Rightarrow> string" where
  "render_entry kv = fst kv @ '' = '' @ snd kv"

definition render_section :: "string \<times> (string \<times> string) list \<Rightarrow> string list" where
  "render_section sec = (''['' @ fst sec @ '']'') # map render_entry (snd sec)"

definition render_ini :: "(string \<times> (string \<times> string) list) list \<Rightarrow> string list" where
  "render_ini secs = concat (map render_section secs)"

lemma strstrip_trimmed: "trimmed s \<Longrightarrow> strstrip s = s"
  by (cases s) (simp_all add: strstrip_def trimmed_def rstrip_id)

lemma strlwc_plain: "map tolower s = s \<Longrightarrow> length s \<le> ASCIILINESZ \<Longrightarrow> strlwc s = s"
  by (simp add: strlwc_def)

lemma isspace_blank [simp]: "isspace CHR '' ''"
  by (simp add: char_defs)

lemma not_isspace_marks [simp]: "\<not> isspace CHR ''=''" "\<not> isspace CHR ''[''" "\<not> isspace CHR '']''"
  by (simp_all add: char_defs)

lemma strstrip_blank_end: "trimmed s \<Longrightarrow> strstrip (s @ '' '') = s"
proof -
  assume t: "trimmed s"
  then have "dropWhile isspace (s @ '' '') = s @ '' ''" by (cases s) (auto simp: trimmed_def)
  with t show ?thesis by (simp add: strstrip_def trimmed_def rstrip_id)
qed

lemma takeWhile_stop: "\<forall>c \<in> set a. P c \<Longrightarrow> \<not> P x \<Longrightarrow> takeWhile P (a @ x # b) = a"
  by (induction a) auto

lemma scan_key_part:
  assumes "CHR ''='' \<notin> set k" and "v \<noteq> []" and "\<not> isspace (hd v)"
  shows "sscanf (SNotIn ''='' # SWs # SLit CHR ''='' # SWs # f) (k @ '' = '' @ v) =
         FStr (k @ '' '') # sscanf f v"
proof -
  have tw: "takeWhile (\<lambda>c. c \<notin> set ''='') (k @ '' = '' @ v) = k @ '' ''"
    using takeWhile_stop [of "k @ '' ''" "\<lambda>c. c \<notin> set ''=''" "CHR ''=''" "'' '' @ v"] assms(1)
    by fastforce
  have "dropWhile isspace v = v" using assms(2,3) by (cases v) auto
  then show ?thesis unfolding sscanf.simps(4) Let_def tw by simp
qed

lemma line_value_roundtrip:
  assumes k: "plain_key k" and v: "plain_value v"
  shows "iniparser_line (render_entry (k, v)) sec k0 v0 = (LINE_VALUE, sec, k, v)"
proof -
  let ?l = "k @ '' = '' @ v"
  have K: "trimmed k" "CHR ''='' \<notin> set k" "hd k \<noteq> CHR ''#''" "hd k \<noteq> CHR ''[''" "strlwc k = k"
    using k by (auto simp: plain_key_def plain_name_def strlwc_plain ASCIILINESZ_def)
  have V: "trimmed v" "CHR '';'' \<notin> set v" "CHR ''#'' \<notin> set v" "hd v \<noteq> CHR 0x22" "hd v \<noteq> CHR 0x27"
    using v by (auto simp: plain_value_def)
  have ne: "k \<noteq> []" "v \<noteq> []" "\<not> isspace (hd v)" using K V by (auto simp: trimmed_def)
  have "trimmed ?l" using K V by (auto simp: trimmed_def newline_def)
  then have st: "strstrip ?l = ?l" by (rule strstrip_trimmed)
  obtain c v' where cv: "v = c # v'" using ne by (cases v) auto
  note P = scan_key_part [OF K(2) ne(2,3)]
  have dq: "sscanf fmt_dquote ?l = [FStr (k @ '' '')]"
    unfolding fmt_dquote_def P using V(4) by (simp add: cv)
  have sq: "sscanf fmt_squote ?l = [FStr (k @ '' '')]"
    unfolding fmt_squote_def P using V(5) by (simp add: cv)
  have tv: "takeWhile (\<lambda>c. c \<notin> set '';#'') v = v" using V(2,3) by (auto simp: takeWhile_eq_all_conv)
  then have "sscanf [SNotIn '';#''] v = [FStr v]"
    unfolding sscanf.simps(4) Let_def tv using ne by simp
  then have br: "sscanf fmt_bare ?l = [FStr (k @ '' ''), FStr v]"
    unfolding fmt_bare_def P by simp
  have tf: "try_formats [fmt_dquote, fmt_squote, fmt_bare] ?l (k0, v0) = (True, k @ '' '', v)"
    unfolding try_formats.simps Let_def dq sq br by simp
  have nq: "v \<noteq> dquote2" "v \<noteq> squote2" using V by (auto simp: dquote2_def squote2_def)
  have hd: "hd ?l = hd k" using ne by simp
  have sk: "strstrip (k @ '' '') = k" using K(1) by (rule strstrip_blank_end)
  show ?thesis
    unfolding iniparser_line_def render_entry_def fst_conv snd_conv Let_def st tf
    using K nq ne by (simp add: strstrip_trimmed [OF V(1)] sk)
qed

lemma line_section_roundtrip:
  assumes s: "plain_section s"
  shows "iniparser_line (''['' @ s @ '']'') sec k0 v0 = (LINE_SECTION, s, k0, v0)"
proof -
  let ?l = "''['' @ s @ '']''"
  have S: "trimmed s" "CHR '']'' \<notin> set s" "strlwc s = s"
    using s by (auto simp: plain_section_def plain_name_def strlwc_plain ASCIILINESZ_def)
  have "trimmed ?l" using S by (auto simp: trimmed_def newline_def)
  then have st: "strstrip ?l = ?l" by (rule strstrip_trimmed)
  have "takeWhile (\<lambda>c. c \<notin> set '']'') (s @ '']'') = s"
    using takeWhile_stop [of s "\<lambda>c. c \<notin> set '']''" "CHR '']''" "[]"] S(2) by fastforce
  then have "sscanf fmt_section ?l = [FStr s]"
    using S(1) by (simp add: fmt_section_def trimmed_def)
  then show ?thesis
    unfolding iniparser_line_def Let_def st by (simp add: strstrip_trimmed [OF S(1)] S(3))
qed

text \<open>Lines that end in neither a blank nor a backslash are logical lines.\<close>

lemma join_lines_id:
  "\<forall>l \<in> set ls. l \<noteq> [] \<and> \<not> isspace (last l) \<and> last l \<noteq> CHR 0x5C \<Longrightarrow> join_lines [] ls = ls"
  by (induction ls) (auto simp: Let_def rstrip_id)

lemma lines_fit_id:
  "\<forall>l \<in> set ls. l \<noteq> [] \<and> \<not> isspace (last l) \<and> last l \<noteq> CHR 0x5C \<and> newline \<notin> set l \<and>
              length l + 2 \<le> ASCIILINESZ \<Longrightarrow> lines_fit [] ls"
  by (induction ls) (auto simp: Let_def rstrip_id)

definition plain_ini :: "(string \<times> (string \<times> string) list) list \<Rightarrow> bool" where
  "plain_ini secs \<longleftrightarrow>
     (\<forall>sec \<in> set secs. plain_section (fst sec) \<and>
        (\<forall>kv \<in> set (snd sec). plain_key (fst kv) \<and> plain_value (snd kv)))"

text \<open>The entries a rendered file stands for.\<close>

definition section_entries :: "string \<times> (string \<times> string) list \<Rightarrow> (string \<times> string option) list" where
  "section_entries sec =
     (fst sec, None) # map (\<lambda>kv. (fst sec @ '':'' @ fst kv, Some (snd kv))) (snd sec)"

lemma ini_spec_entries:
  "\<forall>kv \<in> set kvs. plain_key (fst kv) \<and> plain_value (snd kv) \<Longrightarrow> errs = 0 \<Longrightarrow>
   ini_spec s errs (map render_entry kvs @ ls) =
     apfst (append (map (\<lambda>kv. (s @ '':'' @ fst kv, Some (snd kv))) kvs)) (ini_spec s 0 ls)"
proof (induction kvs arbitrary: errs)
  case Nil
  then show ?case by (simp add: apfst_def map_prod_def split: prod.splits)
next
  case (Cons kv kvs)
  then have "iniparser_line (render_entry kv) s [] [] = (LINE_VALUE, s, fst kv, snd kv)"
    using line_value_roundtrip [of "fst kv" "snd kv"] by simp
  with Cons show ?case by (simp add: apfst_def map_prod_def split: prod.splits)
qed

lemma ini_spec_render:
  "plain_ini secs \<Longrightarrow> ini_spec s 0 (render_ini secs) = (concat (map section_entries secs), 0)"
proof (induction secs arbitrary: s)
  case Nil
  then show ?case by (simp add: render_ini_def)
next
  case (Cons sec secs)
  then have S: "plain_section (fst sec)" and E: "\<forall>kv \<in> set (snd sec). plain_key (fst kv) \<and> plain_value (snd kv)"
    and IH: "ini_spec s 0 (render_ini secs) = (concat (map section_entries secs), 0)" for s
    by (auto simp: plain_ini_def)
  have r: "render_ini (sec # secs) = (''['' @ fst sec @ '']'') # map render_entry (snd sec) @ render_ini secs"
    by (simp add: render_ini_def render_section_def)
  show ?case
    unfolding r ini_spec.simps line_section_roundtrip [OF S] ini_spec_entries [OF E refl]
    by (simp add: IH section_entries_def [of sec] comp_def)
qed

lemma render_ini_lines:
  assumes "plain_ini secs" and "l \<in> set (render_ini secs)"
  shows "l \<noteq> [] \<and> \<not> isspace (last l) \<and> last l \<noteq> CHR 0x5C \<and> newline \<notin> set l \<and> length l + 2 \<le> ASCIILINESZ"
proof -
  from assms(2) obtain sec where sec: "sec \<in> set secs" "l \<in> set (render_section sec)"
    by (auto simp: render_ini_def)
  have S: "plain_section (fst sec)" using assms(1) sec(1) by (auto simp: plain_ini_def)
  from sec(2) consider "l = ''['' @ fst sec @ '']''" | kv where "kv \<in> set (snd sec)" "l = render_entry kv"
    by (auto simp: render_section_def)
  then show ?thesis
  proof cases
    case 1
    with S show ?thesis
      by (auto simp: plain_section_def plain_name_def trimmed_def newline_def ASCIILINESZ_def)
  next
    case 2
    then have "plain_key (fst kv)" "plain_value (snd kv)" using assms(1) sec(1) by (auto simp: plain_ini_def)
    with 2(2) show ?thesis
      by (auto simp: render_entry_def plain_key_def plain_value_def plain_name_def trimmed_def newline_def ASCIILINESZ_def)
  qed
qed

lemma render_keys_fit:
  assumes "plain_ini secs"
  shows "keys_fit (concat (map section_entries secs))"
proof -
  have "length (fst e) \<le> ASCIILINESZ" if "sec \<in> set secs" "e \<in> set (section_entries sec)" for sec e
  proof -
    have "plain_section (fst sec)" "\<forall>kv \<in> set (snd sec). plain_key (fst kv)"
      using assms that(1) by (auto simp: plain_ini_def)
    then show ?thesis using that(2)
      by (auto simp: section_entries_def plain_section_def plain_key_def plain_name_def ASCIILINESZ_def)
  qed
  then show ?thesis by (auto simp: keys_fit_def)
qed

lemma iniparser_roundtrip:
  assumes "plain_ini secs" and "distinct (map fst (concat (map section_entries secs)))"
    and "below \<noteq> CHR 0x5C"
  shows "\<exists>d. iniparser_load (\<lambda>_. True) below (Some (unlines (render_ini secs))) = Inr d \<and> dict_ok d \<and>
             dict_map d = map_of (concat (map section_entries secs))"
proof -
  have j: "join_lines [] (render_ini secs) = render_ini secs"
    using render_ini_lines [OF assms(1)] by (intro join_lines_id) auto
  have f: "lines_fit [] (render_ini secs)"
    using render_ini_lines [OF assms(1)] by (intro lines_fit_id) auto
  have "map_of (rev (concat (map section_entries secs))) = map_of (concat (map section_entries secs))"
    using assms(2) by (rule map_of_rev_distinct)
  with iniparser_load_total [OF assms(3) f] ini_spec_render [OF assms(1), of "[]"] render_keys_fit [OF assms(1)]
  show ?thesis by (simp add: j)
qed

section \<open>Two ways to misread a file\<close>

text \<open>What a line is does not depend on the section it stands in.\<close>

lemma line_status_indep: "fst (iniparser_line l s k v) = fst (iniparser_line l s' k v)"
  by (simp add: iniparser_line_def Let_def split: prod.splits bool.splits)

text \<open>The last line, when it is a section or a value, clears the error counter.\<close>

lemma ini_spec_clears:
  "fst (iniparser_line l [] [] []) \<in> {LINE_SECTION, LINE_VALUE} \<Longrightarrow> snd (ini_spec s errs (ls @ [l])) = 0"
proof (induction ls arbitrary: s errs)
  case Nil
  then have "fst (iniparser_line l s [] []) \<in> {LINE_SECTION, LINE_VALUE}"
    using line_status_indep [of l s "[]" "[]" "[]"] by simp
  then show ?case by (auto split: prod.splits)
next
  case (Cons a ls)
  then show ?case by (auto split: prod.splits line_status.splits)
qed

text \<open>A file whose last line has no newline is never accepted.\<close>

lemma ini_loop_newline:
  "ini_loop can below st = Inr st' \<Longrightarrow> pfx_ok st \<Longrightarrow> i_rest st \<noteq> [] \<Longrightarrow> last (i_rest st) = newline"
proof (induction can below st rule: ini_loop.induct)
  case (1 can below st)
  have "\<not> fgets (ASCIILINESZ - length (i_pfx st)) (i_rest st) = None"
    using 1(3,4) by (auto simp: fgets_None_iff pfx_ok_def)
  then obtain chunk rest where F: "fgets (ASCIILINESZ - length (i_pfx st)) (i_rest st) = Some (chunk, rest)"
    by auto
  with 1(2) obtain st1 where st1: "ini_step can below chunk rest st = Inr st1"
    "ini_loop can below st1 = Inr st'"
    by (auto simp: ini_loop.simps [of can below st] split: sum.splits)
  note f = fgets_shrinks [OF F]
  have c: "last chunk = newline" using st1(1) f by (auto simp: ini_step_def Let_def split: if_splits)
  have r: "i_rest st1 = rest" by (rule ini_step_rest [OF st1(1)])
  show ?case
  proof (cases "rest = []")
    case True
    with f c show ?thesis by simp
  next
    case False
    have "last rest = newline"
      using 1(1) [OF F refl st1] ini_step_pfx [OF 1(3) F st1(1)] False r by simp
    with f False show ?thesis by (simp add: last_append)
  qed
qed

section \<open>Properties\<close>

text \<open>
  C29. A file that loads gives the dictionary of its abstract reading: physical lines joined at
  final backslashes, sections, and section-qualified keys, the last value of a key winning.
\<close>

theorem iniparser_load_refines:
  assumes "iniparser_load can below (Some content) = Inr d"
  shows "dict_ok d \<and> dict_map d = map_of (rev (fst (file_spec content)))"
  using iniparser_load_map [OF assms] by blast

theorem iniparser_load_refines_witness:
  "case iniparser_load (\<lambda>_. True) CHR 0x00 (Some (''[A]'' @ [newline] @ ''K=1'' @ [newline])) of
     Inr d \<Rightarrow> dict_map d = map_of (rev (fst (file_spec (''[A]'' @ [newline] @ ''K=1'' @ [newline]))))
   | Inl _ \<Rightarrow> False"
proof -
  let ?c = "''[A]'' @ [newline] @ ''K=1'' @ [newline]"
  have "case iniparser_load (\<lambda>_. True) CHR 0x00 (Some ?c) of Inr d \<Rightarrow> True | Inl _ \<Rightarrow> False" by code_simp
  then obtain d where "iniparser_load (\<lambda>_. True) CHR 0x00 (Some ?c) = Inr d" by (auto split: sum.splits)
  with iniparser_load_refines [OF this] show ?thesis by (simp only: sum.case)
qed

text \<open>
  C30. With memory, a file whose lines fit the line buffer and whose keys fit \<^verbatim>\<open>tmp\<close>
  is read to its end: it loads as its abstract reading when no error is pending at the end,
  and is refused as a syntax error otherwise. No other outcome is possible.
\<close>

theorem iniparser_load_complete:
  assumes "below \<noteq> CHR 0x5C" and "lines_fit [] ls" and "keys_fit (fst (ini_spec [] 0 (join_lines [] ls)))"
  shows "(case iniparser_load (\<lambda>_. True) below (Some (unlines ls)) of
            Inr d \<Rightarrow> snd (ini_spec [] 0 (join_lines [] ls)) = 0 \<and>
                     dict_map d = map_of (rev (fst (ini_spec [] 0 (join_lines [] ls))))
          | Inl e \<Rightarrow> e = LoadSyntax \<and> snd (ini_spec [] 0 (join_lines [] ls)) \<noteq> 0)"
  using iniparser_load_total [OF assms] by (auto split: sum.splits)

theorem iniparser_load_complete_witness:
  "iniparser_load (\<lambda>_. True) CHR 0x00 (Some (unlines [''[a]'', ''what''])) = Inl LoadSyntax"
proof -
  have "lines_fit [] [''[a]'', ''what'']" by code_simp
  moreover have "keys_fit (fst (ini_spec [] 0 (join_lines [] [''[a]'', ''what''])))" by code_simp
  moreover have "snd (ini_spec [] 0 (join_lines [] [''[a]'', ''what''])) = 1" by code_simp
  ultimately show ?thesis
    using iniparser_load_complete [of "CHR 0x00" "[''[a]'', ''what'']"] by (auto split: sum.splits)
qed

text \<open>
  C31. What is written is read back: a file rendered from sections of keys and values, none of
  them using the characters the line formats stop at, loads, and the value of every key is
  the one written.
\<close>

theorem iniparser_write_read:
  assumes "plain_ini secs" and "distinct (map fst (concat (map section_entries secs)))"
    and "below \<noteq> CHR 0x5C" and "(s, kvs) \<in> set secs" and "(k, v) \<in> set kvs"
  shows "\<exists>d. iniparser_load (\<lambda>_. True) below (Some (unlines (render_ini secs))) = Inr d \<and>
             dictionary_get d (s @ '':'' @ k) SInvalid = SStr v"
proof -
  from iniparser_roundtrip [OF assms(1-3)] obtain d where d:
    "iniparser_load (\<lambda>_. True) below (Some (unlines (render_ini secs))) = Inr d" "dict_ok d"
    "dict_map d = map_of (concat (map section_entries secs))" by blast
  have "(s @ '':'' @ k, Some v) \<in> set (concat (map section_entries secs))"
    using assms(4,5) by (force simp: section_entries_def)
  with assms(2) have "dict_map d (s @ '':'' @ k) = Some (Some v)"
    unfolding d(3) by (simp add: map_of_is_SomeI)
  with d(1,2) show ?thesis by (auto simp: dict.fetch_look sptr_of_def)
qed

theorem iniparser_write_read_witness:
  "\<exists>d. iniparser_load (\<lambda>_. True) CHR 0x00 (Some (unlines (render_ini [(''ch1'', [(''source'', ''udp://1'')])]))) = Inr d \<and>
       dictionary_get d ''ch1:source'' SInvalid = SStr ''udp://1''"
proof -
  have "plain_ini [(''ch1'', [(''source'', ''udp://1'')])]" by code_simp
  from iniparser_write_read [OF this, of "CHR 0x00" "''ch1''" "[(''source'', ''udp://1'')]" "''source''" "''udp://1''"]
  show ?thesis by (simp add: section_entries_def)
qed

text \<open>
  A syntax error is forgotten: when the last logical line is a section or a value, the file
  loads whatever the lines before it are, because a successful update overwrites the error
  counter.
\<close>

theorem iniparser_error_forgotten:
  assumes "below \<noteq> CHR 0x5C" and "lines_fit [] ls" and "keys_fit (fst (ini_spec [] 0 (join_lines [] ls)))"
    and "join_lines [] ls = before @ [l]" and "fst (iniparser_line l [] [] []) \<in> {LINE_SECTION, LINE_VALUE}"
  shows "\<exists>d. iniparser_load (\<lambda>_. True) below (Some (unlines ls)) = Inr d"
  using iniparser_load_total [OF assms(1-3)] ini_spec_clears [OF assms(5), of "[]" 0 before] assms(4) by auto

theorem iniparser_error_forgotten_witness:
  "fst (iniparser_line ''garbage'' [] [] []) = LINE_ERROR \<and>
   (\<exists>d. iniparser_load (\<lambda>_. True) CHR 0x00 (Some (unlines [''garbage'', ''[a]''])) = Inr d)"
proof -
  have a: "lines_fit [] [''garbage'', ''[a]'']" by code_simp
  have b: "keys_fit (fst (ini_spec [] 0 (join_lines [] [''garbage'', ''[a]''])))" by code_simp
  have c: "join_lines [] [''garbage'', ''[a]''] = [''garbage''] @ [''[a]'']" by code_simp
  have d: "fst (iniparser_line ''[a]'' [] [] []) \<in> {LINE_SECTION, LINE_VALUE}" by code_simp
  have "\<exists>d. iniparser_load (\<lambda>_. True) CHR 0x00 (Some (unlines [''garbage'', ''[a]''])) = Inr d"
    by (rule iniparser_error_forgotten [OF _ a b c d]) simp
  moreover have "fst (iniparser_line ''garbage'' [] [] []) = LINE_ERROR" by code_simp
  ultimately show ?thesis by blast
qed

text \<open>A file that loads is empty or ends with a newline: an unterminated last line is refused as too long.\<close>

theorem iniparser_needs_newline:
  assumes "iniparser_load can below (Some content) = Inr d"
  shows "content = [] \<or> last content = newline"
proof -
  obtain st where "ini_loop can below (ini_init content) = Inr st"
    using assms by (auto simp: iniparser_load_def split: sum.splits)
  from ini_loop_newline [OF this] show ?thesis by (auto simp: ini_init_def pfx_ok_def ASCIILINESZ_def)
qed

theorem iniparser_needs_newline_witness:
  "(\<forall>d. iniparser_load (\<lambda>_. True) CHR 0x00 (Some ''[a]'') \<noteq> Inr d) \<and>
   (\<exists>d. iniparser_load (\<lambda>_. True) CHR 0x00 (Some (''[a]'' @ [newline])) = Inr d \<and>
        last (''[a]'' @ [newline]) = newline)"
proof -
  have "case iniparser_load (\<lambda>_. True) CHR 0x00 (Some (''[a]'' @ [newline])) of Inr d \<Rightarrow> True | Inl _ \<Rightarrow> False"
    by code_simp
  then obtain d where d: "iniparser_load (\<lambda>_. True) CHR 0x00 (Some (''[a]'' @ [newline])) = Inr d"
    by (auto split: sum.splits)
  from iniparser_needs_newline [OF d] d
    iniparser_needs_newline [of "\<lambda>_. True" "CHR 0x00" "''[a]''"]
  show ?thesis by (auto simp: newline_def)
qed

end
