(* ===== verification/Tspacket.thy ===== *)
theory Tspacket
  imports Prelude
begin

text \<open>
  The transport stream library (libtsfuncs) is not part of the repository. The packet
  accessors the sources call are a parameter of the model: a record of functions, passed
  to every definition that uses them. \<open>ts_ops_ok\<close> states what MPEG-2 Systems
  (ISO/IEC 13818-1) documents of the fields they access; properties that rely on it have
  it as a hypothesis. \<open>iso_ts\<close> is a concrete instance on the header layout of the
  standard, which shows that the hypothesis can hold.
\<close>

section \<open>Constants\<close>

definition TS_PACKET_SIZE :: nat where
  "TS_PACKET_SIZE = 188"

definition FRAME_PACKET_SIZE :: nat where
  "FRAME_PACKET_SIZE = 1316"

definition RTP_HEADER_SIZE :: nat where
  "RTP_HEADER_SIZE = 12"

lemmas ts_sizes = TS_PACKET_SIZE_def FRAME_PACKET_SIZE_def RTP_HEADER_SIZE_def

section \<open>The packet accessors\<close>

record ts_ops =
  ts_get_pid :: "bytes \<Rightarrow> u16"
  ts_set_pid :: "bytes \<Rightarrow> u16 \<Rightarrow> bytes"
  ts_set_cont :: "bytes \<Rightarrow> u8 \<Rightarrow> bytes"
  ts_has_pcr :: "bytes \<Rightarrow> bool"
  ts_get_pcr :: "bytes \<Rightarrow> u64"
  ts_set_pcr :: "bytes \<Rightarrow> u64 \<Rightarrow> bytes"

text \<open>The continuity counter of a packet: the low four bits of its fourth byte.\<close>

definition cont_of :: "bytes \<Rightarrow> nat" where
  "cont_of p = unat (p ! 3) mod 16"

definition is_packet :: "bytes \<Rightarrow> bool" where
  "is_packet p \<longleftrightarrow> length p = TS_PACKET_SIZE"

text \<open>
  Documented behaviour: a PID has 13 bits; each setter keeps the packet's size, stores the
  value its getter reads back and leaves the other fields alone. A PCR is the 33-bit base
  times 300 plus the extension, and exists only in packets that carry one.
\<close>

definition PCR_LIMIT :: nat where
  "PCR_LIMIT = 2 ^ 33 * 300"

definition ts_ops_ok :: "ts_ops \<Rightarrow> bool" where
  "ts_ops_ok T \<longleftrightarrow>
     (\<forall>p. is_packet p \<longrightarrow>
        unat (ts_get_pid T p) < 8192 \<and>
        (\<forall>x. is_packet (ts_set_pid T p x)) \<and>
        (\<forall>c. is_packet (ts_set_cont T p c)) \<and>
        (\<forall>x. is_packet (ts_set_pcr T p x)) \<and>
        (\<forall>x. unat x < 8192 \<longrightarrow> ts_get_pid T (ts_set_pid T p x) = x) \<and>
        (\<forall>x. cont_of (ts_set_pid T p x) = cont_of p) \<and>
        (\<forall>c. ts_get_pid T (ts_set_cont T p c) = ts_get_pid T p) \<and>
        (\<forall>c. cont_of (ts_set_cont T p c) = unat c mod 16) \<and>
        (\<forall>x. ts_get_pid T (ts_set_pcr T p x) = ts_get_pid T p) \<and>
        (\<forall>x. ts_has_pcr T p \<longrightarrow> ts_has_pcr T (ts_set_pcr T p x)) \<and>
        (\<forall>x. ts_has_pcr T p \<longrightarrow> unat x < PCR_LIMIT \<longrightarrow> ts_get_pcr T (ts_set_pcr T p x) = x))"

lemma ts_ops_okD:
  assumes "ts_ops_ok T" and "is_packet p"
  shows "unat (ts_get_pid T p) < 8192"
    and "is_packet (ts_set_pid T p x)" "is_packet (ts_set_cont T p c)" "is_packet (ts_set_pcr T p y)"
    and "unat x < 8192 \<Longrightarrow> ts_get_pid T (ts_set_pid T p x) = x"
    and "cont_of (ts_set_pid T p x) = cont_of p"
    and "ts_get_pid T (ts_set_cont T p c) = ts_get_pid T p"
    and "cont_of (ts_set_cont T p c) = unat c mod 16"
    and "ts_get_pid T (ts_set_pcr T p y) = ts_get_pid T p"
    and "ts_has_pcr T p \<Longrightarrow> ts_has_pcr T (ts_set_pcr T p y)"
    and "ts_has_pcr T p \<Longrightarrow> unat y < PCR_LIMIT \<Longrightarrow> ts_get_pcr T (ts_set_pcr T p y) = y"
  using assms unfolding ts_ops_ok_def by blast+

section \<open>An instance on the standard's layout\<close>

text \<open>
  PID: the low five bits of byte 1 and byte 2. A PCR is present when the adaptation field
  is (bit 5 of byte 3), is not empty and has its PCR flag set; it is stored in bytes 6 to
  11 as 33 bits of base, six reserved bits and nine bits of extension. Here the base and
  the extension are kept as the quotient and remainder of the PCR by 300.
\<close>

definition iso_get_pid :: "bytes \<Rightarrow> u16" where
  "iso_get_pid p = word_of_nat ((unat (p ! 1) mod 32) * 256 + unat (p ! 2))"

definition iso_set_pid :: "bytes \<Rightarrow> u16 \<Rightarrow> bytes" where
  "iso_set_pid p x =
     p[1 := word_of_nat ((unat (p ! 1) div 32) * 32 + (unat x div 256) mod 32),
       2 := word_of_nat (unat x mod 256)]"

definition iso_set_cont :: "bytes \<Rightarrow> u8 \<Rightarrow> bytes" where
  "iso_set_cont p c = p[3 := word_of_nat ((unat (p ! 3) div 16) * 16 + unat c mod 16)]"

definition iso_has_pcr :: "bytes \<Rightarrow> bool" where
  "iso_has_pcr p \<longleftrightarrow>
     (unat (p ! 3) div 32) mod 2 = 1 \<and> unat (p ! 4) > 0 \<and> (unat (p ! 5) div 16) mod 2 = 1"

definition iso_get_pcr :: "bytes \<Rightarrow> u64" where
  "iso_get_pcr p =
     (let base = unat (p ! 6) * 2 ^ 25 + unat (p ! 7) * 2 ^ 17 + unat (p ! 8) * 2 ^ 9 +
                 unat (p ! 9) * 2 + unat (p ! 10) div 128;
          ext = (unat (p ! 10) mod 2) * 256 + unat (p ! 11)
      in word_of_nat (base * 300 + ext))"

definition iso_set_pcr :: "bytes \<Rightarrow> u64 \<Rightarrow> bytes" where
  "iso_set_pcr p x =
     (let base = (unat x div 300) mod 2 ^ 33; ext = unat x mod 300
      in p[6 := word_of_nat (base div 2 ^ 25), 7 := word_of_nat ((base div 2 ^ 17) mod 256),
           8 := word_of_nat ((base div 2 ^ 9) mod 256), 9 := word_of_nat ((base div 2) mod 256),
           10 := word_of_nat ((base mod 2) * 128 + 126 + ext div 256),
           11 := word_of_nat (ext mod 256)])"

definition iso_ts :: ts_ops where
  "iso_ts = \<lparr> ts_get_pid = iso_get_pid, ts_set_pid = iso_set_pid, ts_set_cont = iso_set_cont,
             ts_has_pcr = iso_has_pcr, ts_get_pcr = iso_get_pcr, ts_set_pcr = iso_set_pcr \<rparr>"

lemma unat_u8_of_nat: "unat (word_of_nat n :: u8) = n mod 256"
  by (simp add: unat_of_nat)

lemma unat_u16_of_nat: "unat (word_of_nat n :: u16) = n mod 65536"
  by (simp add: unat_of_nat)

lemma unat_u8_less: "unat (b :: u8) < 256"
  using unsigned_less [of b] by simp

lemma unat_u16_less: "unat (b :: u16) < 65536"
  using unsigned_less [of b] by simp

text \<open>Replacing the low bits of a byte gives a byte.\<close>

lemma byte_patch:
  fixes a b k m :: nat
  assumes "a < k * m" and "0 < m"
  shows "a div m * m + b mod m < k * m"
proof -
  have "a div m < k" using assms by (simp add: less_mult_imp_div_less)
  then have "a div m * m + m \<le> k * m"
    by (metis add.commute mult_Suc mult_le_mono1 Suc_leI)
  then show ?thesis using mod_less_divisor [OF assms(2), of b] by linarith
qed

lemma iso_pid_range: "unat (iso_get_pid p) < 8192"
proof -
  have "(unat (p ! 1) mod 32) * 256 + unat (p ! 2) < 8192"
    using unat_u8_less [of "p ! 2"] mod_less_divisor [of 32 "unat (p ! 1)"] by linarith
  then show ?thesis unfolding iso_get_pid_def unat_u16_of_nat by linarith
qed

lemma iso_set_get_pid:
  assumes "is_packet p" and "unat x < 8192"
  shows "iso_get_pid (iso_set_pid p x) = x"
proof -
  have len: "length p = 188" using assms(1) by (simp add: is_packet_def ts_sizes)
  have a: "(unat (p ! 1) div 32) * 32 + (unat x div 256) mod 32 < 256"
    using byte_patch [of "unat (p ! 1)" 8 32] unat_u8_less [of "p ! 1"] by simp
  have b: "((unat (p ! 1) div 32) * 32 + (unat x div 256) mod 32) mod 32 = unat x div 256"
    using assms(2) by simp
  have v: "((unat (p ! 1) div 32 * 32 + unat x div 256 mod 32) mod 256 mod 32) * 256 + unat x mod 256 mod 256 = unat x"
    unfolding mod_less [OF a] b by simp
  have "iso_get_pid (iso_set_pid p x) =
    word_of_nat (((unat (p ! 1) div 32 * 32 + unat x div 256 mod 32) mod 256 mod 32) * 256 + unat x mod 256 mod 256)"
    using len by (simp add: iso_get_pid_def iso_set_pid_def unat_u8_of_nat del: of_nat_add of_nat_mult)
  then show ?thesis unfolding v by simp
qed

lemma iso_cont_simps:
  assumes "is_packet p"
  shows "cont_of (iso_set_cont p c) = unat c mod 16"
    and "cont_of (iso_set_pid p x) = cont_of p"
    and "iso_get_pid (iso_set_cont p c) = iso_get_pid p"
    and "iso_get_pid (iso_set_pcr p y) = iso_get_pid p"
proof -
  have len: "length p = 188" using assms(1) by (simp add: is_packet_def ts_sizes)
  have "(unat (p ! 3) div 16) * 16 + unat c mod 16 < 256"
    using byte_patch [of "unat (p ! 3)" 16 16] unat_u8_less [of "p ! 3"] by simp
  then show "cont_of (iso_set_cont p c) = unat c mod 16"
    by (simp add: cont_of_def iso_set_cont_def len unat_u8_of_nat del: of_nat_add of_nat_mult)
  show "cont_of (iso_set_pid p x) = cont_of p"
    and "iso_get_pid (iso_set_cont p c) = iso_get_pid p"
    and "iso_get_pid (iso_set_pcr p y) = iso_get_pid p"
    by (simp_all add: cont_of_def iso_set_pid_def iso_set_cont_def iso_set_pcr_def iso_get_pid_def Let_def)
qed

lemma pcr_digits:
  fixes b :: nat
  assumes "b < 2 ^ 33"
  shows "b div 2 ^ 25 * 2 ^ 25 + (b div 2 ^ 17) mod 256 * 2 ^ 17 + (b div 2 ^ 9) mod 256 * 2 ^ 9 +
         (b div 2) mod 256 * 2 + b mod 2 = b"
proof -
  have s: "b = (b div 2) * 2 + b mod 2" "b div 2 = (b div 512) * 256 + (b div 2) mod 256"
    "b div 512 = (b div 131072) * 256 + (b div 512) mod 256"
    "b div 131072 = (b div 33554432) * 256 + (b div 131072) mod 256"
    using div_mult_mod_eq [of "b div 2" 256] div_mult_mod_eq [of "b div 512" 256]
      div_mult_mod_eq [of "b div 131072" 256] by (simp_all add: div_mult2_eq [symmetric])
  show ?thesis by (simp, use s in linarith)
qed

lemma iso_set_get_pcr:
  assumes "is_packet p" and "unat x < PCR_LIMIT"
  shows "iso_get_pcr (iso_set_pcr p x) = x"
proof -
  have len: "length p = 188" using assms(1) by (simp add: is_packet_def ts_sizes)
  define base where "base = unat x div 300"
  define ext where "ext = unat x mod 300"
  have base: "base < 2 ^ 33" "base mod 2 ^ 33 = base"
    using assms(2) by (auto simp: base_def PCR_LIMIT_def)
  have ext: "ext < 300" by (simp add: ext_def)
  have e: "ext div 256 < 2" using ext by simp
  have d10: "((base mod 2) * 128 + 126 + ext div 256) mod 256 = (base mod 2) * 128 + 126 + ext div 256"
    using e mod_less_divisor [of 2 base] by (intro mod_less) linarith
  have d6: "base div 2 ^ 25 mod 256 = base div 2 ^ 25" using base by simp
  have q: "((base mod 2) * 128 + 126 + ext div 256) div 128 = base mod 2"
    using e by auto
  have r: "((base mod 2) * 128 + 126 + ext div 256) mod 2 = ext div 256"
  proof -
    have "((base mod 2) * 128 + 126 + ext div 256) = 2 * ((base mod 2) * 64 + 63) + ext div 256" by simp
    then show ?thesis using e by (metis mod_less mod_mult_self4)
  qed
  let ?P = "iso_set_pcr p x"
  have P: "?P = p[6 := word_of_nat (base div 2 ^ 25), 7 := word_of_nat ((base div 2 ^ 17) mod 256),
           8 := word_of_nat ((base div 2 ^ 9) mod 256), 9 := word_of_nat ((base div 2) mod 256),
           10 := word_of_nat ((base mod 2) * 128 + 126 + ext div 256),
           11 := word_of_nat (ext mod 256)]"
    using base(2) unfolding iso_set_pcr_def Let_def base_def ext_def by simp
  have bytes: "unat (?P ! 6) = base div 2 ^ 25" "unat (?P ! 7) = (base div 2 ^ 17) mod 256"
    "unat (?P ! 8) = (base div 2 ^ 9) mod 256" "unat (?P ! 9) = (base div 2) mod 256"
    "unat (?P ! 10) = (base mod 2) * 128 + 126 + ext div 256" "unat (?P ! 11) = ext mod 256"
    unfolding P using len d10 d6 by (simp_all add: unat_u8_of_nat del: of_nat_add of_nat_mult)
  have "iso_get_pcr ?P =
        word_of_nat ((base div 2 ^ 25 * 2 ^ 25 + (base div 2 ^ 17) mod 256 * 2 ^ 17 +
          (base div 2 ^ 9) mod 256 * 2 ^ 9 + (base div 2) mod 256 * 2 + base mod 2) * 300 +
          ((ext div 256) * 256 + ext mod 256))"
    unfolding iso_get_pcr_def Let_def bytes q r ..
  also have "\<dots> = word_of_nat (base * 300 + ext)"
    unfolding pcr_digits [OF base(1)] by simp
  also have "\<dots> = x" by (simp add: base_def ext_def)
  finally show ?thesis .
qed

lemma iso_has_pcr_set: "is_packet p \<Longrightarrow> iso_has_pcr (iso_set_pcr p x) = iso_has_pcr p"
  by (simp add: iso_has_pcr_def iso_set_pcr_def Let_def)

lemma iso_ts_ok: "ts_ops_ok iso_ts"
  unfolding ts_ops_ok_def iso_ts_def
  by (auto simp: iso_pid_range iso_set_get_pid iso_cont_simps iso_set_get_pcr iso_has_pcr_set)
    (auto simp: is_packet_def iso_set_pid_def iso_set_cont_def iso_set_pcr_def Let_def)

end
