(* ===== verification/Pidref.thy ===== *)
theory Pidref
  imports Tspacket
begin

text \<open>
  The PID rewrite table of \<^verbatim>\<open>src/pidref.c\<close>: an array of pairs of an
  original and a new PID, with original PID 0 for a free entry, searched linearly. Below
  the operations: the partial map the table stands for, the interface the input rewriting
  relies on, and its interpretation.
\<close>

section \<open>State and operations\<close>

record pidref_entry =
  org_pid :: u16
  new_pid :: u16

record pidref =
  base_pid :: u16
  num :: nat
  entries :: "pidref_entry list"

definition free_entry :: pidref_entry where
  "free_entry = \<lparr> org_pid = 0, new_pid = 0 \<rparr>"

definition pidref_init :: "nat \<Rightarrow> u16 \<Rightarrow> pidref" where
  "pidref_init n base = \<lparr> base_pid = base, num = n, entries = replicate n free_entry \<rparr>"

definition pidref_add :: "pidref \<Rightarrow> u16 \<Rightarrow> u16 \<Rightarrow> int \<times> pidref" where
  "pidref_add ref opid npid =
     (if opid = 0 then (0, ref)
      else (case scan_idx (\<lambda>i. org_pid (entries ref ! i) = 0) (num ref) of
              None \<Rightarrow> (0, ref)
            | Some i \<Rightarrow>
                (1, ref\<lparr> entries := (entries ref)[i := \<lparr> org_pid = opid, new_pid = npid \<rparr>] \<rparr>)))"

definition pidref_find :: "pidref \<Rightarrow> u16 \<Rightarrow> nat option" where
  "pidref_find ref opid = scan_idx (\<lambda>i. org_pid (entries ref ! i) = opid) (num ref)"

definition pidref_del :: "pidref \<Rightarrow> u16 \<Rightarrow> int \<times> pidref" where
  "pidref_del ref opid =
     (if opid = 0 then (0, ref)
      else (case pidref_find ref opid of
              None \<Rightarrow> (0, ref)
            | Some i \<Rightarrow> (1, ref\<lparr> entries := (entries ref)[i := free_entry] \<rparr>)))"

definition pidref_get_new_pid :: "pidref \<Rightarrow> u16 \<Rightarrow> u16" where
  "pidref_get_new_pid ref opid =
     (if opid = 0 then 0
      else (case pidref_find ref opid of
              None \<Rightarrow> 0
            | Some i \<Rightarrow> new_pid (entries ref ! i)))"

text \<open>The packet is rewritten in place; the result is the new PID, 0 when there is none.\<close>

definition pidref_change_packet_pid :: "ts_ops \<Rightarrow> bytes \<Rightarrow> u16 \<Rightarrow> pidref \<Rightarrow> u16 \<times> bytes" where
  "pidref_change_packet_pid T ts_packet packet_pid ref =
     (let npid = pidref_get_new_pid ref packet_pid
      in if npid \<noteq> 0 then (npid, ts_set_pid T ts_packet npid) else (0, ts_packet))"

section \<open>The table as a partial map\<close>

definition pid_map :: "pidref \<Rightarrow> u16 \<Rightarrow> u16 option" where
  "pid_map ref p =
     (if p = 0 then None else map_option (\<lambda>i. new_pid (entries ref ! i)) (pidref_find ref p))"

definition pidref_ok :: "pidref \<Rightarrow> bool" where
  "pidref_ok ref \<longleftrightarrow> length (entries ref) = num ref"

definition pid_free :: "pidref \<Rightarrow> nat" where
  "pid_free ref = length (filter (\<lambda>e. org_pid e = 0) (entries ref))"

lemma pidref_init_ok [inv_intros]: "pidref_ok (pidref_init n b)"
  and pidref_init_map: "pid_map (pidref_init n b) = (\<lambda>_. None)"
  and pidref_init_free: "pid_free (pidref_init n b) = n"
  by (auto simp: pidref_ok_def pidref_init_def pid_map_def pidref_find_def pid_free_def
      free_entry_def scan_idx_None_iff fun_eq_iff)

lemma pidref_get_map:
  "pidref_get_new_pid ref p = (case pid_map ref p of None \<Rightarrow> 0 | Some n \<Rightarrow> n)"
  by (simp add: pidref_get_new_pid_def pid_map_def split: option.splits)

text \<open>Overwriting a free entry with a new key: the other keys keep their first entry.\<close>

lemma pid_free_0: "pidref_ok ref \<Longrightarrow> pid_free ref = 0 \<longleftrightarrow> (\<forall>i<num ref. org_pid (entries ref ! i) \<noteq> 0)"
  unfolding pid_free_def pidref_ok_def length_0_conv filter_empty_conv by (metis in_set_conv_nth)

lemma pidref_add_full: "pidref_ok ref \<Longrightarrow> pid_free ref = 0 \<Longrightarrow> pidref_add ref p n = (0, ref)"
  unfolding pidref_add_def pid_free_0 by (simp add: scan_idx_None_iff [THEN iffD2])

lemma pidref_add_new:
  assumes ok: "pidref_ok ref" and p: "p \<noteq> 0" and new: "pid_map ref p = None" and fr: "0 < pid_free ref"
  shows "\<exists>ref'. pidref_add ref p n = (1, ref') \<and> pidref_ok ref' \<and> pid_map ref' = (pid_map ref)(p \<mapsto> n) \<and>
                pid_free ref' = pid_free ref - 1 \<and> base_pid ref' = base_pid ref"
proof -
  have len: "length (entries ref) = num ref" using ok by (simp add: pidref_ok_def)
  have "\<exists>i<num ref. org_pid (entries ref ! i) = 0"
    using fr pid_free_0 [OF ok] by auto
  then obtain i where sc: "scan_idx (\<lambda>i. org_pid (entries ref ! i) = 0) (num ref) = Some i"
    using scan_idx_exists [of _ "num ref" "\<lambda>i. org_pid (entries ref ! i) = 0"] by blast
  then have i: "i < num ref" "org_pid (entries ref ! i) = 0" by (auto dest: scan_idx_SomeD)
  define ref' where "ref' = ref\<lparr> entries := (entries ref)[i := \<lparr> org_pid = p, new_pid = n \<rparr>] \<rparr>"
  have add: "pidref_add ref p n = (1, ref')" using p by (simp add: pidref_add_def sc ref'_def)
  have ent: "entries ref' ! j = (if j = i then \<lparr> org_pid = p, new_pid = n \<rparr> else entries ref ! j)" for j
    using i len by (auto simp: ref'_def)
  have num: "num ref' = num ref" by (simp add: ref'_def)
  have np: "org_pid (entries ref ! j) \<noteq> p" if "j < num ref" for j
    using new p that by (simp add: pid_map_def pidref_find_def scan_idx_None_iff)
  have "pidref_find ref' p = Some i"
    unfolding pidref_find_def num by (rule scan_idx_unique) (use i np in \<open>auto simp: ent split: if_splits\<close>)
  then have at_p: "pid_map ref' p = Some n" using p by (simp add: pid_map_def ent)
  have other: "pid_map ref' q = pid_map ref q" if "q \<noteq> p" for q
  proof (cases "q = 0")
    case False
    have "pidref_find ref' q = pidref_find ref q"
      unfolding pidref_find_def num by (rule scan_idx_cong [OF refl]) (use that False i in \<open>auto simp: ent\<close>)
    moreover have "pidref_find ref q \<noteq> Some i"
      using False i by (auto simp: pidref_find_def dest: scan_idx_SomeD)
    ultimately show ?thesis by (auto simp: pid_map_def ent split: option.splits intro: option.map_cong0)
  qed (simp add: pid_map_def)
  have "pid_map ref' = (pid_map ref)(p \<mapsto> n)" using at_p other by auto
  moreover have "pid_free ref' = pid_free ref - 1"
    using length_filter_update [of i "entries ref" "\<lambda>e. org_pid e = 0" "\<lparr> org_pid = p, new_pid = n \<rparr>"] i len p
    by (simp add: pid_free_def ref'_def)
  ultimately show ?thesis using add ok by (auto simp: ref'_def pidref_ok_def)
qed

lemma pidref_add_zero: "pidref_add ref 0 n = (0, ref)"
  by (simp add: pidref_add_def)

text \<open>Adding keeps the invariant and the base in every case, and the entries of other PIDs.\<close>

lemma pidref_add_ok [inv_intros]: "pidref_ok ref \<Longrightarrow> pidref_ok (snd (pidref_add ref p n))"
  by (auto simp: pidref_add_def pidref_ok_def split: option.splits)

lemma pidref_add_base [frame_simps, simp]: "base_pid (snd (pidref_add ref p n)) = base_pid ref"
  by (auto simp: pidref_add_def split: option.splits)

lemma pidref_del_ok [inv_intros]: "pidref_ok ref \<Longrightarrow> pidref_ok (snd (pidref_del ref p))"
  by (auto simp: pidref_del_def pidref_ok_def split: option.splits)

text \<open>Deleting a PID that has one entry removes it from the map.\<close>

definition pid_unique :: "pidref \<Rightarrow> u16 \<Rightarrow> bool" where
  "pid_unique ref p \<longleftrightarrow>
     (\<forall>i<num ref. \<forall>j<num ref. org_pid (entries ref ! i) = p \<longrightarrow> org_pid (entries ref ! j) = p \<longrightarrow> i = j)"

lemma pidref_del_map:
  assumes ok: "pidref_ok ref" and p: "p \<noteq> 0" and u: "pid_unique ref p"
  shows "pid_map (snd (pidref_del ref p)) = (pid_map ref)(p := None)"
proof (cases "pidref_find ref p")
  case None
  then have "pid_map ref p = None" by (simp add: pid_map_def)
  then have "(pid_map ref)(p := None) = pid_map ref" by auto
  then show ?thesis using None p by (simp add: pidref_del_def)
next
  case (Some i)
  have len: "length (entries ref) = num ref" using ok by (simp add: pidref_ok_def)
  from Some have i: "i < num ref" "org_pid (entries ref ! i) = p"
    by (auto simp: pidref_find_def dest: scan_idx_SomeD)
  define ref' where "ref' = ref\<lparr> entries := (entries ref)[i := free_entry] \<rparr>"
  have del: "snd (pidref_del ref p) = ref'" using p Some by (simp add: pidref_del_def ref'_def)
  have ent: "entries ref' ! j = (if j = i then free_entry else entries ref ! j)" for j
    using i len by (auto simp: ref'_def)
  have num: "num ref' = num ref" by (simp add: ref'_def)
  have at_p: "pid_map ref' p = None"
    using u i p by (auto simp: pid_map_def pidref_find_def num ent free_entry_def scan_idx_None_iff pid_unique_def)
  have other: "pid_map ref' q = pid_map ref q" if "q \<noteq> p" for q
  proof (cases "q = 0")
    case False
    have "pidref_find ref' q = pidref_find ref q"
      unfolding pidref_find_def num
      by (rule scan_idx_cong [OF refl]) (use that False i in \<open>auto simp: ent free_entry_def\<close>)
    moreover have "pidref_find ref q \<noteq> Some i"
      using that i by (auto simp: pidref_find_def dest: scan_idx_SomeD)
    ultimately show ?thesis by (auto simp: pid_map_def ent split: option.splits intro: option.map_cong0)
  qed (simp add: pid_map_def)
  from del at_p other show ?thesis by auto
qed

section \<open>The interface for the rewriting of tables\<close>

text \<open>
  What the input thread relies on when it fills the table: adding a fresh PID while there
  is room, and lookups. \<open>adds\<close> is the sequence of additions.
\<close>

fun adds :: "('r \<Rightarrow> u16 \<Rightarrow> u16 \<Rightarrow> int \<times> 'r) \<Rightarrow> 'r \<Rightarrow> (u16 \<times> u16) list \<Rightarrow> 'r" where
  "adds add r [] = r"
| "adds add r ((p, n) # pns) = adds add (snd (add r p n)) pns"

locale pid_table =
  fixes look :: "'r \<Rightarrow> u16 \<Rightarrow> u16 option"
    and add :: "'r \<Rightarrow> u16 \<Rightarrow> u16 \<Rightarrow> int \<times> 'r"
    and get :: "'r \<Rightarrow> u16 \<Rightarrow> u16"
    and room :: "'r \<Rightarrow> nat"
    and inv :: "'r \<Rightarrow> bool"
  assumes add_new: "inv r \<Longrightarrow> p \<noteq> 0 \<Longrightarrow> look r p = None \<Longrightarrow> 0 < room r \<Longrightarrow>
      \<exists>r'. add r p n = (1, r') \<and> inv r' \<and> look r' = (look r)(p \<mapsto> n) \<and> room r' = room r - 1"
    and add_none: "inv r \<Longrightarrow> room r = 0 \<Longrightarrow> add r p n = (0, r)"
    and get_look: "get r p = (case look r p of None \<Rightarrow> 0 | Some n \<Rightarrow> n)"

context pid_table begin

lemma adds_look:
  "inv r \<Longrightarrow> distinct (map fst pns) \<Longrightarrow> 0 \<notin> fst ` set pns \<Longrightarrow>
   (\<forall>p \<in> fst ` set pns. look r p = None) \<Longrightarrow> length pns \<le> room r \<Longrightarrow>
   inv (adds add r pns) \<and> look (adds add r pns) = look r ++ map_of pns \<and>
   room (adds add r pns) = room r - length pns"
proof (induction pns arbitrary: r)
  case Nil
  then show ?case by simp
next
  case (Cons pn pns)
  obtain p n where pn: "pn = (p, n)" by (cases pn)
  obtain r' where r': "add r p n = (1, r')" "inv r'" "look r' = (look r)(p \<mapsto> n)" "room r' = room r - 1"
    using add_new [of r p n] Cons.prems by (auto simp: pn)
  have "\<forall>q \<in> fst ` set pns. look r' q = None" using Cons.prems(2,4) r'(3) by (auto simp: pn)
  then have "inv (adds add r' pns) \<and> look (adds add r' pns) = look r' ++ map_of pns \<and>
             room (adds add r' pns) = room r' - length pns"
    by (intro Cons.IH) (use Cons.prems r'(2,4) in \<open>auto simp: pn\<close>)
  then have IH: "inv (adds add r' pns)" "look (adds add r' pns) = look r' ++ map_of pns"
    "room (adds add r' pns) = room r' - length pns" by auto
  have "map_of pns p = None" using Cons.prems(2) by (simp add: pn map_of_eq_None_iff)
  then have "(look r)(p \<mapsto> n) ++ map_of pns = look r ++ map_of (pn # pns)"
    by (auto simp: pn map_add_def fun_eq_iff split: option.splits)
  then have "look (adds add r' pns) = look r ++ map_of (pn # pns)"
    unfolding IH(2) r'(3) .
  with IH(1,3) r'(1,4) show ?case by (simp add: pn del: fun_upd_apply)
qed

text \<open>Every PID of the sequence is then looked up as its new PID.\<close>

lemma adds_get:
  assumes "inv r" "distinct (map fst pns)" "0 \<notin> fst ` set pns"
    "\<forall>p \<in> fst ` set pns. look r p = None" "length pns \<le> room r" "(p, n) \<in> set pns"
  shows "get (adds add r pns) p = n"
  using adds_look [OF assms(1-5)] assms(2,6) by (simp add: get_look map_add_def)

lemma adds_get_other:
  assumes "inv r" "distinct (map fst pns)" "0 \<notin> fst ` set pns"
    "\<forall>p \<in> fst ` set pns. look r p = None" "length pns \<le> room r" "p \<notin> fst ` set pns"
  shows "get (adds add r pns) p = get r p"
proof -
  have "map_of pns p = None" using assms(6) by (simp add: map_of_eq_None_iff)
  with adds_look [OF assms(1-5)] show ?thesis by (simp add: get_look map_add_def)
qed

end

interpretation pids: pid_table pid_map pidref_add pidref_get_new_pid pid_free pidref_ok
  by unfold_locales (metis pidref_add_new, auto simp: pidref_add_full pidref_get_map)

section \<open>Properties\<close>

text \<open>
  C34. A packet of a stream entered in the table leaves with the stream's new PID, whatever else
  was entered, as long as the original PIDs are different and the table has room.
\<close>

theorem pidref_rewrites_packet:
  assumes "ts_ops_ok T" and "is_packet pk" and "pidref_ok ref"
    and "distinct (map fst pns)" and "0 \<notin> fst ` set pns" and "\<forall>p \<in> fst ` set pns. pid_map ref p = None"
    and "length pns \<le> pid_free ref" and "(p, n) \<in> set pns" and "n \<noteq> 0" and "unat n < 8192"
  shows "case pidref_change_packet_pid T pk p (adds pidref_add ref pns) of
           (r, pk') \<Rightarrow> r = n \<and> ts_get_pid T pk' = n \<and> is_packet pk' \<and> cont_of pk' = cont_of pk"
  using pids.adds_get [OF assms(3-8)] assms(9,10) ts_ops_okD [OF assms(1,2)]
  by (simp add: pidref_change_packet_pid_def Let_def)

theorem pidref_rewrites_packet_witness:
  "case pidref_change_packet_pid iso_ts (0x47 # 1 # 0 # 0x17 # replicate 184 0) 256
          (adds pidref_add (pidref_init 4 32) [(256, 33), (257, 34)]) of
     (r, pk') \<Rightarrow> r = 33 \<and> ts_get_pid iso_ts pk' = 33 \<and> is_packet pk' \<and>
       cont_of pk' = cont_of (0x47 # 1 # 0 # 0x17 # replicate 184 0)"
  by (rule pidref_rewrites_packet [OF iso_ts_ok])
    (simp_all add: is_packet_def ts_sizes pidref_init_ok pidref_init_map pidref_init_free)

text \<open>A full table refuses an entry and stays as it is; packets of that PID pass unchanged.\<close>

theorem pidref_full_passes:
  assumes "pidref_ok ref" and "pid_free ref = 0" and "pid_map ref p = None"
  shows "pidref_add ref p n = (0, ref) \<and> pidref_change_packet_pid T pk p (snd (pidref_add ref p n)) = (0, pk)"
  using pidref_add_full [OF assms(1,2)] assms(3)
  by (simp add: pidref_change_packet_pid_def pidref_get_map Let_def)

theorem pidref_full_passes_witness:
  "pidref_add (adds pidref_add (pidref_init 1 32) [(256, 33)]) 257 34 =
     (0, adds pidref_add (pidref_init 1 32) [(256, 33)]) \<and>
   pidref_change_packet_pid iso_ts [] 257 (snd (pidref_add (adds pidref_add (pidref_init 1 32) [(256, 33)]) 257 34)) = (0, [])"
proof (rule pidref_full_passes)
  let ?r = "adds pidref_add (pidref_init 1 32) [(256, 33)]"
  have "pidref_ok ?r \<and> pid_map ?r = pid_map (pidref_init 1 32) ++ map_of [(256, 33)] \<and>
        pid_free ?r = pid_free (pidref_init 1 32) - length [(256 :: u16, 33 :: u16)]"
    by (rule pids.adds_look) (simp_all add: pidref_init_ok pidref_init_map pidref_init_free)
  then show "pidref_ok ?r" "pid_free ?r = 0" "pid_map ?r 257 = None"
    by (simp_all add: pidref_init_map pidref_init_free)
qed

end
