(* ===== verification/Channel.thy ===== *)
theory Channel
  imports Clib "HOL-Library.Signed_Division"
begin

text \<open>
  Channels, their source lists, URLs, EPG entries and NIT entries of
  \<^verbatim>\<open>src/data.c\<close> and \<^verbatim>\<open>src/data.h\<close>, with
  \<^verbatim>\<open>is_valid_url\<close> of \<^verbatim>\<open>src/config.c\<close>, which matches the
  same pattern. The EIT tables a channel holds belong to the transport stream library:
  their type is a parameter.
\<close>

section \<open>Source URLs\<close>

datatype channel_source = udp_sock | tcp_sock

record chansrc =
  sproto :: channel_source
  proto :: string
  host :: string
  path :: string
  port :: u32
  rtp :: bool

definition get_sproto :: "string \<Rightarrow> channel_source" where
  "get_sproto url = (if take 4 url = ''http'' then tcp_sock else udp_sock)"

definition is_rtp :: "string \<Rightarrow> bool" where
  "is_rtp url \<longleftrightarrow> take 3 url = ''rtp''"

text \<open>
  The match of \<^verbatim>\<open>^([a-z]+)://([^:/?]+):?([0-9]*)/?(.*)\<close>: every item takes
  the longest match, in order. The result is the protocol, the host, the port digits,
  whether \<^verbatim>\<open>/?\<close> matched a slash, and the rest.
\<close>

definition url_match :: "string \<Rightarrow> (string \<times> string \<times> string \<times> bool \<times> string) option" where
  "url_match url =
     (let p = takeWhile islower url; r = drop (length p) url in
      if p = [] \<or> take 3 r \<noteq> ''://'' then None
      else
        (let r1 = drop 3 r; h = takeWhile (\<lambda>c. c \<notin> set '':/?'') r1; r2 = drop (length h) r1 in
         if h = [] then None
         else
           (let r3 = (if take 1 r2 = '':'' then drop 1 r2 else r2);
                d = takeWhile isdigit r3; r4 = drop (length d) r3
            in Some (p, h, d, take 1 r4 = ''/'', if take 1 r4 = ''/'' then drop 1 r4 else r4))))"

definition is_valid_url :: "string \<Rightarrow> bool" where
  "is_valid_url url \<longleftrightarrow> url_match url \<noteq> None"

text \<open>
  The parts are cut out of one copy of the URL by storing NULs at their ends. When
  \<^verbatim>\<open>/?\<close> matched nothing, the end of the port is the start of the path, and
  the NUL stored there empties the path.
\<close>

definition chansrc_init :: "string option \<Rightarrow> chansrc option" where
  "chansrc_init urlp =
     (case urlp of
        None \<Rightarrow> None
      | Some url \<Rightarrow>
          (case url_match url of
             None \<Rightarrow> None
           | Some (p, h, d, slash, rest) \<Rightarrow>
               (let iport = atoi d in
                Some \<lparr> sproto = get_sproto url, proto = p, host = h,
                       path = (if slash then rest else []),
                       port = (if iport \<noteq> 0 then word_of_int iport else 80),
                       rtp = (p = ''rtp'') \<rparr>)))"

section \<open>EPG entries\<close>

record epg_entry =
  event_id :: u16
  epg_start :: int
  epg_duration :: int
  epg_event :: "string option"
  epg_short :: "string option"
  epg_long :: "string option"

text \<open>
  \<open>utf8\<close> and \<open>iso5\<close> are the string initialisers of the transport stream
  library, which accept NULL.
\<close>

definition epg_new ::
  "(string option \<Rightarrow> string option) \<Rightarrow> (string option \<Rightarrow> string option) \<Rightarrow>
   int \<Rightarrow> int \<Rightarrow> string option \<Rightarrow> string option \<Rightarrow> string option \<Rightarrow> string option \<Rightarrow> epg_entry option"
where
  "epg_new utf8 iso5 start duration encoding event short_desc long_desc =
     (if event = None then None
      else
        (let conv = (if encoding = Some ''iso-8859-5'' then iso5 else utf8) in
         Some \<lparr> event_id = word_of_int (start sdiv 60), epg_start = start, epg_duration = duration,
                epg_event = conv event, epg_short = conv short_desc, epg_long = conv long_desc \<rparr>))"

text \<open>\<open>xstrcmp\<close> is the NULL-tolerant comparison of libfuncs.\<close>

definition epg_changed ::
  "(string option \<Rightarrow> string option \<Rightarrow> int) \<Rightarrow> epg_entry option \<Rightarrow> epg_entry option \<Rightarrow> bool"
where
  "epg_changed xstrcmp ap bp =
     (case (ap, bp) of
        (None, Some _) \<Rightarrow> True
      | (Some _, None) \<Rightarrow> True
      | (None, None) \<Rightarrow> False
      | (Some a, Some b) \<Rightarrow>
          if event_id a \<noteq> event_id b then True
          else if epg_start a \<noteq> epg_start b then True
          else if epg_duration a \<noteq> epg_duration b then True
          else if xstrcmp (epg_event a) (epg_event b) \<noteq> 0 then True
          else if xstrcmp (epg_short a) (epg_short b) \<noteq> 0 then True
          else if xstrcmp (epg_long a) (epg_long b) \<noteq> 0 then True
          else False)"

section \<open>Channels\<close>

definition MAX_CHANNEL_SOURCES :: nat where
  "MAX_CHANNEL_SOURCES = 8"

record 'e channel =
  c_index :: int
  c_base_pid :: int
  service_id :: int
  c_pmt_pid :: int
  radio :: int
  lcn :: int
  lcn_visible :: int
  c_id :: string
  c_name :: string
  eit_mode :: int
  source :: "string option"
  sources :: "string option list"
  num_src :: nat
  curr_src :: nat
  worktime_start :: int
  worktime_end :: int
  epg_version :: "5 word"
  epg_now :: "epg_entry option"
  epg_next :: "epg_entry option"
  eit_now :: "'e option"
  eit_next :: "'e option"

definition chansrc_add :: "'e channel \<Rightarrow> string \<Rightarrow> 'e channel" where
  "chansrc_add c src =
     (if num_src c \<ge> MAX_CHANNEL_SOURCES - 1 then c
      else
        (let c1 = c\<lparr> sources := (sources c)[num_src c := Some src] \<rparr>;
             c2 = (if num_src c = 0 then c1\<lparr> source := Some src \<rparr> else c1)
         in c2\<lparr> num_src := num_src c + 1 \<rparr>))"

definition chansrc_next :: "'e channel \<Rightarrow> 'e channel" where
  "chansrc_next c =
     (if num_src c \<le> 1 then c
      else
        (let k = curr_src c + 1;
             k' = (if k \<ge> MAX_CHANNEL_SOURCES - 1 \<or> sources c ! k = None then 0 else k)
         in c\<lparr> curr_src := k', source := sources c ! k' \<rparr>))"

text \<open>The index is a \<^verbatim>\<open>uint8_t\<close>: callers' values are reduced modulo 256.\<close>

definition chansrc_set :: "'e channel \<Rightarrow> int \<Rightarrow> 'e channel" where
  "chansrc_set c src =
     (let k = nat (src mod 256) in
      if k \<ge> MAX_CHANNEL_SOURCES - 1 \<or> sources c ! k = None then c
      else c\<lparr> curr_src := k, source := sources c ! k \<rparr>)"

definition channel_new ::
  "int \<Rightarrow> int \<Rightarrow> string \<Rightarrow> string \<Rightarrow> int \<Rightarrow> string \<Rightarrow> int \<Rightarrow> int \<Rightarrow> int \<Rightarrow> 'e channel option"
where
  "channel_new sid is_radio cid nm eitmode src channel_index clcn is_lcn_visible =
     (if channel_index \<le> 0 \<or> channel_index \<ge> 256 then None
      else
        Some (chansrc_add
          \<lparr> c_index = channel_index, c_base_pid = channel_index * 32, service_id = sid,
            c_pmt_pid = channel_index * 32, radio = is_radio, lcn = clcn,
            lcn_visible = is_lcn_visible, c_id = cid, c_name = nm, eit_mode = eitmode,
            source = None, sources = replicate MAX_CHANNEL_SOURCES None, num_src = 0,
            curr_src = 0, worktime_start = 0, worktime_end = 0, epg_version = 0,
            epg_now = None, epg_next = None, eit_now = None, eit_next = None \<rparr> src))"

text \<open>Releasing the EPG data leaves NULL pointers behind.\<close>

definition channel_free_epg :: "'e channel \<Rightarrow> 'e channel" where
  "channel_free_epg c = c\<lparr> epg_now := None, epg_next := None, eit_now := None, eit_next := None \<rparr>"

section \<open>NIT entries\<close>

record nit =
  nit_freq :: string
  nit_modulation :: string
  nit_symbol_rate :: string
  nit_ts_id :: u16
  nit__freq :: u32
  nit__modulation :: u8
  nit__symbol_rate :: u32

datatype nit_result =
    NitNull \<comment> \<open>the lengths are wrong: NULL\<close>
  | NitUnterminated \<comment> \<open>nine digits fill \<^verbatim>\<open>tmp[9]\<close>: \<^verbatim>\<open>strtol\<close> reads past it\<close>
  | NitOk nit

definition modulation_code :: "string \<Rightarrow> u8" where
  "modulation_code m =
     (if m = ''16-QAM'' then 1
      else if m = ''32-QAM'' then 2
      else if m = ''64-QAM'' then 3
      else if m = ''128-QAM'' then 4
      else if m = ''256-QAM'' then 5 else 0)"

text \<open>
  The digits of a field, read as hexadecimal: the binary coded decimal value. The buffer
  has nine bytes, zeroed, so eight digits are terminated.
\<close>

definition bcd_field :: "string \<Rightarrow> u32 option" where
  "bcd_field s =
     (let tmp = filter isdigit s
      in if length tmp > 8 then None else Some (word_of_int (strtol 16 tmp)))"

definition nit_new :: "u16 \<Rightarrow> string \<Rightarrow> string \<Rightarrow> string \<Rightarrow> nit_result" where
  "nit_new ts_id freq md sr =
     (if length freq \<noteq> 9 \<or> length sr \<noteq> 8 then NitNull
      else
        (case (bcd_field freq, bcd_field sr) of
           (Some f, Some s) \<Rightarrow>
             NitOk \<lparr> nit_freq = freq, nit_modulation = md, nit_symbol_rate = sr, nit_ts_id = ts_id,
                     nit__freq = f, nit__modulation = modulation_code md, nit__symbol_rate = s \<rparr>
         | _ \<Rightarrow> NitUnterminated))"

section \<open>The source list of a channel\<close>

text \<open>
  The sources fill the array from its start, at most seven of them; the current index and
  the current source agree.
\<close>

definition chan_ok :: "'e channel \<Rightarrow> bool" where
  "chan_ok c \<longleftrightarrow>
     length (sources c) = MAX_CHANNEL_SOURCES \<and> num_src c \<le> MAX_CHANNEL_SOURCES - 1 \<and>
     (\<forall>i<MAX_CHANNEL_SOURCES. sources c ! i \<noteq> None \<longleftrightarrow> i < num_src c) \<and>
     (if num_src c = 0 then curr_src c = 0 \<and> source c = None
      else curr_src c < num_src c \<and> source c = sources c ! curr_src c)"

lemma chan_okD:
  assumes "chan_ok c"
  shows "length (sources c) = 8" "num_src c \<le> 7"
    "i < 8 \<Longrightarrow> sources c ! i = None \<longleftrightarrow> num_src c \<le> i"
    "0 < num_src c \<Longrightarrow> curr_src c < num_src c" "0 < num_src c \<Longrightarrow> source c = sources c ! curr_src c"
  using assms by (auto simp: chan_ok_def MAX_CHANNEL_SOURCES_def not_less split: if_splits)

lemma chansrc_add_ok [inv_intros]:
  assumes "chan_ok c"
  shows "chan_ok (chansrc_add c s)"
proof (cases "num_src c \<ge> 7")
  case True
  with assms show ?thesis by (simp add: chansrc_add_def MAX_CHANNEL_SOURCES_def)
next
  case False
  with assms show ?thesis
    by (auto simp: chan_ok_def chansrc_add_def Let_def MAX_CHANNEL_SOURCES_def nth_list_update less_Suc_eq)
qed

lemma chansrc_next_ok [inv_intros]:
  assumes "chan_ok c"
  shows "chan_ok (chansrc_next c)"
  using assms chan_okD(3) [OF assms, of "curr_src c + 1"]
  by (auto simp: chan_ok_def chansrc_next_def Let_def MAX_CHANNEL_SOURCES_def)

lemma chansrc_set_ok [inv_intros]:
  assumes "chan_ok c"
  shows "chan_ok (chansrc_set c k)"
  using assms chan_okD(3) [OF assms, of "nat (k mod 256)"]
  by (auto simp: chan_ok_def chansrc_set_def Let_def MAX_CHANNEL_SOURCES_def)

lemma channel_new_ok [inv_intros]:
  "channel_new sid r i n em s ix l lv = Some c \<Longrightarrow> chan_ok c"
  unfolding channel_new_def
  by (split if_splits; simp only: option.simps simp_thms)
    (drule sym, simp only:, rule chansrc_add_ok, simp add: chan_ok_def MAX_CHANNEL_SOURCES_def)

lemma chansrc_frame [frame_simps]:
  "num_src (chansrc_next c) = num_src c" "sources (chansrc_next c) = sources c"
  "num_src (chansrc_set c k) = num_src c" "sources (chansrc_set c k) = sources c"
  by (simp_all add: chansrc_next_def chansrc_set_def Let_def)

text \<open>Advancing is cyclic over the configured sources.\<close>

lemma chansrc_next_curr:
  assumes ok: "chan_ok c" and n: "0 < num_src c"
  shows "curr_src (chansrc_next c) = (curr_src c + 1) mod num_src c"
proof -
  note D = chan_okD [OF ok]
  have lt: "curr_src c < num_src c" using D(4) n by simp
  show ?thesis
  proof (cases "num_src c = 1")
    case True
    with lt show ?thesis by (simp add: chansrc_next_def)
  next
    case False
    then have gt: "\<not> num_src c \<le> 1" using n by simp
    show ?thesis
    proof (cases "curr_src c + 1 < num_src c")
      case True
      with D(2) D(3) [of "curr_src c + 1"] gt show ?thesis
        by (simp add: chansrc_next_def Let_def MAX_CHANNEL_SOURCES_def)
    next
      case False
      with lt have e: "curr_src c + 1 = num_src c" by simp
      with D(2) D(3) [of "curr_src c + 1"] gt show ?thesis
        by (cases "num_src c = 7") (auto simp: chansrc_next_def Let_def MAX_CHANNEL_SOURCES_def)
    qed
  qed
qed

lemma chansrc_next_pow:
  assumes "chan_ok c" and "0 < num_src c"
  shows "chan_ok ((chansrc_next ^^ k) c) \<and> num_src ((chansrc_next ^^ k) c) = num_src c \<and>
         sources ((chansrc_next ^^ k) c) = sources c \<and>
         curr_src ((chansrc_next ^^ k) c) = (curr_src c + k) mod num_src c"
proof (induction k)
  case 0
  then show ?case using assms chan_okD(4) [OF assms(1)] by simp
next
  case (Suc k)
  then have "curr_src (chansrc_next ((chansrc_next ^^ k) c)) = ((curr_src c + k) mod num_src c + 1) mod num_src c"
    using chansrc_next_curr [of "(chansrc_next ^^ k) c"] assms(2) by simp
  with Suc show ?case by (simp add: chansrc_frame chansrc_next_ok mod_simps)
qed

section \<open>URLs\<close>

lemma chansrc_init_valid: "chansrc_init (Some url) = None \<longleftrightarrow> \<not> is_valid_url url"
  by (auto simp: chansrc_init_def is_valid_url_def Let_def split: option.splits)

text \<open>A URL put together from its parts.\<close>

definition mk_url :: "string \<Rightarrow> string \<Rightarrow> string \<Rightarrow> string \<Rightarrow> string" where
  "mk_url p h d rest = p @ ''://'' @ h @ '':'' @ d @ ''/'' @ rest"

lemma url_match_mk:
  assumes "p \<noteq> []" "\<forall>c \<in> set p. islower c" "h \<noteq> []" "\<forall>c \<in> set h. c \<notin> set '':/?''"
    "\<forall>c \<in> set d. isdigit c"
  shows "url_match (mk_url p h d rest) = Some (p, h, d, True, rest)"
proof -
  have colon: "\<not> islower CHR '':''" "\<not> isdigit CHR ''/''" by (simp_all add: char_defs)
  have p: "takeWhile islower (mk_url p h d rest) = p"
    using assms(2) colon by (simp add: mk_url_def)
  have h: "takeWhile (\<lambda>c. c \<notin> set '':/?'') (h @ '':'' @ d @ ''/'' @ rest) = h"
    using assms(4) by (simp add: takeWhile_append2)
  have d: "takeWhile isdigit (d @ ''/'' @ rest) = d"
    using assms(5) colon by (simp add: takeWhile_append2)
  have r: "drop (length p) (mk_url p h d rest) = ''://'' @ h @ '':'' @ d @ ''/'' @ rest"
    by (simp add: mk_url_def)
  show ?thesis
    unfolding url_match_def Let_def p r using assms(1,3) h d by simp
qed

section \<open>Binary coded decimals\<close>

lemma eat_digits_step: "\<forall>c \<in> set (ds @ [c]). digit_val c < b \<Longrightarrow>
  eat_digits b 0 (ds @ [c]) = eat_digits b 0 ds * b + digit_val c"
  by (subst eat_digits_append) auto

text \<open>Each hexadecimal digit of the value is the decimal digit of the string.\<close>

lemma eat_digits_nibble:
  "(\<forall>c \<in> set ds. isdigit c) \<Longrightarrow> i < length ds \<Longrightarrow>
   (eat_digits 16 0 ds div 16 ^ (length ds - 1 - i)) mod 16 = digit_val (ds ! i)"
proof (induction ds rule: rev_induct)
  case (snoc c ds)
  have dv: "digit_val x < 16" if "x \<in> set (ds @ [c])" for x
    using isdigit_val [of x] snoc.prems(1) that by force
  then have e: "eat_digits 16 0 (ds @ [c]) = eat_digits 16 0 ds * 16 + digit_val c"
    by (intro eat_digits_step) auto
  show ?case
  proof (cases "i = length ds")
    case True
    with e dv show ?thesis by simp
  next
    case False
    with snoc.prems(2) have i: "i < length ds" by simp
    then obtain m where m: "length ds - i = Suc m" by (cases "length ds - i") auto
    have "eat_digits 16 0 (ds @ [c]) div 16 ^ (length (ds @ [c]) - 1 - i) = eat_digits 16 0 ds div 16 ^ m"
      using e dv m by (simp add: div_mult2_eq)
    moreover have "m = length ds - 1 - i" using m by simp
    ultimately show ?thesis using snoc i by (simp add: nth_append)
  qed
qed simp

lemma eat_digits_bound: "(\<forall>c \<in> set ds. isdigit c) \<Longrightarrow> eat_digits 16 0 ds < 16 ^ length ds"
proof (induction ds rule: rev_induct)
  case (snoc c ds)
  have dv: "digit_val x < 16" if "x \<in> set (ds @ [c])" for x
    using isdigit_val [of x] snoc.prems that by force
  then have "eat_digits 16 0 (ds @ [c]) = eat_digits 16 0 ds * 16 + digit_val c"
    by (intro eat_digits_step) auto
  moreover have "eat_digits 16 0 ds < 16 ^ length ds" using snoc by simp
  ultimately show ?case using dv [of c] by simp
qed simp

lemma strtol_16_digits:
  assumes "\<forall>c \<in> set ds. isdigit c" and "length ds \<le> 8"
  shows "strtol 16 ds = int (eat_digits 16 0 ds)"
proof -
  have ts: "take_sign (dropWhile isspace ds) = (False, ds)"
    using assms(1) digit_not_space_sign by (cases ds) (auto simp: take_sign_def)
  have hp: "\<not> has_hex_prefix ds"
    using assms(1) by (auto simp: has_hex_prefix_def char_defs split: list.splits)
  have "eat_digits 16 0 ds < 16 ^ 8"
    using eat_digits_bound [OF assms(1)] assms(2) power_increasing [of "length ds" 8 "16::nat"] by simp
  with ts hp show ?thesis by (simp add: strtol_def strtol_base_def clamp_long_def)
qed

lemma bcd_field_digits:
  assumes "bcd_field s = Some w" and "i < length (filter isdigit s)"
  shows "(unat w div 16 ^ (length (filter isdigit s) - 1 - i)) mod 16 = digit_val (filter isdigit s ! i)"
proof -
  let ?ds = "filter isdigit s"
  have l: "length ?ds \<le> 8" and w: "w = word_of_int (strtol 16 ?ds)"
    using assms(1) by (auto simp: bcd_field_def Let_def split: if_splits)
  have dg: "\<forall>c \<in> set ?ds. isdigit c" by simp
  have "eat_digits 16 0 ?ds < 16 ^ 8"
    using eat_digits_bound [OF dg] l power_increasing [of "length ?ds" 8 "16::nat"] by simp
  then have "unat w = eat_digits 16 0 ?ds"
    unfolding w strtol_16_digits [OF dg l] by (simp add: unat_of_nat)
  with eat_digits_nibble [OF dg assms(2)] show ?thesis by simp
qed

section \<open>PID ranges\<close>

text \<open>A channel owns the 32 PIDs from its base; the ranges of different channels are disjoint.\<close>

definition pid_range :: "'e channel \<Rightarrow> int set" where
  "pid_range c = {c_base_pid c ..< c_base_pid c + 32}"

lemma channel_new_fields:
  assumes "channel_new sid r i n em s ix l lv = Some c"
  shows "0 < ix" "ix < 256" "c_index c = ix" "c_base_pid c = ix * 32" "c_pmt_pid c = ix * 32"
    "service_id c = sid" "c_id c = i" "c_name c = n" "num_src c = 1" "source c = Some s"
  using assms
  by (auto simp: channel_new_def chansrc_add_def Let_def MAX_CHANNEL_SOURCES_def split: if_splits)

section \<open>Properties\<close>

text \<open>
  Reconnecting goes round the sources: after \<open>k\<close> steps the current source is the one
  \<open>k\<close> places further on, cyclically, so every configured source is tried within \<open>num_src\<close> steps.
\<close>

theorem chansrc_round_robin:
  assumes "chan_ok c" and "0 < num_src c" and "i < num_src c"
  shows "\<exists>k < num_src c. curr_src ((chansrc_next ^^ k) c) = i \<and> source ((chansrc_next ^^ k) c) = sources c ! i"
proof -
  let ?n = "num_src c"
  let ?k = "(i + ?n - curr_src c) mod ?n"
  have cur: "curr_src c < ?n" using chan_okD(4) assms by blast
  have "(curr_src c + ?k) mod ?n = (curr_src c + (i + ?n - curr_src c)) mod ?n" by (simp add: mod_simps)
  also have "\<dots> = i" using cur assms(3) by simp
  finally have e: "(curr_src c + ?k) mod ?n = i" .
  note P = chansrc_next_pow [OF assms(1,2), of ?k]
  have "source ((chansrc_next ^^ ?k) c) = sources c ! i"
    using chan_okD(5) [of "(chansrc_next ^^ ?k) c"] P e assms(2) by simp
  with P e assms(2) show ?thesis by (intro exI [of _ ?k]) simp
qed

theorem chansrc_round_robin_witness:
  "case (channel_new 1 0 ''a'' ''A'' 0 ''udp://1.1.1.1'' 1 0 0 :: unit channel option) of
     Some c \<Rightarrow> \<exists>k < 2. curr_src ((chansrc_next ^^ k) (chansrc_add c ''udp://2.2.2.2'')) = 1 \<and>
       source ((chansrc_next ^^ k) (chansrc_add c ''udp://2.2.2.2'')) = Some ''udp://2.2.2.2''
   | None \<Rightarrow> False"
proof -
  obtain c :: "unit channel" where c: "channel_new 1 0 ''a'' ''A'' 0 ''udp://1.1.1.1'' 1 0 0 = Some c"
    by (simp add: channel_new_def)
  have n: "num_src (chansrc_add c ''udp://2.2.2.2'') = 2"
    and s: "sources (chansrc_add c ''udp://2.2.2.2'') ! 1 = Some ''udp://2.2.2.2''"
    using c by (auto simp: channel_new_def chansrc_add_def Let_def MAX_CHANNEL_SOURCES_def)
  have "chan_ok (chansrc_add c ''udp://2.2.2.2'')" by (rule chansrc_add_ok [OF channel_new_ok [OF c]])
  from chansrc_round_robin [OF this, of 1] n s c show ?thesis by simp
qed

text \<open>
  C36. A URL put together from a protocol, a host, a port and a path is accepted by the check
  of the configuration and is taken apart into the same parts when the input connects.
\<close>

theorem chansrc_url_parts:
  assumes "p \<noteq> []" "\<forall>c \<in> set p. islower c" "h \<noteq> []" "\<forall>c \<in> set h. c \<notin> set '':/?''"
    and "0 < prt" "prt < 2 ^ 31"
  shows "is_valid_url (mk_url p h (show_nat prt) rest) \<and>
    (\<exists>s. chansrc_init (Some (mk_url p h (show_nat prt) rest)) = Some s \<and>
       proto s = p \<and> host s = h \<and> unat (port s) = prt \<and> path s = rest)"
proof -
  have d: "\<forall>c \<in> set (show_nat prt). isdigit c" by (rule show_nat_digits)
  have a: "atoi (show_nat prt) = int prt" using assms(6) by (intro atoi_show_nat) simp
  have "unat (word_of_int (int prt) :: u32) = prt" using assms(6) by (simp add: unat_of_nat)
  with url_match_mk [OF assms(1-4) d, of rest] a assms(5) show ?thesis
    by (simp add: is_valid_url_def chansrc_init_def Let_def)
qed

theorem chansrc_url_parts_witness:
  "\<exists>s. chansrc_init (Some (mk_url ''udp'' ''239.0.0.1'' (show_nat 5000) ''x'')) = Some s \<and>
     proto s = ''udp'' \<and> host s = ''239.0.0.1'' \<and> unat (port s) = 5000 \<and> path s = ''x''"
  using chansrc_url_parts [of "''udp''" "''239.0.0.1''" 5000 "''x''"]
  by (simp add: char_defs)

text \<open>
  The NIT frequency and symbol rate fields hold the digits of their strings, one per
  nibble: digit \<open>i\<close> of the string is nibble \<open>length - 1 - i\<close> of the word.
\<close>

theorem nit_new_bcd:
  assumes "nit_new ts f m sr = NitOk n"
  shows "(\<forall>i < length (filter isdigit f).
           (unat (nit__freq n) div 16 ^ (length (filter isdigit f) - 1 - i)) mod 16 = digit_val (filter isdigit f ! i)) \<and>
         (\<forall>i < length (filter isdigit sr).
           (unat (nit__symbol_rate n) div 16 ^ (length (filter isdigit sr) - 1 - i)) mod 16 = digit_val (filter isdigit sr ! i))"
proof -
  have "bcd_field f = Some (nit__freq n)" "bcd_field sr = Some (nit__symbol_rate n)"
    using assms by (auto simp: nit_new_def split: option.splits if_splits)
  then show ?thesis using bcd_field_digits by blast
qed

theorem nit_new_bcd_witness:
  "\<exists>n. nit_new 1 ''0330,0000'' ''64-QAM'' ''68,75000'' = NitOk n \<and> (unat (nit__freq n) div 16 ^ 6) mod 16 = 3"
proof -
  have d: "filter isdigit ''0330,0000'' = ''03300000''" "filter isdigit ''68,75000'' = ''6875000''"
    by (simp_all add: char_defs)
  obtain n where n: "nit_new 1 ''0330,0000'' ''64-QAM'' ''68,75000'' = NitOk n"
    unfolding nit_new_def bcd_field_def d by simp
  have "(unat (nit__freq n) div 16 ^ (length ''03300000'' - 1 - 1)) mod 16 = digit_val (''03300000'' ! 1)"
    using nit_new_bcd [OF n, unfolded d] by (metis One_nat_def length_Cons zero_less_Suc Suc_less_eq)
  moreover have "digit_val (''03300000'' ! 1) = 3" by (simp add: digit_val_def char_defs)
  ultimately show ?thesis using n by simp
qed

text \<open>The PIDs of different channels never meet: each owns the 32 PIDs from 32 times its index.\<close>

theorem channel_pids_disjoint:
  assumes "channel_new s1 r1 i1 n1 e1 u1 x1 l1 v1 = Some c1" and "channel_new s2 r2 i2 n2 e2 u2 x2 l2 v2 = Some c2"
    and "x1 \<noteq> x2"
  shows "pid_range c1 \<inter> pid_range c2 = {} \<and> pid_range c1 \<subseteq> {32..<8192} \<and> c_pmt_pid c1 \<in> pid_range c1"
  using channel_new_fields [OF assms(1)] channel_new_fields [OF assms(2)] assms(3)
  by (auto simp: pid_range_def)

theorem channel_pids_disjoint_witness:
  "case (channel_new 1 0 ''a'' ''A'' 0 ''udp://1'' 1 0 0 :: unit channel option,
         channel_new 2 0 ''b'' ''B'' 0 ''udp://2'' 2 0 0 :: unit channel option) of
     (Some c1, Some c2) \<Rightarrow> pid_range c1 \<inter> pid_range c2 = {} | _ \<Rightarrow> False"
proof -
  obtain c1 :: "unit channel" where c1: "channel_new 1 0 ''a'' ''A'' 0 ''udp://1'' 1 0 0 = Some c1"
    by (simp add: channel_new_def)
  obtain c2 :: "unit channel" where c2: "channel_new 2 0 ''b'' ''B'' 0 ''udp://2'' 2 0 0 = Some c2"
    by (simp add: channel_new_def)
  from channel_pids_disjoint [OF c1 c2] c1 c2 show ?thesis by simp
qed

end
