(* ===== verification/Dbl.thy ===== *)
theory Dbl
  imports Prelude "HOL-Library.Log_Nat"
begin

text \<open>
  C \<^verbatim>\<open>double\<close> arithmetic. The code computes buffer sizes, the spreading of
  padding and the restamped PCR values in doubles. A finite double is a rational number;
  each operation gives the exact result rounded to 53 significant bits, ties to even, as
  IEEE 754 requires. The magnitudes that occur lie between \<open>2 ^ (-64)\<close> and
  \<open>2 ^ 128\<close>, so overflow and subnormal numbers are left out.
\<close>

section \<open>Rounding\<close>

definition round_even :: "rat \<Rightarrow> int" where
  "round_even q =
     (let f = \<lfloor>q\<rfloor>; d = q - of_int f
      in if d < 1 / 2 then f else if d > 1 / 2 then f + 1 else if even f then f else f + 1)"

text \<open>The exponent: \<open>2 ^ rexp x \<le> \<bar>x\<bar> < 2 ^ (rexp x + 1)\<close>.\<close>

definition rexp :: "rat \<Rightarrow> int" where
  "rexp x =
     (case quotient_of \<bar>x\<bar> of (a, b) \<Rightarrow>
        (let k = bitlen a - bitlen b in if 2 powi k \<le> \<bar>x\<bar> then k else k - 1))"

definition dbl :: "rat \<Rightarrow> rat" where
  "dbl x = (if x = 0 then 0
            else (let u = 2 powi (rexp x - 52) in of_int (round_even (x / u)) * u))"

text \<open>The library functions \<^verbatim>\<open>round\<close> (halves away from zero) and \<^verbatim>\<open>ceil\<close>, and conversion to an integer type.\<close>

definition c_round :: "rat \<Rightarrow> int" where
  "c_round x = (if x \<ge> 0 then \<lfloor>x + 1 / 2\<rfloor> else - \<lfloor>- x + 1 / 2\<rfloor>)"

definition c_ceil :: "rat \<Rightarrow> int" where
  "c_ceil x = \<lceil>x\<rceil>"

definition c_trunc :: "rat \<Rightarrow> int" where
  "c_trunc x = (if x \<ge> 0 then \<lfloor>x\<rfloor> else - \<lfloor>- x\<rfloor>)"

section \<open>Rounding to an integer\<close>

lemma round_even_err: "\<bar>of_int (round_even q) - q\<bar> \<le> 1 / 2"
proof -
  define f where "f = \<lfloor>q\<rfloor>"
  have "of_int f \<le> q" "q < of_int f + 1" using floor_correct [of q] by (auto simp: f_def)
  then show ?thesis unfolding round_even_def Let_def f_def [symmetric] by (auto simp: abs_le_iff)
qed

lemma round_even_int [simp]: "round_even (of_int n) = n"
  by (simp add: round_even_def)

lemma round_even_mono: "p \<le> q \<Longrightarrow> round_even p \<le> round_even q"
proof -
  assume le: "p \<le> q"
  show ?thesis
  proof (rule ccontr)
    assume "\<not> ?thesis"
    then have gt: "round_even q + 1 \<le> round_even p" by simp
    then have "of_int (round_even q) + 1 \<le> (of_int (round_even p) :: rat)"
      by (metis of_int_1 of_int_add of_int_le_iff)
    with round_even_err [of p] round_even_err [of q] le
    have "p = q" by linarith
    with gt show False by simp
  qed
qed

lemma round_even_le: "q \<le> of_int n \<Longrightarrow> round_even q \<le> n"
  using round_even_mono [of q "of_int n"] by simp

lemma round_even_ge: "of_int n \<le> q \<Longrightarrow> n \<le> round_even q"
  using round_even_mono [of "of_int n" q] by simp

lemma round_even_minus: "round_even (- q) = - round_even q"
proof (cases "q = of_int \<lfloor>q\<rfloor>")
  case True
  then show ?thesis by (metis of_int_minus round_even_int)
next
  case False
  then have c: "\<lfloor>- q\<rfloor> = - \<lfloor>q\<rfloor> - 1"
    by (metis ceiling_altdef ceiling_def minus_diff_eq add.inverse_inverse uminus_add_conv_diff)
  show ?thesis
    unfolding round_even_def Let_def c by (auto simp: field_simps)
qed

section \<open>The exponent\<close>

lemma bitlen_pos_bounds:
  assumes "0 < (a::int)"
  shows "2 powi (bitlen a - 1) \<le> (of_int a :: rat)" and "of_int a < (2 powi bitlen a :: rat)"
proof -
  have b: "1 \<le> bitlen a" using assms bitlen_eq_zero_iff [of a] bitlen_nonneg [of a] by linarith
  have "2 ^ nat (bitlen a - 1) \<le> a \<and> a < 2 ^ nat (bitlen a)"
    using bitlen_bounds [OF assms] .
  then have l: "(2::int) ^ nat (bitlen a - 1) \<le> a" and u: "a < 2 ^ nat (bitlen a)" by auto
  have "(2::rat) powi (bitlen a - 1) = of_int (2 ^ nat (bitlen a - 1))"
    using b by (simp add: power_int_def)
  then show "2 powi (bitlen a - 1) \<le> (of_int a :: rat)" using l by (metis of_int_le_iff)
  have "(2::rat) powi (bitlen a) = of_int (2 ^ nat (bitlen a))"
    using b by (simp add: power_int_def)
  then show "of_int a < (2 powi bitlen a :: rat)" using u by (metis of_int_less_iff)
qed

lemma rexp_bounds:
  assumes "x \<noteq> 0"
  shows "2 powi rexp x \<le> \<bar>x\<bar>" and "\<bar>x\<bar> < 2 powi (rexp x + 1)"
proof -
  obtain a b where q: "quotient_of \<bar>x\<bar> = (a, b)" by (cases "quotient_of \<bar>x\<bar>")
  have b: "0 < b" using quotient_of_denom_pos [OF q] .
  have x: "\<bar>x\<bar> = of_int a / of_int b" using quotient_of_div [OF q] .
  have a: "0 < a" using x b assms by (metis abs_not_less_zero divide_eq_0_iff linorder_cases of_int_0
        of_int_0_less_iff of_int_less_0_iff divide_neg_pos abs_eq_0)
  define k where "k = bitlen a - bitlen b"
  note A = bitlen_pos_bounds [OF a] and B = bitlen_pos_bounds [OF b]
  have bp: "(0::rat) < of_int b" using b by simp
  have up: "\<bar>x\<bar> < 2 powi (k + 1)"
  proof -
    have "of_int a < (2 powi (k + 1)) * (2 powi (bitlen b - 1) :: rat)"
      using A(2) by (simp add: k_def flip: power_int_add)
    also have "\<dots> \<le> (2 powi (k + 1)) * of_int b"
      using B(1) by (intro mult_left_mono) auto
    finally show ?thesis unfolding x using bp by (simp add: pos_divide_less_eq)
  qed
  have lo: "2 powi (k - 1) \<le> \<bar>x\<bar>"
  proof -
    have "(2 powi (k - 1)) * of_int b \<le> (2 powi (k - 1)) * (2 powi bitlen b :: rat)"
      using B(2) by (intro mult_left_mono) auto
    also have "\<dots> = 2 powi (bitlen a - 1)" by (simp add: k_def flip: power_int_add)
    also have "\<dots> \<le> of_int a" by (rule A(1))
    finally show ?thesis unfolding x using bp by (simp add: pos_le_divide_eq)
  qed
  have r: "rexp x = (if 2 powi k \<le> \<bar>x\<bar> then k else k - 1)"
    by (simp add: rexp_def q k_def Let_def)
  show "2 powi rexp x \<le> \<bar>x\<bar>" using lo by (simp add: r)
  show "\<bar>x\<bar> < 2 powi (rexp x + 1)" using up by (simp add: r)
qed

lemma rexp_unique:
  assumes "2 powi e \<le> \<bar>x\<bar>" and "\<bar>x\<bar> < 2 powi (e + 1)"
  shows "rexp x = e"
proof -
  have "x \<noteq> 0"
  proof
    assume "x = 0"
    then have "(2::rat) powi e \<le> 0" using assms(1) by simp
    moreover have "(0::rat) < 2 powi e" by simp
    ultimately show False by linarith
  qed
  note B = rexp_bounds [OF this]
  have "(2::rat) powi rexp x < 2 powi (e + 1)" using B(1) assms(2) by simp
  then have "rexp x < e + 1" by (metis not_less power_int_increasing rat_number_collapse(3) one_le_numeral)
  moreover have "(2::rat) powi e < 2 powi (rexp x + 1)" using B(2) assms(1) by simp
  then have "e < rexp x + 1" by (metis not_less power_int_increasing one_le_numeral)
  ultimately show ?thesis by simp
qed

section \<open>Properties of the rounding\<close>

lemma dbl_0 [simp]: "dbl 0 = 0"
  by (simp add: dbl_def)

lemma dbl_minus: "dbl (- x) = - dbl x"
proof -
  have "rexp (- x) = rexp x" by (simp add: rexp_def)
  then show ?thesis by (simp add: dbl_def Let_def round_even_minus)
qed

text \<open>The relative error is at most \<open>2 ^ (-53)\<close>.\<close>

lemma dbl_err: "\<bar>dbl x - x\<bar> \<le> \<bar>x\<bar> / 2 ^ 53"
proof (cases "x = 0")
  case False
  define u :: rat where "u = 2 powi (rexp x - 52)"
  have u: "0 < u" by (simp add: u_def)
  have d: "dbl x = of_int (round_even (x / u)) * u" using False by (simp add: dbl_def u_def Let_def)
  have "dbl x - x = (of_int (round_even (x / u)) - x / u) * u"
    unfolding d using u by (simp add: left_diff_distrib)
  then have "\<bar>dbl x - x\<bar> = \<bar>of_int (round_even (x / u)) - x / u\<bar> * u"
    using u by (simp add: abs_mult)
  also have "\<dots> \<le> 1 / 2 * u" using round_even_err u by (intro mult_right_mono) auto
  also have "\<dots> = 2 powi (rexp x) / 2 ^ 53"
    by (simp add: u_def power_int_diff)
  also have "\<dots> \<le> \<bar>x\<bar> / 2 ^ 53" using rexp_bounds(1) [OF False] by (intro divide_right_mono) auto
  finally show ?thesis .
qed simp

text \<open>Integers of at most 53 bits are exact.\<close>

lemma dbl_scaled:
  assumes "x \<noteq> 0" and "x = of_int n * 2 powi (rexp x - 52)"
  shows "dbl x = x"
proof -
  have "x / 2 powi (rexp x - 52) = of_int n" using assms(2) by (metis nonzero_mult_div_cancel_right power_int_not_zero zero_neq_numeral)
  with assms show ?thesis by (simp add: dbl_def Let_def)
qed

lemma dbl_int:
  assumes "\<bar>n\<bar> \<le> 2 ^ 53"
  shows "dbl (of_int n) = of_int n"
proof (cases "n = 0")
  case False
  then have nz: "(of_int n :: rat) \<noteq> 0" by simp
  note B = rexp_bounds [OF nz]
  show ?thesis
  proof (cases "rexp (of_int n) \<le> 52")
    case True
    define k where "k = nat (52 - rexp (of_int n))"
    have "rexp (of_int n) - 52 = - int k" using True by (simp add: k_def)
    then have e: "(2::rat) powi (rexp (of_int n) - 52) = inverse (2 ^ k)"
      by (simp add: power_int_minus)
    have "(of_int n :: rat) = of_int (n * 2 ^ k) * inverse (2 ^ k)" by simp
    then show ?thesis unfolding e [symmetric] by (rule dbl_scaled [OF nz])
  next
    case False
    then have "(2::rat) powi 53 \<le> 2 powi rexp (of_int n)" by (intro power_int_increasing) auto
    with B(1) have "(2::rat) ^ 53 \<le> of_int \<bar>n\<bar>" by (simp add: power_int_def)
    then have "2 ^ 53 \<le> \<bar>n\<bar>" by (metis of_int_le_iff of_int_numeral of_int_power)
    with assms have n: "\<bar>n\<bar> = 2 ^ 53" by simp
    have a: "\<bar>of_int n :: rat\<bar> = of_int (2 ^ 53)" using n by (simp flip: of_int_abs)
    have "rexp (of_int n) = 53"
      by (rule rexp_unique) (simp_all add: a power_int_def)
    moreover have "n = 2 ^ 53 \<or> n = - (2 ^ 53)" using n by (auto simp: abs_if split: if_splits)
    then have "n = (if 0 \<le> n then 2 ^ 52 else - (2 ^ 52)) * 2" by auto
    then obtain m where "n = m * 2" ..
    ultimately show ?thesis by (intro dbl_scaled [OF nz, of m]) simp
  qed
qed simp

lemma dbl_nat: "n \<le> 2 ^ 53 \<Longrightarrow> dbl (of_nat n) = of_nat n"
  using dbl_int [of "int n"] by (simp add: nat_le_iff)

text \<open>The rounding is monotone.\<close>

lemma rexp_mono:
  assumes "0 < x" and "x \<le> y"
  shows "rexp x \<le> rexp y"
proof -
  have "(2::rat) powi rexp x < 2 powi (rexp y + 1)"
    using rexp_bounds(1) [of x] rexp_bounds(2) [of y] assms by simp
  then show ?thesis by (metis not_less power_int_increasing one_le_numeral zless_add1_eq order.order_iff_strict)
qed

lemma dbl_between:
  assumes "0 < x"
  shows "2 powi rexp x \<le> dbl x" and "dbl x \<le> 2 powi (rexp x + 1)"
proof -
  define u :: rat where "u = 2 powi (rexp x - 52)"
  have u: "0 < u" by (simp add: u_def)
  have d: "dbl x = of_int (round_even (x / u)) * u" using assms by (simp add: dbl_def u_def Let_def)
  have e: "2 powi rexp x = of_int (2 ^ 52) * u" "2 powi (rexp x + 1) = of_int (2 ^ 53) * u"
    by (simp_all add: u_def power_int_diff power_int_add)
  note B = rexp_bounds [of x]
  have "of_int (2 ^ 52) * u \<le> x" using B(1) assms unfolding e by simp
  then have "of_int (2 ^ 52) \<le> x / u" using u by (simp add: pos_le_divide_eq)
  then have "2 ^ 52 \<le> round_even (x / u)" by (rule round_even_ge)
  then have "(of_int (2 ^ 52) :: rat) \<le> of_int (round_even (x / u))" by (simp only: of_int_le_iff)
  then show "2 powi rexp x \<le> dbl x" unfolding d e using u by (intro mult_right_mono) auto
  have "x \<le> of_int (2 ^ 53) * u" using B(2) assms unfolding e by simp
  then have "x / u \<le> of_int (2 ^ 53)" using u by (simp add: pos_divide_le_eq)
  then have "round_even (x / u) \<le> 2 ^ 53" by (rule round_even_le)
  then have "(of_int (round_even (x / u)) :: rat) \<le> of_int (2 ^ 53)" by (simp only: of_int_le_iff)
  then show "dbl x \<le> 2 powi (rexp x + 1)" unfolding d e using u by (intro mult_right_mono) auto
qed

lemma dbl_pos: "0 < x \<Longrightarrow> 0 < dbl x"
  using dbl_between(1) [of x] zero_less_power_int [of "2::rat" "rexp x"] by linarith

lemma dbl_nonneg: "0 \<le> x \<Longrightarrow> 0 \<le> dbl x"
  using dbl_pos [of x] by (cases "x = 0") auto

lemma dbl_mono_pos:
  assumes "0 < x" and "x \<le> y"
  shows "dbl x \<le> dbl y"
proof (cases "rexp x = rexp y")
  case True
  define u :: rat where "u = 2 powi (rexp y - 52)"
  have u: "0 < u" by (simp add: u_def)
  have "round_even (x / u) \<le> round_even (y / u)"
    using assms u by (intro round_even_mono divide_right_mono) auto
  then have "of_int (round_even (x / u)) * u \<le> of_int (round_even (y / u)) * u"
    using u by (intro mult_right_mono) auto
  then show ?thesis using assms True by (simp add: dbl_def u_def Let_def)
next
  case False
  with rexp_mono [OF assms] have "rexp x + 1 \<le> rexp y" by simp
  then have "(2::rat) powi (rexp x + 1) \<le> 2 powi rexp y" by (intro power_int_increasing) auto
  with dbl_between(2) [OF assms(1)] dbl_between(1) [of y] assms show ?thesis by simp
qed

lemma dbl_mono: "x \<le> y \<Longrightarrow> dbl x \<le> dbl y"
proof -
  assume le: "x \<le> y"
  consider "0 < x" | "y < 0" | "x \<le> 0" "0 \<le> y" by linarith
  then show ?thesis
  proof cases
    case 1 then show ?thesis using le by (rule dbl_mono_pos)
  next
    case 2 then show ?thesis using dbl_mono_pos [of "- y" "- x"] le by (simp add: dbl_minus)
  next
    case 3 then show ?thesis using dbl_nonneg [of "- x"] dbl_nonneg [of y] by (simp add: dbl_minus)
  qed
qed

lemma c_round_nonneg: "0 \<le> x \<Longrightarrow> 0 \<le> c_round x"
  by (simp add: c_round_def)

lemma c_round_int [simp]: "c_round (of_int n) = n"
proof -
  have "\<lfloor>of_int m + 1 / 2 :: rat\<rfloor> = m" for m by (rule floor_unique) auto
  from this [of n] this [of "- n"] show ?thesis by (simp add: c_round_def)
qed

lemma c_round_0 [simp]: "c_round 0 = 0"
  using c_round_int [of 0] by simp

lemma c_round_mono: "0 \<le> x \<Longrightarrow> x \<le> y \<Longrightarrow> c_round x \<le> c_round y"
  by (simp add: c_round_def floor_mono)

lemma c_ceil_int [simp]: "c_ceil (of_int n) = n"
  by (simp add: c_ceil_def)

lemma c_trunc_bounds: "0 \<le> x \<Longrightarrow> of_int (c_trunc x) \<le> x \<and> x < of_int (c_trunc x) + 1"
  using floor_correct [of x] by (simp add: c_trunc_def)

end
