(* ===== verification/Obuf.thy ===== *)
theory Obuf
  imports Dbl Tspacket
begin

text \<open>
  The two output buffers the mixing thread and the writing thread hand to each other:
  \<^verbatim>\<open>OBUF\<close> and \<^verbatim>\<open>OBUF_STATUS\<close> of \<^verbatim>\<open>src/data.h\<close>,
  \<^verbatim>\<open>obuf_reset\<close> and \<^verbatim>\<open>output_buffer_alloc\<close> of
  \<^verbatim>\<open>src/data.c\<close>. A buffer is a row of packet slots; a reset buffer holds a
  padding packet in every slot.
\<close>

section \<open>State\<close>

datatype obuf_status = obuf_empty | obuf_filling | obuf_full | obuf_emptying

record obuf =
  ob_buf :: bytes
  ob_size :: nat
  ob_written :: nat
  ob_status :: obuf_status

section \<open>Resetting\<close>

text \<open>
  The loop writes a packet header at every 188th byte below \<^verbatim>\<open>size\<close>. For a size that is not
  a multiple of 188 the last header could lie outside the buffer; the allocation below never
  makes such a size.
\<close>

function reset_headers :: "nat \<Rightarrow> nat \<Rightarrow> bytes \<Rightarrow> bytes" where
  "reset_headers sz i buf =
     (if i < sz then reset_headers sz (i + 188) (buf[i := 0x47, i + 1 := 0x1f, i + 2 := 0xff, i + 3 := 0x00])
      else buf)"
  by pat_completeness auto
termination by (relation "measure (\<lambda>(sz, i, _). sz - i)") auto

declare reset_headers.simps [simp del]

definition obuf_reset :: "obuf \<Rightarrow> obuf" where
  "obuf_reset ob =
     ob\<lparr> ob_buf := reset_headers (ob_size ob) 0 (blit (ob_buf ob) 0 (replicate (ob_size ob) 0xff)),
         ob_written := 0, ob_status := obuf_empty \<rparr>"

section \<open>Allocating\<close>

text \<open>
  \<^verbatim>\<open>output_buffer_alloc\<close>: the number of 1316-byte frames that hold
  \<^verbatim>\<open>obuf_ms\<close> milliseconds at the bit rate, computed in doubles. No bit rate
  is an exit. \<open>fresh\<close> is the content \<^verbatim>\<open>malloc\<close> returns.
\<close>

definition frames_per_sec :: "rat \<Rightarrow> int" where
  "frames_per_sec output_bitrate = c_ceil (dbl (output_bitrate / of_nat (FRAME_PACKET_SIZE * 8)))"

definition frames_per_obuf :: "int \<Rightarrow> nat \<Rightarrow> int" where
  "frames_per_obuf pps obuf_ms = c_ceil (dbl (dbl (of_int pps) / dbl (1000 / of_nat obuf_ms)))"

definition obuf_size_of :: "rat \<Rightarrow> nat \<Rightarrow> nat" where
  "obuf_size_of output_bitrate obuf_ms =
     nat (frames_per_obuf (frames_per_sec output_bitrate) obuf_ms * 1316)"

definition output_buffer_alloc :: "(nat \<Rightarrow> bytes) \<Rightarrow> nat \<Rightarrow> rat \<Rightarrow> (obuf \<times> obuf) option" where
  "output_buffer_alloc fresh obuf_ms output_bitrate =
     (if output_bitrate = 0 then None
      else
        (let obuf_size = obuf_size_of output_bitrate obuf_ms;
             ob0 = obuf_reset \<lparr> ob_buf = fresh obuf_size, ob_size = obuf_size, ob_written = 0,
                                ob_status = obuf_empty \<rparr>;
             ob1 = obuf_reset \<lparr> ob_buf = fresh (ob_size ob0), ob_size = obuf_size, ob_written = 0,
                                ob_status = obuf_empty \<rparr>
         in Some (ob0, ob1)))"

section \<open>Slots\<close>

text \<open>Slot \<open>k\<close> of a buffer, the padding packet, and a reset buffer as a whole.\<close>

definition slot :: "bytes \<Rightarrow> nat \<Rightarrow> bytes" where
  "slot buf k = bslice buf (k * TS_PACKET_SIZE) TS_PACKET_SIZE"

definition null_packet :: bytes where
  "null_packet = [0x47, 0x1f, 0xff, 0x00] @ replicate 184 0xff"

lemma length_null_packet [len_simps, simp]: "length null_packet = 188"
  by (simp add: null_packet_def)

text \<open>The shape of a buffer: whole frames, and as many bytes as its size says.\<close>

definition obuf_ok :: "obuf \<Rightarrow> bool" where
  "obuf_ok ob \<longleftrightarrow> length (ob_buf ob) = ob_size ob \<and> FRAME_PACKET_SIZE dvd ob_size ob"

definition all_null :: "obuf \<Rightarrow> bool" where
  "all_null ob \<longleftrightarrow> (\<forall>k < ob_size ob div TS_PACKET_SIZE. slot (ob_buf ob) k = null_packet)"

lemma slot_mult: "k < n div TS_PACKET_SIZE \<Longrightarrow> (k + 1) * TS_PACKET_SIZE \<le> n"
  by (metis Suc_eq_plus1 Suc_leI div_times_less_eq_dividend le_trans mult_le_mono1)

lemma length_slot [len_simps, simp]:
  "(k + 1) * TS_PACKET_SIZE \<le> length buf \<Longrightarrow> length (slot buf k) = TS_PACKET_SIZE"
  by (simp add: slot_def)

lemma slot_blit:
  assumes "length p = TS_PACKET_SIZE" and "(k + 1) * TS_PACKET_SIZE \<le> length buf"
  shows "slot (blit buf (k * TS_PACKET_SIZE) p) j = (if j = k then p else slot buf j)"
proof -
  consider "j = k" | "j + 1 \<le> k" | "k + 1 \<le> j" by linarith
  then show ?thesis
  proof cases
    case 1
    with assms show ?thesis by (simp add: slot_def)
  next
    case 2
    then have "(j + 1) * TS_PACKET_SIZE \<le> k * TS_PACKET_SIZE" by (rule mult_le_mono1)
    with 2 assms show ?thesis by (simp add: slot_def bslice_blit_before)
  next
    case 3
    then have "(k + 1) * TS_PACKET_SIZE \<le> j * TS_PACKET_SIZE" by (rule mult_le_mono1)
    with 3 assms show ?thesis by (simp add: slot_def bslice_blit_after)
  qed
qed

section \<open>A reset buffer is all padding\<close>

lemma length_reset_headers [len_simps, simp]: "length (reset_headers n i buf) = length buf"
  by (induction n i buf rule: reset_headers.induct) (subst reset_headers.simps, simp)

definition null_byte :: "nat \<Rightarrow> u8" where
  "null_byte j = null_packet ! (j mod 188)"

lemma null_byte_update:
  assumes "i mod 188 = 0"
  shows "null_byte i = 0x47" "null_byte (i + 1) = 0x1f" "null_byte (i + 2) = 0xff" "null_byte (i + 3) = 0x00"
proof -
  obtain q where "i = 188 * q" using assms by (auto elim: dvdE)
  then have "(i + k) mod 188 = k" if "k < 188" for k using that by simp
  from this [of 0] this [of 1] this [of 2] this [of 3]
  show "null_byte i = 0x47" "null_byte (i + 1) = 0x1f" "null_byte (i + 2) = 0xff" "null_byte (i + 3) = 0x00"
    by (simp_all add: null_byte_def null_packet_def)
qed

lemma reset_headers_nth:
  assumes "188 dvd n" "i mod 188 = 0" "length buf = n" "j < n"
    and "\<And>k. k < n \<Longrightarrow> buf ! k = (if k < i then null_byte k else 0xff)"
  shows "reset_headers n i buf ! j = null_byte j"
  using assms
proof (induction n i buf rule: reset_headers.induct)
  case (1 n i buf)
  show ?case
  proof (cases "i < n")
    case False
    with "1.prems" show ?thesis by (subst reset_headers.simps) simp
  next
    case True
    let ?b = "buf[i := 0x47, i + 1 := 0x1f, i + 2 := 0xff, i + 3 := 0x00]"
    have "188 dvd i" using "1.prems"(2) by auto
    with True "1.prems"(1) have le: "i + 188 \<le> n" by (auto elim!: dvdE)
    have new: "?b ! k = (if k < i + 188 then null_byte k else 0xff)" if k: "k < n" for k
    proof -
      consider "k < i" | "k = i" | "k = i + 1" | "k = i + 2" | "k = i + 3" | "i + 3 < k" by linarith
      then show ?thesis
      proof cases
        case 6
        have "null_byte k = 0xff" if "k < i + 188"
        proof -
          obtain q where q: "i = 188 * q" using \<open>188 dvd i\<close> by (auto elim: dvdE)
          define r where "r = k - i"
          have r: "k = r + i" "3 < r" "r < 188" using 6 that by (auto simp: r_def)
          then have "k mod 188 = r" by (simp add: q)
          with r show ?thesis
            by (simp add: null_byte_def null_packet_def nth_append nth_Cons')
        qed
        with 6 k "1.prems"(5) [OF k] show ?thesis by simp
      qed (use "1.prems"(3,5) null_byte_update [OF "1.prems"(2)] k le in \<open>auto simp: nth_list_update\<close>)
    qed
    have "reset_headers n (i + 188) ?b ! j = null_byte j"
      by (rule "1.IH" [OF True _ _ _ _ new]) (use "1.prems" in auto)
    then show ?thesis using True by (subst reset_headers.simps) simp
  qed
qed

lemma obuf_ok_dvd: "obuf_ok ob \<Longrightarrow> 188 dvd ob_size ob"
  by (auto simp: obuf_ok_def ts_sizes elim: dvd_trans [rotated])

lemma obuf_reset_ok [inv_intros]: "obuf_ok ob \<Longrightarrow> obuf_ok (obuf_reset ob)"
  by (simp add: obuf_ok_def obuf_reset_def)

lemma obuf_reset_fields [simp]:
  "ob_size (obuf_reset ob) = ob_size ob" "ob_written (obuf_reset ob) = 0"
  "ob_status (obuf_reset ob) = obuf_empty"
  by (simp_all add: obuf_reset_def)

lemma obuf_reset_null:
  assumes ok: "obuf_ok ob"
  shows "all_null (obuf_reset ob)"
  unfolding all_null_def
proof (intro allI impI)
  fix k
  assume "k < ob_size (obuf_reset ob) div TS_PACKET_SIZE"
  then have k: "(k + 1) * 188 \<le> ob_size ob" using slot_mult [of k "ob_size ob"] by (simp add: ts_sizes)
  have len: "length (ob_buf ob) = ob_size ob" using ok by (simp add: obuf_ok_def)
  have b: "ob_buf (obuf_reset ob) = reset_headers (ob_size ob) 0 (replicate (ob_size ob) 0xff)"
    by (simp add: obuf_reset_def blit_def len)
  have "ob_buf (obuf_reset ob) ! j = null_byte j" if "j < ob_size ob" for j
    unfolding b by (rule reset_headers_nth [OF obuf_ok_dvd [OF ok]]) (use that in auto)
  then show "slot (ob_buf (obuf_reset ob)) k = null_packet"
    using k by (intro nth_equalityI) (auto simp: slot_def nth_bslice b null_byte_def ts_sizes)
qed

section \<open>The size of the buffers\<close>

text \<open>
  The configuration rounds the bit rate up to whole frames per second
  (\<^verbatim>\<open>config_load\<close>), so the quotient below is exact and a buffer holds
  the ceiling of a tenth of the frames of a second: 100 ms of output.
\<close>

lemma frames_per_sec_exact:
  assumes "n \<le> 2 ^ 53"
  shows "frames_per_sec (of_nat (n * 10528)) = int n"
proof -
  have q: "(of_nat (n * 10528) :: rat) / of_nat (FRAME_PACKET_SIZE * 8) = of_nat n"
    by (simp add: ts_sizes)
  have "c_ceil (of_nat n) = int n" using c_ceil_int [of "int n"] by simp
  then show ?thesis unfolding frames_per_sec_def q dbl_nat [OF assms] .
qed

lemma dbl_10: "dbl 10 = 10"
  using dbl_int [of 10] by simp

lemma ceil_dbl_tenth:
  assumes "n \<le> 2 ^ 40"
  shows "c_ceil (dbl (of_nat n / 10)) = \<lceil>of_nat n / 10 :: rat\<rceil>"
proof -
  let ?x = "of_nat n / 10 :: rat"
  let ?m = "\<lceil>?x\<rceil>"
  have m: "0 \<le> ?m" by simp
  have mle: "?m \<le> 2 ^ 53"
  proof -
    have "(of_nat n :: rat) \<le> of_nat (2 ^ 40)" using assms by (simp only: of_nat_le_iff)
    then have "?x \<le> of_int (2 ^ 53)" by simp
    then show ?thesis by (simp add: ceiling_le_iff)
  qed
  have up: "dbl ?x \<le> of_int ?m"
    using dbl_mono [of ?x "of_int ?m"] dbl_int [of ?m] m mle by simp
  have lo: "of_int ?m - 1 < dbl ?x"
  proof (cases "n = 0")
    case False
    have fr: "of_int ?m - 1 \<le> ?x - 1 / 10"
    proof -
      have "of_int ?m < ?x + 1" using ceiling_correct [of ?x] by linarith
      then have "of_int (10 * ?m) < (of_int (int n + 10) :: rat)" by simp
      then have "10 * ?m < int n + 10" by (simp only: of_int_less_iff)
      then have "10 * ?m \<le> int n + 9" by simp
      then have "of_int (10 * ?m) \<le> (of_int (int n + 9) :: rat)" by (simp only: of_int_le_iff)
      then show ?thesis by simp
    qed
    have "(of_nat n :: rat) \<le> of_nat (2 ^ 40)" using assms by (simp only: of_nat_le_iff)
    then have "\<bar>?x\<bar> / 2 ^ 53 < 1 / 10" by (simp add: field_simps)
    with dbl_err [of ?x] have "\<bar>dbl ?x - ?x\<bar> < 1 / 10" by linarith
    with fr show ?thesis by linarith
  qed simp
  show ?thesis unfolding c_ceil_def using up lo by (simp add: ceiling_unique)
qed

lemma obuf_size_exact:
  assumes "n \<le> 2 ^ 40"
  shows "obuf_size_of (of_nat (n * 10528)) 100 = ((n + 9) div 10) * 1316"
proof -
  have n: "n \<le> 2 ^ 53" using assms by simp
  have "frames_per_obuf (int n) 100 = \<lceil>of_nat n / 10 :: rat\<rceil>"
    using dbl_nat [OF n] ceil_dbl_tenth [OF assms] by (simp add: frames_per_obuf_def dbl_10)
  also have "\<dots> = int ((n + 9) div 10)"
  proof (rule ceiling_unique)
    have "(n + 9) div 10 * 10 < n + 10" "n \<le> (n + 9) div 10 * 10" by presburger+
    then have "(of_nat ((n + 9) div 10 * 10) :: rat) < of_nat (n + 10)"
      "(of_nat n :: rat) \<le> of_nat ((n + 9) div 10 * 10)" by (simp_all only: of_nat_less_iff of_nat_le_iff)
    then show "rat_of_int (int ((n + 9) div 10)) - 1 < of_nat n / 10"
      "of_nat n / 10 \<le> rat_of_int (int ((n + 9) div 10))"
      by (simp_all add: field_simps)
  qed
  finally show ?thesis unfolding obuf_size_of_def frames_per_sec_exact [OF n] by simp
qed

lemma output_buffer_alloc_ok:
  assumes "\<And>n. length (fresh n) = n" and "output_buffer_alloc fresh ms rate = Some (ob0, ob1)"
  shows "obuf_ok ob0 \<and> obuf_ok ob1 \<and> all_null ob0 \<and> all_null ob1 \<and>
         ob_status ob0 = obuf_empty \<and> ob_status ob1 = obuf_empty \<and>
         ob_size ob0 = obuf_size_of rate ms \<and> ob_size ob1 = obuf_size_of rate ms"
proof -
  have dvd: "FRAME_PACKET_SIZE dvd obuf_size_of rate ms"
    by (cases "frames_per_obuf (frames_per_sec rate) ms \<ge> 0")
      (auto simp: obuf_size_of_def ts_sizes nat_mult_distrib)
  have "obuf_ok \<lparr>ob_buf = fresh (obuf_size_of rate ms), ob_size = obuf_size_of rate ms, ob_written = 0,
                 ob_status = obuf_empty\<rparr>"
    using assms(1) dvd by (simp add: obuf_ok_def)
  with assms(2) show ?thesis
    by (auto simp: output_buffer_alloc_def Let_def obuf_reset_ok obuf_reset_null split: if_splits)
qed

lemma buffers_tenth:
  assumes "\<And>k. length (fresh k) = k" and "0 < n" and "n \<le> 2 ^ 40"
  shows "case output_buffer_alloc fresh 100 (of_nat (n * 10528)) of
     Some (ob0, ob1) \<Rightarrow> ob_size ob0 = ((n + 9) div 10) * 1316 \<and> ob_size ob1 = ob_size ob0 \<and>
       obuf_ok ob0 \<and> obuf_ok ob1 \<and> all_null ob0 \<and> all_null ob1 \<and>
       ob_status ob0 = obuf_empty \<and> ob_status ob1 = obuf_empty
   | None \<Rightarrow> False"
proof -
  have nz: "(of_nat (n * 10528) :: rat) \<noteq> 0" using assms(2) by (simp only: of_nat_eq_0_iff)
  obtain ob0 ob1 where a: "output_buffer_alloc fresh 100 (of_nat (n * 10528)) = Some (ob0, ob1)"
    unfolding output_buffer_alloc_def Let_def using nz by (simp only: if_False)
  from output_buffer_alloc_ok [OF assms(1) a] show ?thesis
    unfolding a obuf_size_exact [OF assms(3)] by simp
qed

section \<open>Properties\<close>

text \<open>
  Both output buffers hold a tenth of a second: at \<open>n\<close> frames per second, which is what the
  configuration makes of the bit rate, each has the ceiling of \<open>n / 10\<close> frames (the double
  arithmetic is exact here), all of them padding, and is free for the mixing thread.
\<close>

theorem output_buffers_tenth:
  assumes "\<And>k. length (fresh k) = k" and "0 < n" and "n \<le> 2 ^ 40"
  shows "case output_buffer_alloc fresh 100 (of_nat (n * 10528)) of
     Some (ob0, ob1) \<Rightarrow> ob_size ob0 = ((n + 9) div 10) * 1316 \<and> ob_size ob1 = ob_size ob0 \<and>
       obuf_ok ob0 \<and> obuf_ok ob1 \<and> all_null ob0 \<and> all_null ob1 \<and>
       ob_status ob0 = obuf_empty \<and> ob_status ob1 = obuf_empty
   | None \<Rightarrow> False"
  using assms by (rule buffers_tenth)

theorem output_buffers_tenth_witness:
  "case output_buffer_alloc (\<lambda>k. replicate k 7) 100 (of_nat (3610 * 10528)) of
     Some (ob0, ob1) \<Rightarrow> ob_size ob0 = 361 * 1316 \<and> all_null ob1 | None \<Rightarrow> False"
  using output_buffers_tenth [of "\<lambda>k. replicate k 7" 3610]
  by (auto split: option.splits simp del: of_nat_mult)

text \<open>Resetting any buffer of whole frames leaves a padding packet in every slot and marks it empty.\<close>

theorem obuf_reset_all_null:
  assumes "obuf_ok ob"
  shows "all_null (obuf_reset ob) \<and> obuf_ok (obuf_reset ob) \<and> ob_written (obuf_reset ob) = 0 \<and>
         ob_status (obuf_reset ob) = obuf_empty"
  using obuf_reset_null [OF assms] obuf_reset_ok [OF assms] by simp

theorem obuf_reset_all_null_witness:
  "all_null (obuf_reset \<lparr> ob_buf = replicate 1316 0, ob_size = 1316, ob_written = 5, ob_status = obuf_emptying \<rparr>)"
  using obuf_reset_all_null [of "\<lparr> ob_buf = replicate 1316 0, ob_size = 1316, ob_written = 5, ob_status = obuf_emptying \<rparr>"]
  by (simp add: obuf_ok_def ts_sizes)

end
