(* ===== verification/Cbuf.thy ===== *)
theory Cbuf
  imports Tspacket
begin

text \<open>
  The circular byte buffers (\<^verbatim>\<open>CBUF\<close>) that carry packets from the input
  threads and the PSI thread to the mixing thread. They belong to libfuncs, which is not part
  of the repository: their operations are a parameter of the model, with the behaviour the
  callers rely on as the predicate \<open>cbuf_ok\<close>. A queue of bytes shows that the
  hypothesis can hold.
\<close>

section \<open>The operations\<close>

text \<open>
  \<open>cb_get b n\<close> and \<open>cb_peek b n\<close> give the data pointer and the size
  returned through the last argument; \<open>cb_fill\<close> gives zero when the data was stored.
  \<open>cb_input\<close> and \<open>cb_output\<close> are the byte counters the code subtracts.
\<close>

record 'b cbuf_ops =
  cb_fill :: "'b \<Rightarrow> bytes \<Rightarrow> int \<times> 'b"
  cb_get :: "'b \<Rightarrow> nat \<Rightarrow> bytes option \<times> nat \<times> 'b"
  cb_peek :: "'b \<Rightarrow> nat \<Rightarrow> bytes option \<times> nat"
  cb_input :: "'b \<Rightarrow> nat"
  cb_output :: "'b \<Rightarrow> nat"
  cb_size :: "'b \<Rightarrow> nat"

text \<open>
  Documented behaviour, for the stored bytes \<open>cont b\<close>: a request that can be served
  in full is; a request that cannot be served in full reports another size, and either
  leaves the bytes or hands them all out; a fill stores all or nothing.
\<close>

definition cbuf_ok :: "'b cbuf_ops \<Rightarrow> ('b \<Rightarrow> bytes) \<Rightarrow> bool" where
  "cbuf_ok C cont \<longleftrightarrow>
     (\<forall>b n d m b' p k xs f b''.
        cb_output C b + length (cont b) = cb_input C b \<and>
        (cb_get C b n = (d, m, b') \<longrightarrow>
           (if n \<le> length (cont b) then d = Some (take n (cont b)) \<and> m = n \<and> cont b' = drop n (cont b)
            else m < n \<and> (cont b' = cont b \<or> cont b' = []))) \<and>
        (cb_peek C b n = (p, k) \<longrightarrow>
           (if n \<le> length (cont b) then p = Some (take n (cont b)) \<and> k = n else k < n)) \<and>
        (cb_fill C b xs = (f, b'') \<longrightarrow> cont b'' = (if f = 0 then cont b @ xs else cont b)))"

lemma cbuf_counters: "cbuf_ok C cont \<Longrightarrow> cb_input C b - cb_output C b = length (cont b)"
  unfolding cbuf_ok_def by (metis add_diff_cancel_left')

lemma cbuf_getD:
  assumes "cbuf_ok C cont" and "cb_get C b n = (d, m, b')"
  shows "n \<le> length (cont b) \<Longrightarrow> d = Some (take n (cont b)) \<and> m = n \<and> cont b' = drop n (cont b)"
    and "length (cont b) < n \<Longrightarrow> m < n \<and> (cont b' = cont b \<or> cont b' = [])"
  using assms(1)[unfolded cbuf_ok_def, rule_format, of b n d m b'] assms(2) by auto

lemma cbuf_peekD:
  assumes "cbuf_ok C cont" and "cb_peek C b n = (p, k)"
  shows "n \<le> length (cont b) \<Longrightarrow> p = Some (take n (cont b)) \<and> k = n"
    and "length (cont b) < n \<Longrightarrow> k < n"
  using assms(1)[unfolded cbuf_ok_def, rule_format, of b n _ _ _ p k] assms(2) by auto

lemma cbuf_fillD:
  assumes "cbuf_ok C cont" and "cb_fill C b xs = (f, b'')"
  shows "cont b'' = (if f = 0 then cont b @ xs else cont b)"
  using assms(1)[unfolded cbuf_ok_def, rule_format, of b _ _ _ _ _ _ xs f b''] assms(2) by auto

section \<open>Whole packets\<close>

text \<open>The callers only store whole packets: then a short get finds the buffer empty.\<close>

definition aligned :: "('b \<Rightarrow> bytes) \<Rightarrow> 'b \<Rightarrow> bool" where
  "aligned cont b \<longleftrightarrow> TS_PACKET_SIZE dvd length (cont b)"

lemma aligned_short: "aligned cont b \<Longrightarrow> length (cont b) < TS_PACKET_SIZE \<Longrightarrow> cont b = []"
  unfolding aligned_def using nat_dvd_not_less by fastforce

text \<open>A get of one packet from an aligned buffer.\<close>

lemma cbuf_get_packet:
  assumes "cbuf_ok C cont" "cb_get C b TS_PACKET_SIZE = (d, m, b')" "aligned cont b"
  shows "aligned cont b' \<and>
    (if cont b = [] then m \<noteq> TS_PACKET_SIZE \<and> cont b' = []
     else \<exists>p. d = Some p \<and> is_packet p \<and> m = TS_PACKET_SIZE \<and> cont b = p @ cont b')"
proof (cases "cont b = []")
  case True
  with cbuf_getD(2) [OF assms(1,2)] show ?thesis by (auto simp: aligned_def ts_sizes)
next
  case False
  with aligned_short [OF assms(3)] have le: "TS_PACKET_SIZE \<le> length (cont b)" by force
  note g = cbuf_getD(1) [OF assms(1,2) le]
  have "TS_PACKET_SIZE dvd length (cont b) - TS_PACKET_SIZE"
    using assms(3) by (simp add: aligned_def)
  moreover have "is_packet (take TS_PACKET_SIZE (cont b))" using le by (simp add: is_packet_def)
  ultimately show ?thesis using False g by (auto simp: aligned_def)
qed

lemma cbuf_peek_packet:
  assumes "cbuf_ok C cont" "cb_peek C b TS_PACKET_SIZE = (d, m)" "aligned cont b"
  shows "if cont b = [] then m \<noteq> TS_PACKET_SIZE
     else m = TS_PACKET_SIZE \<and> d = Some (take TS_PACKET_SIZE (cont b))"
proof (cases "cont b = []")
  case True
  with cbuf_peekD(2) [OF assms(1,2)] show ?thesis by (auto simp: ts_sizes)
next
  case False
  with aligned_short [OF assms(3)] have "TS_PACKET_SIZE \<le> length (cont b)" by force
  with cbuf_peekD(1) [OF assms(1,2)] False show ?thesis by simp
qed

text \<open>What a writer does to a buffer: it adds whole packets at the end.\<close>

definition grows :: "('b \<Rightarrow> bytes) \<Rightarrow> 'b \<Rightarrow> 'b \<Rightarrow> bool" where
  "grows cont b b' \<longleftrightarrow> (\<exists>d. cont b' = cont b @ d \<and> TS_PACKET_SIZE dvd length d)"

lemma grows_refl [simp, intro]: "grows cont b b"
  by (simp add: grows_def)

lemma grows_trans: "grows cont a b \<Longrightarrow> grows cont b c \<Longrightarrow> grows cont a c"
  by (auto simp: grows_def)

lemma grows_aligned: "grows cont b b' \<Longrightarrow> aligned cont b \<Longrightarrow> aligned cont b'"
  by (auto simp: grows_def aligned_def)

section \<open>A queue of bytes\<close>

record queue =
  q_bytes :: bytes
  q_out :: nat
  q_cap :: nat

definition queue_ops :: "queue cbuf_ops" where
  "queue_ops =
     \<lparr> cb_fill = (\<lambda>b xs. if length (q_bytes b) + length xs \<le> q_cap b
                        then (0, b\<lparr> q_bytes := q_bytes b @ xs \<rparr>) else (1, b)),
       cb_get = (\<lambda>b n. if n \<le> length (q_bytes b)
                       then (Some (take n (q_bytes b)), n,
                             b\<lparr> q_bytes := drop n (q_bytes b), q_out := q_out b + n \<rparr>)
                       else (None, 0, b)),
       cb_peek = (\<lambda>b n. if n \<le> length (q_bytes b) then (Some (take n (q_bytes b)), n) else (None, 0)),
       cb_input = (\<lambda>b. q_out b + length (q_bytes b)), cb_output = q_out, cb_size = q_cap \<rparr>"

lemma queue_ops_ok: "cbuf_ok queue_ops q_bytes"
  by (auto simp: cbuf_ok_def queue_ops_def split: if_splits)

end
