(* ===== verification/Mix.thy ===== *)
theory Mix
  imports Obuf Cbuf
begin

text \<open>
  The mixing thread, \<^verbatim>\<open>src/output_mix.c\<close>: it fills one output buffer from
  the PSI buffer and the inputs' buffers. PSI packets go first; then the inputs take turns;
  padding packets of the inputs are dropped; padding is spread evenly between the data; in
  PCR modes 1 and 3 a packet that carries a PCR waits for its place.
\<close>

section \<open>State\<close>

text \<open>
  The part of \<^verbatim>\<open>INPUT\<close> (\<^verbatim>\<open>src/data.h\<close>) the thread uses. The buffer is made by
  \<^verbatim>\<open>input_new\<close> and never NULL while the input is on the list: the first
  loop over the inputs reads it without a check.
\<close>

record 'b mix_in =
  in_buf :: 'b
  output_pcr_pid :: u16
  output_last_pcr :: u64
  output_pcr :: u64
  output_pcr_packets_needed :: int
  outputed_packets :: int
  input_ready :: int

text \<open>
  Configuration, the libraries, and \<open>oob\<close>, the value of a conversion from double to int
  that is out of range (undefined in C).
\<close>

record 'b mix_env =
  me_ts :: ts_ops
  me_cb :: "'b cbuf_ops"
  me_pcr_mode :: int
  me_bitrate :: rat
  me_max :: nat
  me_oob :: "int \<Rightarrow> int"

text \<open>
  The list of inputs is circular with an empty root node: node 0 is the root, node \<open>k + 1\<close>
  the input at index \<open>k\<close>; \<open>m_inpt\<close> is the node last used.
\<close>

record ('b, 'z) mix_state =
  m_psi :: 'b
  m_inputs :: "('b, 'z) mix_in_scheme list"
  m_inpt :: nat
  m_data :: "bytes option"
  m_size :: nat
  m_read :: nat

section \<open>Operations\<close>

definition show_program :: "('b, 'z) mix_in_scheme \<Rightarrow> ('b, 'z) mix_in_scheme" where
  "show_program r = (if input_ready r = 1 then r\<lparr> input_ready := input_ready r + 1 \<rparr> else r)"

definition output_show_programs :: "('b, 'z) mix_in_scheme list \<Rightarrow> ('b, 'z) mix_in_scheme list" where
  "output_show_programs = map show_program"

text \<open>Packets wanted between two PCRs of an input at the output bit rate.\<close>

definition INT_HALF :: int where
  "INT_HALF = 1073741823"

definition pcr_packets_needed :: "'b mix_env \<Rightarrow> u64 \<Rightarrow> u64 \<Rightarrow> int" where
  "pcr_packets_needed e pcr last_pcr =
     (let rate = dbl (dbl (dbl (me_bitrate e / 8) / 27000000) / 188);
          x = c_round (dbl (rate * dbl (of_nat (unat (pcr - last_pcr))))) - 1;
          n = (if - (2 ^ 31) \<le> x \<and> x < 2 ^ 31 then x else me_oob e x);
          bound = (if int (me_max e) < INT_HALF then int (me_max e) else INT_HALF)
      in if n > bound then bound else if n < 0 then 0 else n)"

text \<open>
  One visit of an input: the new input, the data pointer and size, whether the visit counts
  as a read, and whether the scan stops with this packet.
\<close>

definition mix_get ::
  "'b mix_env \<Rightarrow> ('b, 'z) mix_in_scheme \<Rightarrow> ('b, 'z) mix_in_scheme \<times> bytes option \<times> nat \<times> nat \<times> bool"
where
  "mix_get e r =
     (case cb_get (me_cb e) (in_buf r) TS_PACKET_SIZE of (data, sz, b') \<Rightarrow>
        (let r' = r\<lparr> in_buf := b' \<rparr> in
         if sz = TS_PACKET_SIZE then
           (if unat (ts_get_pid (me_ts e) (the data)) < 0x1fff then (r', data, sz, 1, True)
            else (r', None, 0, 1, False))
         else (r', data, sz, 1, False)))"

definition mix_visit ::
  "'b mix_env \<Rightarrow> ('b, 'z) mix_in_scheme \<Rightarrow> ('b, 'z) mix_in_scheme \<times> bytes option \<times> nat \<times> nat \<times> bool"
where
  "mix_visit e r =
     (if me_pcr_mode e = 1 \<or> me_pcr_mode e = 3 then
        (case cb_peek (me_cb e) (in_buf r) TS_PACKET_SIZE of (data, sz) \<Rightarrow>
           if sz = TS_PACKET_SIZE then
             (let p = the data; pid = ts_get_pid (me_ts e) p in
              if pid = output_pcr_pid r \<and> ts_has_pcr (me_ts e) p then
                (let pcr = ts_get_pcr (me_ts e) p;
                     needed = (if output_last_pcr r \<noteq> 0 \<and> output_pcr_packets_needed r \<le> 0
                               then pcr_packets_needed e pcr (output_last_pcr r)
                               else output_pcr_packets_needed r);
                     r1 = r\<lparr> output_pcr_packets_needed := needed \<rparr>
                 in if needed > 0 \<and> outputed_packets r1 < needed then (r1, None, 0, 1, False)
                    else mix_get e (r1\<lparr> output_pcr := pcr, output_last_pcr := pcr,
                                        output_pcr_packets_needed := 0, outputed_packets := 0 \<rparr>))
              else mix_get e r)
           else (r, data, sz, 0, False))
      else mix_get e r)"

text \<open>The next node with data: the root is skipped.\<close>

definition next_node :: "nat \<Rightarrow> nat \<Rightarrow> nat" where
  "next_node n c = (if c < n then c + 1 else 1)"

fun mix_scan :: "'b mix_env \<Rightarrow> nat \<Rightarrow> ('b, 'z) mix_state \<Rightarrow> ('b, 'z) mix_state" where
  "mix_scan e 0 st = st"
| "mix_scan e (Suc inputs_left) st =
     (let c = next_node (length (m_inputs st)) (m_inpt st) in
      case mix_visit e (m_inputs st ! (c - 1)) of (r', data, sz, rd, stop) \<Rightarrow>
        (let st' = st\<lparr> m_inpt := c, m_inputs := (m_inputs st)[c - 1 := r'], m_data := data,
                       m_size := sz, m_read := m_read st + rd \<rparr>
         in if stop then st' else mix_scan e inputs_left st'))"

text \<open>The data of one slot: the PSI data first. True when nothing was read: the slot is tried again.\<close>

definition mix_next :: "'b mix_env \<Rightarrow> ('b, 'z) mix_state \<Rightarrow> ('b, 'z) mix_state \<times> bool" where
  "mix_next e st =
     (case cb_get (me_cb e) (m_psi st) TS_PACKET_SIZE of (data, sz, psi') \<Rightarrow>
        (let st1 = st\<lparr> m_psi := psi', m_data := data, m_size := sz \<rparr> in
         if data \<noteq> None \<and> sz = TS_PACKET_SIZE then (st1, False)
         else
           (let st2 = mix_scan e (length (m_inputs st1)) (st1\<lparr> m_read := 0 \<rparr>)
            in (st2, m_read st2 = 0))))"

text \<open>The number of padding packets before data packet \<open>dp\<close>.\<close>

definition mix_nulls :: "rat \<Rightarrow> rat \<Rightarrow> nat \<Rightarrow> nat \<Rightarrow> nat \<Rightarrow> nat" where
  "mix_nulls data_per_null null_per_data null_packets_count dp nulls =
     (if nulls < null_packets_count then
        (let a = c_round (dbl (of_nat nulls * data_per_null));
             b = c_round (dbl (of_nat dp * null_per_data));
             n = (if a < b then nat (int nulls + (b - a)) else nulls)
         in if n > null_packets_count then null_packets_count else n)
      else nulls)"

text \<open>One packet sent by anybody: every input's counter (an int that wraps) goes up.\<close>

definition bump :: "int \<Rightarrow> ('b, 'z) mix_in_scheme \<Rightarrow> ('b, 'z) mix_in_scheme" where
  "bump k r = r\<lparr> outputed_packets := to_int32 (outputed_packets r + k) \<rparr>"

record mix_plan =
  mp_packets :: nat
  mp_nulls :: nat
  mp_dpn :: rat
  mp_npd :: rat

text \<open>
  The filling loop. \<open>die t\<close> tells whether the \<open>t\<close>-th test of
  \<^verbatim>\<open>dienow\<close> finds it set. The loop may retry for ever: not returning is None.
\<close>

partial_function (option) mix_loop ::
  "'b mix_env \<Rightarrow> (nat \<Rightarrow> bool) \<Rightarrow> mix_plan \<Rightarrow> nat \<Rightarrow> nat \<Rightarrow> nat \<Rightarrow> bytes \<Rightarrow> ('b, 'z) mix_state \<Rightarrow>
   (nat \<times> nat \<times> bytes \<times> ('b, 'z) mix_state) option"
where
  "mix_loop e die pl t dp nulls buf st =
     (if \<not> dp < mp_packets pl \<or> die t then Some (dp, nulls, buf, st)
      else
        (case mix_next e st of (st1, retry) \<Rightarrow>
           if retry then mix_loop e die pl (t + 1) dp nulls buf st1
           else
             (let st2 = st1\<lparr> m_inputs := map (bump 1) (m_inputs st1) \<rparr> in
              if m_data st1 \<noteq> None \<and> m_size st1 = TS_PACKET_SIZE then
                (let nulls' = mix_nulls (mp_dpn pl) (mp_npd pl) (mp_nulls pl) dp nulls in
                 if dp + nulls' \<ge> me_max e then Some (dp, nulls', buf, st1)
                 else mix_loop e die pl (t + 1) (dp + 1) nulls'
                        (blit buf ((dp + nulls') * TS_PACKET_SIZE) (the (m_data st1))) st2)
              else mix_loop e die pl (t + 1) (dp + 1) nulls buf st2)))"


text \<open>The plan of one buffer: how many data packets, and how padding is spread.\<close>

definition mix_datasize :: "'b mix_env \<Rightarrow> ('b, 'z) mix_state \<Rightarrow> nat" where
  "mix_datasize e st =
     foldl (\<lambda>n r. (n + (cb_input (me_cb e) (in_buf r) - cb_output (me_cb e) (in_buf r))) mod 2 ^ 32)
       ((cb_input (me_cb e) (m_psi st) - cb_output (me_cb e) (m_psi st)) mod 2 ^ 32) (m_inputs st)"

definition mix_plan_of :: "'b mix_env \<Rightarrow> nat \<Rightarrow> mix_plan" where
  "mix_plan_of e o_datasize =
     (let packets = min (o_datasize div TS_PACKET_SIZE) (me_max e);
          nl = me_max e - packets;
          dpn = dbl (of_nat packets / of_nat nl);
          (d, n) = (if nl = 0 then (0, 1)
                    else if dpn < 1 then (1, dbl (of_nat nl / of_nat packets))
                    else (dpn, 1))
      in \<lparr> mp_packets = packets, mp_nulls = nl, mp_dpn = d, mp_npd = n \<rparr>)"

text \<open>
  Filling one buffer, from \<^verbatim>\<open>list_lock\<close> to \<^verbatim>\<open>NEXT_BUFFER\<close>. Without
  data the buffer is sent as it is: all padding.
\<close>

definition mix_fill ::
  "'b mix_env \<Rightarrow> (nat \<Rightarrow> bool) \<Rightarrow> ('b, 'z) mix_state \<Rightarrow> obuf \<Rightarrow> (('b, 'z) mix_state \<times> obuf) option"
where
  "mix_fill e die st ob =
     (let pl = mix_plan_of e (mix_datasize e st); ob1 = ob\<lparr> ob_status := obuf_filling \<rparr> in
      if mp_nulls pl = me_max e then
        Some (st\<lparr> m_inputs := map (bump (int (me_max e))) (m_inputs st) \<rparr>, ob1\<lparr> ob_status := obuf_full \<rparr>)
      else
        (case mix_loop e die pl 0 0 0 (ob_buf ob1) st of
           None \<Rightarrow> None
         | Some (_, _, buf', st') \<Rightarrow> Some (st', ob1\<lparr> ob_buf := buf', ob_status := obuf_full \<rparr>)))"

section \<open>Padding stays within its count\<close>

lemma mix_nulls_bounds:
  assumes "nulls \<le> k"
  shows "nulls \<le> mix_nulls d n k dp nulls" and "mix_nulls d n k dp nulls \<le> k"
  using assms by (auto simp: mix_nulls_def Let_def)

lemma mix_plan_total: "mp_packets (mix_plan_of e n) + mp_nulls (mix_plan_of e n) = me_max e"
  by (simp add: mix_plan_of_def Let_def)

section \<open>What an input loses\<close>

text \<open>
  From buffer \<open>a\<close> to \<open>b\<close> whole packets were taken in order; \<open>sent\<close> are those that are not padding.
\<close>

definition fed :: "ts_ops \<Rightarrow> ('b \<Rightarrow> bytes) \<Rightarrow> 'b \<Rightarrow> 'b \<Rightarrow> bytes list \<Rightarrow> bool" where
  "fed T cont a b sent \<longleftrightarrow>
     (\<exists>taken. cont a = concat taken @ cont b \<and> (\<forall>p \<in> set taken. is_packet p) \<and>
        sent = filter (\<lambda>p. unat (ts_get_pid T p) < 0x1fff) taken)"

lemma fed_refl [simp]: "fed T cont a a []"
  by (auto simp: fed_def intro!: exI [of _ "[]"])

lemma fed_trans:
  assumes "fed T cont a b xs" and "fed T cont b c ys"
  shows "fed T cont a c (xs @ ys)"
proof -
  obtain t1 t2 where "cont a = concat t1 @ cont b" "cont b = concat t2 @ cont c"
    "\<forall>p \<in> set t1. is_packet p" "\<forall>p \<in> set t2. is_packet p"
    "xs = filter (\<lambda>p. unat (ts_get_pid T p) < 0x1fff) t1"
    "ys = filter (\<lambda>p. unat (ts_get_pid T p) < 0x1fff) t2"
    using assms unfolding fed_def by blast
  then show ?thesis unfolding fed_def by (intro exI [of _ "t1 @ t2"]) auto
qed

lemma fed_one:
  "cont a = p @ cont b \<Longrightarrow> is_packet p \<Longrightarrow>
   fed T cont a b (if unat (ts_get_pid T p) < 0x1fff then [p] else [])"
  unfolding fed_def by (intro exI [of _ "[p]"]) auto

text \<open>A modes-with-PCR-move test that several proofs split on.\<close>

abbreviation moves_pcr :: "'b mix_env \<Rightarrow> bool" where
  "moves_pcr e \<equiv> me_pcr_mode e = 1 \<or> me_pcr_mode e = 3"

lemma mix_get_fed:
  assumes "cbuf_ok (me_cb e) cont" "aligned cont (in_buf r)" "mix_get e r = (r', d, sz, rd, stop)"
  shows "aligned cont (in_buf r') \<and> (stop \<longleftrightarrow> d \<noteq> None \<and> sz = TS_PACKET_SIZE) \<and> rd = 1 \<and>
         (stop \<longrightarrow> is_packet (the d)) \<and>
         fed (me_ts e) cont (in_buf r) (in_buf r') (if stop then [the d] else [])"
proof -
  obtain d1 m1 b1 where g: "cb_get (me_cb e) (in_buf r) TS_PACKET_SIZE = (d1, m1, b1)"
    by (metis prod_cases3)
  note G = cbuf_get_packet [OF assms(1) g assms(2)]
  show ?thesis
  proof (cases "cont (in_buf r) = []")
    case True
    with G assms(3) show ?thesis
      by (auto simp: mix_get_def g Let_def fed_def intro!: exI [of _ "[]"] split: if_splits)
  next
    case False
    with G obtain p where p: "d1 = Some p" "is_packet p" "m1 = TS_PACKET_SIZE"
      "cont (in_buf r) = p @ cont b1" "aligned cont b1" by auto
    have "fed (me_ts e) cont (in_buf r) b1 (if unat (ts_get_pid (me_ts e) p) < 0x1fff then [p] else [])"
      using p by (intro fed_one)
    moreover have "TS_PACKET_SIZE \<noteq> 0" by (simp add: ts_sizes)
    ultimately show ?thesis using p assms(3)
      by (auto simp: mix_get_def g Let_def split: if_splits)
  qed
qed

lemma mix_visit_fed:
  assumes "cbuf_ok (me_cb e) cont" "aligned cont (in_buf r)" "mix_visit e r = (r', d, sz, rd, stop)"
  shows "aligned cont (in_buf r') \<and> (stop \<longleftrightarrow> d \<noteq> None \<and> sz = TS_PACKET_SIZE) \<and>
         (stop \<longrightarrow> is_packet (the d)) \<and> rd \<le> 1 \<and>
         fed (me_ts e) cont (in_buf r) (in_buf r') (if stop then [the d] else []) \<and>
         (rd = 0 \<longrightarrow> moves_pcr e \<and> r' = r \<and> cont (in_buf r) = [] \<and> \<not> stop) \<and>
         (moves_pcr e \<longrightarrow> cont (in_buf r) = [] \<longrightarrow> rd = 0)"
proof (cases "moves_pcr e")
  case False
  with assms mix_get_fed [OF assms(1,2)] show ?thesis by (auto simp: mix_visit_def)
next
  case True
  obtain d1 m1 where pk: "cb_peek (me_cb e) (in_buf r) TS_PACKET_SIZE = (d1, m1)" by fastforce
  note P = cbuf_peek_packet [OF assms(1) pk assms(2)]
  show ?thesis
  proof (cases "cont (in_buf r) = []")
    case 1: True
    with P True assms(2,3) show ?thesis by (auto simp: mix_visit_def pk)
  next
    case False
    have upd: "aligned cont (in_buf r') \<and> (stop \<longleftrightarrow> d \<noteq> None \<and> sz = TS_PACKET_SIZE) \<and> rd = 1 \<and>
         (stop \<longrightarrow> is_packet (the d)) \<and>
         fed (me_ts e) cont (in_buf r) (in_buf r') (if stop then [the d] else [])"
      if m: "mix_get e x = (r', d, sz, rd, stop)" and x: "in_buf x = in_buf r" for x
      using mix_get_fed [OF assms(1) _ m] assms(2) unfolding x by blast
    have ne: "TS_PACKET_SIZE \<noteq> 0" by (simp add: ts_sizes)
    let ?p = "take TS_PACKET_SIZE (cont (in_buf r))"
    let ?pcr = "ts_get_pcr (me_ts e) ?p"
    let ?nd = "if output_last_pcr r \<noteq> 0 \<and> output_pcr_packets_needed r \<le> 0
               then pcr_packets_needed e ?pcr (output_last_pcr r) else output_pcr_packets_needed r"
    let ?r1 = "r\<lparr> output_pcr_packets_needed := ?nd \<rparr>"
    have v: "mix_visit e r =
      (if ts_get_pid (me_ts e) ?p = output_pcr_pid r \<and> ts_has_pcr (me_ts e) ?p then
         (if ?nd > 0 \<and> outputed_packets ?r1 < ?nd then (?r1, None, 0, 1, False)
          else mix_get e (?r1\<lparr> output_pcr := ?pcr, output_last_pcr := ?pcr,
                 output_pcr_packets_needed := 0, outputed_packets := 0 \<rparr>))
       else mix_get e r)"
      using P False True by (simp add: mix_visit_def pk Let_def)
    consider "mix_visit e r = (?r1, None, 0, 1, False)"
      | x where "mix_get e x = (r', d, sz, rd, stop)" "in_buf x = in_buf r"
      using assms(3) v by (auto split: if_splits)
    then show ?thesis
    proof cases
      case 1
      with assms(2,3) False ne show ?thesis by auto
    next
      case 2
      with upd [OF 2] False show ?thesis by auto
    qed
  qed
qed

section \<open>One slot\<close>

text \<open>
  A trace lists the packets taken, each with its origin: 0 for the PSI buffer, \<open>k + 1\<close> for
  the input at index \<open>k\<close>.
\<close>

definition from_origin :: "nat \<Rightarrow> (nat \<times> bytes) list \<Rightarrow> bytes list" where
  "from_origin k ps = map snd (filter (\<lambda>x. fst x = k) ps)"

lemma from_origin_simps [simp]:
  "from_origin k [] = []"
  "from_origin k (x # ps) = (if fst x = k then [snd x] else []) @ from_origin k ps"
  "from_origin k (ps @ qs) = from_origin k ps @ from_origin k qs"
  by (simp_all add: from_origin_def)

definition trace_ok ::
  "ts_ops \<Rightarrow> ('b \<Rightarrow> bytes) \<Rightarrow> ('b, 'z) mix_state \<Rightarrow> ('b, 'z) mix_state \<Rightarrow> (nat \<times> bytes) list \<Rightarrow> bool"
where
  "trace_ok T cont st st' ps \<longleftrightarrow>
     length (m_inputs st') = length (m_inputs st) \<and>
     cont (m_psi st) = concat (from_origin 0 ps) @ cont (m_psi st') \<and>
     (\<forall>k < length (m_inputs st). fed T cont (in_buf (m_inputs st ! k)) (in_buf (m_inputs st' ! k))
        (from_origin (Suc k) ps)) \<and>
     (\<forall>x \<in> set ps. is_packet (snd x))"

lemma trace_refl [simp]: "trace_ok T cont st st []"
  by (simp add: trace_ok_def)

lemma trace_trans:
  assumes "trace_ok T cont a b ps" and "trace_ok T cont b c qs"
  shows "trace_ok T cont a c (ps @ qs)"
  using assms unfolding trace_ok_def by (auto intro: fed_trans)

definition st_ok :: "('b \<Rightarrow> bytes) \<Rightarrow> ('b, 'z) mix_state \<Rightarrow> bool" where
  "st_ok cont st \<longleftrightarrow> aligned cont (m_psi st) \<and> (\<forall>r \<in> set (m_inputs st). aligned cont (in_buf r)) \<and>
     m_inpt st \<le> length (m_inputs st)"

definition has_packet :: "('b, 'z) mix_state \<Rightarrow> bool" where
  "has_packet st \<longleftrightarrow> m_data st \<noteq> None \<and> m_size st = TS_PACKET_SIZE"

lemma next_node_bounds: "0 < n \<Longrightarrow> 0 < next_node n c \<and> next_node n c \<le> n"
  by (simp add: next_node_def)

lemma mix_scan_trace:
  assumes "cbuf_ok (me_cb e) cont"
  shows "st_ok cont st \<Longrightarrow> \<not> has_packet st \<Longrightarrow> m_inputs st \<noteq> [] \<or> n = 0 \<Longrightarrow>
    \<exists>ps. trace_ok (me_ts e) cont st (mix_scan e n st) ps \<and> st_ok cont (mix_scan e n st) \<and>
      m_psi (mix_scan e n st) = m_psi st \<and> (has_packet (mix_scan e n st) \<longrightarrow> 0 < m_read (mix_scan e n st)) \<and>
      (if has_packet (mix_scan e n st) then \<exists>k. ps = [(Suc k, the (m_data (mix_scan e n st)))] else ps = [])"
proof (induction n arbitrary: st)
  case 0
  then show ?case by (intro exI [of _ "[]"]) simp
next
  case (Suc n)
  define c where "c = next_node (length (m_inputs st)) (m_inpt st)"
  have ne: "m_inputs st \<noteq> []" using Suc.prems by auto
  then have c: "0 < c" "c \<le> length (m_inputs st)" using next_node_bounds by (auto simp: c_def)
  then have ci: "c - 1 < length (m_inputs st)" by simp
  obtain r' d sz rd stop where v: "mix_visit e (m_inputs st ! (c - 1)) = (r', d, sz, rd, stop)"
    by (metis prod_cases5)
  have al: "aligned cont (in_buf (m_inputs st ! (c - 1)))" using Suc.prems(1) ci by (simp add: st_ok_def)
  note V = mix_visit_fed [OF assms al v]
  define st1 where "st1 = st\<lparr> m_inpt := c, m_inputs := (m_inputs st)[c - 1 := r'], m_data := d,
                       m_size := sz, m_read := m_read st + rd \<rparr>"
  have hp: "has_packet st1 \<longleftrightarrow> stop" using V by (simp add: has_packet_def st1_def)
  have ok1: "st_ok cont st1"
    using Suc.prems(1) V c by (auto simp: st_ok_def st1_def dest!: set_update_subset_insert [THEN subsetD])
  have tr1: "trace_ok (me_ts e) cont st st1 (if stop then [(c, the d)] else [])"
    using V c ci by (auto simp: trace_ok_def st1_def nth_list_update)
  have sc: "mix_scan e (Suc n) st = (if stop then st1 else mix_scan e n st1)"
    using v by (simp add: Let_def st1_def flip: c_def)
  show ?case
  proof (cases stop)
    case True
    have "\<exists>k. [(c, the d)] = [(Suc k, the (m_data st1))]"
      using c by (intro exI [of _ "c - 1"]) (simp add: st1_def)
    moreover have "0 < m_read st1" using V True by (cases rd) (auto simp: st1_def)
    ultimately show ?thesis using True tr1 ok1 hp
      unfolding sc by (intro exI [of _ "[(c, the d)]"]) (simp add: st1_def)
  next
    case False
    have "m_inputs st1 \<noteq> [] \<or> n = 0" using ne by (simp add: st1_def)
    from Suc.IH [OF ok1 _ this] hp False obtain ps where ps:
      "trace_ok (me_ts e) cont st1 (mix_scan e n st1) ps" "st_ok cont (mix_scan e n st1)"
      "m_psi (mix_scan e n st1) = m_psi st1"
      "has_packet (mix_scan e n st1) \<longrightarrow> 0 < m_read (mix_scan e n st1)"
      "if has_packet (mix_scan e n st1) then \<exists>k. ps = [(Suc k, the (m_data (mix_scan e n st1)))] else ps = []"
      by auto
    have "trace_ok (me_ts e) cont st (mix_scan e n st1) ps"
      using trace_trans [OF tr1 [simplified False if_False] ps(1)] by simp
    moreover have "m_psi st1 = m_psi st" by (simp add: st1_def)
    ultimately show ?thesis using ps False unfolding sc by (intro exI [of _ ps]) simp
  qed
qed

text \<open>One slot: at most one packet is sent, and it comes from the PSI buffer while that has one.\<close>

lemma mix_next_trace:
  assumes "cbuf_ok (me_cb e) cont" "st_ok cont st" "mix_next e st = (st1, retry)"
  shows "\<exists>ps. trace_ok (me_ts e) cont st st1 ps \<and> st_ok cont st1 \<and>
    (if has_packet st1 then \<exists>k. ps = [(k, the (m_data st1))] \<and> (k = 0 \<longleftrightarrow> cont (m_psi st) \<noteq> []) else ps = []) \<and>
    (cont (m_psi st) \<noteq> [] \<longrightarrow> has_packet st1) \<and> (retry \<longrightarrow> \<not> has_packet st1)"
proof -
  obtain d m b' where g: "cb_get (me_cb e) (m_psi st) TS_PACKET_SIZE = (d, m, b')" by (metis prod_cases3)
  have al: "aligned cont (m_psi st)" using assms(2) by (simp add: st_ok_def)
  note G = cbuf_get_packet [OF assms(1) g al]
  define s1 where "s1 = st\<lparr> m_psi := b', m_data := d, m_size := m \<rparr>"
  have n: "mix_next e st = (if has_packet s1 then (s1, False)
     else (mix_scan e (length (m_inputs st)) (s1\<lparr> m_read := 0 \<rparr>),
           m_read (mix_scan e (length (m_inputs st)) (s1\<lparr> m_read := 0 \<rparr>)) = 0))"
    by (simp add: mix_next_def g has_packet_def s1_def Let_def)
  show ?thesis
  proof (cases "cont (m_psi st) = []")
    case False
    with G obtain p where p: "d = Some p" "is_packet p" "m = TS_PACKET_SIZE" "cont (m_psi st) = p @ cont b'"
      "aligned cont b'" by auto
    then have hp: "has_packet s1" by (simp add: has_packet_def s1_def)
    with n assms(3) have e: "st1 = s1" "retry = False" by auto
    have "trace_ok (me_ts e) cont st s1 [(0, p)]" using p by (auto simp: trace_ok_def s1_def)
    moreover have "st_ok cont s1" using p assms(2) by (simp add: st_ok_def s1_def)
    ultimately show ?thesis using hp p False unfolding e by (intro exI [of _ "[(0, p)]"]) (auto simp: s1_def)
  next
    case True
    with G have b: "m \<noteq> TS_PACKET_SIZE" "cont b' = []" "aligned cont b'" by auto
    define s2 where "s2 = s1\<lparr> m_read := 0 \<rparr>"
    have hp: "\<not> has_packet s1" "\<not> has_packet s2" using b by (auto simp: has_packet_def s1_def s2_def)
    have ok: "st_ok cont s2" using b assms(2) by (simp add: st_ok_def s1_def s2_def)
    have tr: "trace_ok (me_ts e) cont st s2 []" using True b by (simp add: trace_ok_def s1_def s2_def)
    have e: "st1 = mix_scan e (length (m_inputs s2)) s2" using n assms(3) hp by (auto simp: s2_def s1_def)
    from mix_scan_trace [OF assms(1) ok hp(2), of "length (m_inputs s2)"] obtain ps where ps:
      "trace_ok (me_ts e) cont s2 st1 ps" "st_ok cont st1" "has_packet st1 \<longrightarrow> 0 < m_read st1"
      "if has_packet st1 then \<exists>k. ps = [(Suc k, the (m_data st1))] else ps = []"
      unfolding e by auto
    moreover have "retry \<longleftrightarrow> m_read st1 = 0" using n assms(3) hp by (auto simp: e s2_def s1_def)
    ultimately show ?thesis using trace_trans [OF tr ps(1)] True
      by (intro exI [of _ ps]) (auto split: if_splits)
  qed
qed

section \<open>The filling loop\<close>

text \<open>
  From \<open>buf\<close> to \<open>buf'\<close> the packets \<open>xs\<close> were stored, in order, in
  the slots \<open>pos\<close>, each in a slot of its own between \<open>lo\<close> and \<open>hi\<close>; the other slots are as before.
\<close>

definition placed :: "nat \<Rightarrow> nat \<Rightarrow> bytes \<Rightarrow> bytes \<Rightarrow> nat list \<Rightarrow> bytes list \<Rightarrow> bool" where
  "placed lo hi buf buf' pos xs \<longleftrightarrow>
     length buf' = length buf \<and> length pos = length xs \<and> sorted_wrt (<) pos \<and>
     (\<forall>k \<in> set pos. lo \<le> k \<and> k < hi) \<and> (\<forall>i < length pos. slot buf' (pos ! i) = xs ! i) \<and>
     (\<forall>k < hi. k \<notin> set pos \<longrightarrow> slot buf' k = slot buf k)"

lemma placed_refl [simp]: "placed lo hi buf buf [] []"
  by (simp add: placed_def)

lemma placed_weaken: "placed lo hi buf buf' pos xs \<Longrightarrow> lo' \<le> lo \<Longrightarrow> placed lo' hi buf buf' pos xs"
  by (auto simp: placed_def)

lemma placed_Cons:
  assumes "placed (Suc k) hi (blit buf (k * TS_PACKET_SIZE) p) buf' pos xs"
    and "lo \<le> k" "k < hi" "hi * TS_PACKET_SIZE \<le> length buf" "is_packet p"
  shows "placed lo hi buf buf' (k # pos) (p # xs)"
proof -
  have le: "(k + 1) * TS_PACKET_SIZE \<le> length buf"
    using assms(3,4) by (metis Suc_eq_plus1 Suc_leI le_trans mult_le_mono1)
  have len: "length p = TS_PACKET_SIZE" using assms(5) by (simp add: is_packet_def)
  have k: "k \<notin> set pos" using assms(1) by (auto simp: placed_def)
  have b: "length (blit buf (k * TS_PACKET_SIZE) p) = length buf" using le len by simp
  have "slot buf' k = p" using assms(1,3) k slot_blit [OF len le, of k] by (simp add: placed_def)
  then show ?thesis
    using assms(1-3) slot_blit [OF len le] b
    by (auto simp: placed_def nth_Cons less_Suc_eq_le Suc_le_eq split: nat.splits)
qed

text \<open>PSI packets come before those of the inputs.\<close>

definition psi_first :: "(nat \<times> bytes) list \<Rightarrow> bool" where
  "psi_first ps \<longleftrightarrow> sorted_wrt (\<lambda>x y. fst y = 0 \<longrightarrow> fst x = 0) ps"

lemma psi_first_inputs: "\<forall>x \<in> set ps. fst x \<noteq> 0 \<Longrightarrow> psi_first ps"
  by (induction ps) (auto simp: psi_first_def)

lemma trace_no_psi:
  assumes "trace_ok T cont st st' ps" and "cont (m_psi st) = []" and "x \<in> set ps"
  shows "fst x \<noteq> 0"
proof
  assume "fst x = 0"
  with assms(3) have "snd x \<in> set (from_origin 0 ps)" by (auto simp: from_origin_def)
  moreover have "concat (from_origin 0 ps) = []" using assms(1,2) by (simp add: trace_ok_def)
  ultimately have "snd x = []" by auto
  with assms(1,3) show False by (auto simp: trace_ok_def is_packet_def ts_sizes)
qed

lemma trace_bump:
  "trace_ok T cont (st\<lparr> m_inputs := map (bump k) (m_inputs st) \<rparr>) st' ps = trace_ok T cont st st' ps"
  "st_ok cont (st\<lparr> m_inputs := map (bump k) (m_inputs st) \<rparr>) = st_ok cont st"
  by (auto simp: trace_ok_def st_ok_def bump_def)

definition plan_ok :: "'b mix_env \<Rightarrow> mix_plan \<Rightarrow> bool" where
  "plan_ok e pl \<longleftrightarrow> mp_packets pl + mp_nulls pl = me_max e"

text \<open>The branch that the code marks as impossible is.\<close>

lemma mix_slot_free:
  assumes "plan_ok e pl" "nulls \<le> mp_nulls pl" "dp < mp_packets pl"
  shows "dp + mix_nulls d n (mp_nulls pl) dp nulls < me_max e"
  using mix_nulls_bounds(2) [OF assms(2), of d n dp] assms(1,3) by (simp add: plan_ok_def)

definition loop_pre :: "('b \<Rightarrow> bytes) \<Rightarrow> 'b mix_env \<Rightarrow> mix_plan \<Rightarrow> nat \<Rightarrow> nat \<Rightarrow> bytes \<Rightarrow> ('b, 'z) mix_state \<Rightarrow> bool" where
  "loop_pre cont e pl dp nulls buf st \<longleftrightarrow>
     cbuf_ok (me_cb e) cont \<and> plan_ok e pl \<and> st_ok cont st \<and> nulls \<le> mp_nulls pl \<and>
     dp \<le> mp_packets pl \<and> me_max e * TS_PACKET_SIZE \<le> length buf"

definition loop_post ::
  "('b \<Rightarrow> bytes) \<Rightarrow> 'b mix_env \<Rightarrow> (nat \<Rightarrow> bool) \<Rightarrow> mix_plan \<Rightarrow> nat \<Rightarrow> nat \<Rightarrow> bytes \<Rightarrow> ('b, 'z) mix_state \<Rightarrow>
   nat \<times> nat \<times> bytes \<times> ('b, 'z) mix_state \<Rightarrow> bool"
where
  "loop_post cont e die pl dp nulls buf st y \<longleftrightarrow>
     (case y of (dp', nulls', buf', st') \<Rightarrow>
        \<exists>pos ps. trace_ok (me_ts e) cont st st' ps \<and> st_ok cont st' \<and> psi_first ps \<and>
          placed (dp + nulls) (me_max e) buf buf' pos (map snd ps) \<and>
          (dp' = mp_packets pl \<or> (\<exists>t'. die t')))"

lemma mix_next_prefix:
  assumes "cbuf_ok (me_cb e) cont" "st_ok cont st" "mix_next e st = (st1, retry)"
    and "trace_ok (me_ts e) cont st1 st' ps" "psi_first ps"
  shows "\<exists>qs. trace_ok (me_ts e) cont st st' (qs @ ps) \<and> psi_first (qs @ ps) \<and>
     (if has_packet st1 then map snd qs = [the (m_data st1)] \<and> is_packet (the (m_data st1)) else qs = [])"
proof -
  from mix_next_trace [OF assms(1-3)] obtain qs where q: "trace_ok (me_ts e) cont st st1 qs"
    "if has_packet st1 then \<exists>k. qs = [(k, the (m_data st1))] \<and> (k = 0 \<longleftrightarrow> cont (m_psi st) \<noteq> []) else qs = []"
    by auto
  have "psi_first (qs @ ps)"
  proof (cases "cont (m_psi st) = []")
    case True
    with trace_trans [OF q(1) assms(4)] have "\<forall>x \<in> set (qs @ ps). fst x \<noteq> 0"
      using trace_no_psi by blast
    then show ?thesis by (rule psi_first_inputs)
  next
    case False
    with q(2) assms(5) show ?thesis by (auto simp: psi_first_def split: if_splits)
  qed
  moreover have "is_packet (the (m_data st1))" if "has_packet st1"
    using q that by (auto simp: trace_ok_def)
  ultimately show ?thesis using trace_trans [OF q(1) assms(4)] q(2)
    by (intro exI [of _ qs]) (auto split: if_splits)
qed

text \<open>One turn of the loop keeps what it needs, whichever way it goes on.\<close>

lemma loop_pre_step:
  assumes "loop_pre cont e pl dp nulls buf st" and "mix_next e st = (st1, retry)" and "dp < mp_packets pl"
    and n: "n = mix_nulls d m (mp_nulls pl) dp nulls"
  shows "loop_pre cont e pl dp nulls buf st1" and "loop_pre cont e pl (dp + 1) nulls buf st1"
    and "dp + n < me_max e" and "retry \<Longrightarrow> \<not> has_packet st1"
    and "has_packet st1 \<Longrightarrow> loop_pre cont e pl (dp + 1) n (blit buf ((dp + n) * TS_PACKET_SIZE) (the (m_data st1))) st1"
proof -
  note P = assms(1) [unfolded loop_pre_def]
  have C: "cbuf_ok (me_cb e) cont" and ok: "st_ok cont st" using P by auto
  note T = mix_next_trace [OF C ok assms(2)]
  have ok1: "st_ok cont st1" using T by blast
  show free: "dp + n < me_max e" unfolding n using mix_slot_free P assms(3) by blast
  show "loop_pre cont e pl dp nulls buf st1" "loop_pre cont e pl (dp + 1) nulls buf st1"
    using P ok1 assms(3) by (simp_all add: loop_pre_def)
  show "retry \<Longrightarrow> \<not> has_packet st1" using T by blast
  assume "has_packet st1"
  then have "length (the (m_data st1)) = TS_PACKET_SIZE" using T by (auto simp: trace_ok_def is_packet_def)
  moreover have "(dp + n + 1) * TS_PACKET_SIZE \<le> me_max e * TS_PACKET_SIZE" using free by (intro mult_le_mono1) simp
  ultimately have "length (blit buf ((dp + n) * TS_PACKET_SIZE) (the (m_data st1))) = length buf" using P by simp
  moreover have "n \<le> mp_nulls pl" unfolding n using P mix_nulls_bounds(2) by auto
  ultimately show "loop_pre cont e pl (dp + 1) n (blit buf ((dp + n) * TS_PACKET_SIZE) (the (m_data st1))) st1"
    using P ok1 assms(3) by (simp add: loop_pre_def)
qed

text \<open>The packets of the rest of the loop with the one of this turn in front.\<close>

lemma loop_post_step:
  assumes "loop_pre cont e pl dp nulls buf st" and "mix_next e st = (st1, retry)" and "dp < mp_packets pl"
    and n: "n = mix_nulls d m (mp_nulls pl) dp nulls" and L: "loop_post cont e die pl dp2 n2 b2 st1 y"
    and nb: "if has_packet st1 then b2 = blit buf ((dp + n) * TS_PACKET_SIZE) (the (m_data st1)) \<and> dp2 = dp + 1 \<and> n2 = n
      else b2 = buf \<and> dp \<le> dp2 \<and> n2 = nulls"
  shows "loop_post cont e die pl dp nulls buf st y"
proof -
  note P = assms(1) [unfolded loop_pre_def]
  have C: "cbuf_ok (me_cb e) cont" and ok: "st_ok cont st" using P by auto
  note free = loop_pre_step(3) [OF assms(1-4)]
  obtain dp' nulls' buf' st' where y: "y = (dp', nulls', buf', st')" by (metis prod_cases4)
  from L obtain pos ps where L: "trace_ok (me_ts e) cont st1 st' ps" "st_ok cont st'" "psi_first ps"
    "placed (dp2 + n2) (me_max e) b2 buf' pos (map snd ps)" "dp' = mp_packets pl \<or> (\<exists>t'. die t')"
    unfolding loop_post_def y by auto
  from mix_next_prefix [OF C ok assms(2) L(1,3)] obtain qs where Q:
    "trace_ok (me_ts e) cont st st' (qs @ ps)" "psi_first (qs @ ps)"
    "if has_packet st1 then map snd qs = [the (m_data st1)] \<and> is_packet (the (m_data st1)) else qs = []"
    by blast
  have "\<exists>pos. placed (dp + nulls) (me_max e) buf buf' pos (map snd (qs @ ps))"
  proof (cases "has_packet st1")
    case True
    have "dp + nulls \<le> dp + n" unfolding n using mix_nulls_bounds(1) P by simp
    with True L(4) Q(3) nb free P show ?thesis
      by (intro exI [of _ "(dp + n) # pos"]) (simp add: placed_Cons)
  next
    case False
    with L(4) Q(3) nb show ?thesis
      using placed_weaken [of "dp2 + n2" _ b2 buf' pos "map snd ps" "dp + nulls"] by auto
  qed
  then obtain pa where "placed (dp + nulls) (me_max e) buf buf' pa (map snd (qs @ ps))" ..
  with Q(1,2) L(2,5) show ?thesis unfolding loop_post_def y prod.case by blast
qed

lemma loop_bump:
  "loop_pre cont e pl dp nulls buf (st\<lparr> m_inputs := map (bump k) (m_inputs st) \<rparr>) = loop_pre cont e pl dp nulls buf st"
  "loop_post cont e die pl dp nulls buf (st\<lparr> m_inputs := map (bump k) (m_inputs st) \<rparr>) y = loop_post cont e die pl dp nulls buf st y"
  by (simp_all add: loop_pre_def loop_post_def trace_bump)

lemma mix_loop_trace:
  fixes e :: "'b mix_env" and st :: "('b, 'z) mix_state"
  assumes "mix_loop e die pl t dp nulls buf st = Some y" and "loop_pre cont e pl dp nulls buf st"
  shows "loop_post cont e die pl dp nulls buf st y"
proof -
  have "loop_pre cont e pl dp nulls buf st \<longrightarrow> loop_post cont e die pl dp nulls buf st y"
  proof (rule mix_loop.raw_induct [OF _ assms(1)], rule impI)
    fix loop die pl t dp nulls buf y and e :: "'b mix_env" and st :: "('b, 'z) mix_state"
    assume IH: "\<And>(e :: 'b mix_env) die pl t dp nulls buf st y. loop e die pl t dp nulls buf st = Some y \<Longrightarrow>
        loop_pre cont e pl dp nulls buf st \<longrightarrow> loop_post cont e die pl dp nulls buf st y"
      and eq: "(if \<not> dp < mp_packets pl \<or> die t then Some (dp, nulls, buf, st)
      else
        (case mix_next e st of (st1, retry) \<Rightarrow>
           if retry then loop e die pl (t + 1) dp nulls buf st1
           else
             (let st2 = st1\<lparr> m_inputs := map (bump 1) (m_inputs st1) \<rparr> in
              if m_data st1 \<noteq> None \<and> m_size st1 = TS_PACKET_SIZE then
                (let nulls' = mix_nulls (mp_dpn pl) (mp_npd pl) (mp_nulls pl) dp nulls in
                 if dp + nulls' \<ge> me_max e then Some (dp, nulls', buf, st1)
                 else loop e die pl (t + 1) (dp + 1) nulls'
                        (blit buf ((dp + nulls') * TS_PACKET_SIZE) (the (m_data st1))) st2)
              else loop e die pl (t + 1) (dp + 1) nulls buf st2))) = Some y"
      and pre: "loop_pre cont e pl dp nulls buf st"
    show "loop_post cont e die pl dp nulls buf st y"
    proof (cases "\<not> dp < mp_packets pl \<or> die t")
      case True
      with eq pre show ?thesis
        by (auto simp: loop_pre_def loop_post_def psi_first_def intro!: exI [of _ "[]"])
    next
      case False
      obtain st1 retry where nx: "mix_next e st = (st1, retry)" by fastforce
      let ?st2 = "st1\<lparr> m_inputs := map (bump 1) (m_inputs st1) \<rparr>"
      define n where "n = mix_nulls (mp_dpn pl) (mp_npd pl) (mp_nulls pl) dp nulls"
      let ?buf = "blit buf ((dp + n) * TS_PACKET_SIZE) (the (m_data st1))"
      have lt: "dp < mp_packets pl" using False by blast
      note pre' = loop_pre_step [OF pre nx lt n_def] and step = loop_post_step [OF pre nx lt n_def]
      have g: "(\<not> dp < mp_packets pl \<or> die t) = False" "(me_max e \<le> dp + n) = False"
        using False pre'(3) by auto
      from eq have eq':
        "(if retry then loop e die pl (t + 1) dp nulls buf st1
          else if has_packet st1 then loop e die pl (t + 1) (dp + 1) n ?buf ?st2
          else loop e die pl (t + 1) (dp + 1) nulls buf ?st2) = Some y"
        by (simp only: g nx prod.case Let_def has_packet_def if_False n_def [symmetric])
      consider "retry" "\<not> has_packet st1" | "\<not> retry" "has_packet st1" | "\<not> retry" "\<not> has_packet st1"
        using pre'(4) by blast
      then show ?thesis
      proof cases
        case 1
        with eq' IH pre'(1) have "loop_post cont e die pl dp nulls buf st1 y" by fastforce
        from step [OF this] 1 show ?thesis by simp
      next
        case 2
        with eq' have "loop e die pl (t + 1) (dp + 1) n ?buf ?st2 = Some y" by simp
        with IH pre'(5) [OF 2(2)] have "loop_post cont e die pl (dp + 1) n ?buf st1 y" by (fastforce simp: loop_bump)
        from step [OF this] 2 show ?thesis by simp
      next
        case 3
        with eq' have "loop e die pl (t + 1) (dp + 1) nulls buf ?st2 = Some y" by simp
        with IH pre'(2) have "loop_post cont e die pl (dp + 1) nulls buf st1 y" by (fastforce simp: loop_bump)
        from step [OF this] 3 show ?thesis by simp
      qed
    qed
  qed
  then show ?thesis using assms(2) by blast
qed

section \<open>Filling terminates, or waits for input\<close>

text \<open>Outside the PCR-moving modes each visit counts as a read; so does each slot, with an input.\<close>

lemma mix_scan_reads:
  assumes "cbuf_ok (me_cb e) cont" "\<not> moves_pcr e"
  shows "m_read st \<le> m_read (mix_scan e n st)" "0 < n \<Longrightarrow> 0 < m_read (mix_scan e n st)"
proof -
  have v: "\<exists>r' d sz stop. mix_visit e r = (r', d, sz, 1, stop)" for r
    using assms(2) by (auto simp: mix_visit_def mix_get_def Let_def split: prod.splits)
  have le: "m_read st \<le> m_read (mix_scan e n st)" for n st
  proof (induction n arbitrary: st)
    case (Suc n)
    obtain r' d sz stop where
      "mix_visit e (m_inputs st ! (next_node (length (m_inputs st)) (m_inpt st) - 1)) = (r', d, sz, 1, stop)"
      using v by blast
    with Suc [of "st\<lparr>m_inpt := next_node (length (m_inputs st)) (m_inpt st),
        m_inputs := (m_inputs st)[next_node (length (m_inputs st)) (m_inpt st) - 1 := r'],
        m_data := d, m_size := sz, m_read := m_read st + 1\<rparr>"]
    show ?case by (auto simp: Let_def)
  qed simp
  show "m_read st \<le> m_read (mix_scan e n st)" by (rule le)
  show "0 < m_read (mix_scan e n st)" if pos: "0 < n"
  proof -
    obtain k where n: "n = Suc k" using pos by (cases n) auto
    obtain r' d sz stop where
      "mix_visit e (m_inputs st ! (next_node (length (m_inputs st)) (m_inpt st) - 1)) = (r', d, sz, 1, stop)"
      using v by blast
    with le [of "st\<lparr>m_inpt := next_node (length (m_inputs st)) (m_inpt st),
        m_inputs := (m_inputs st)[next_node (length (m_inputs st)) (m_inpt st) - 1 := r'],
        m_data := d, m_size := sz, m_read := m_read st + 1\<rparr>" k]
    show ?thesis unfolding n by (auto simp: Let_def)
  qed
qed

lemma mix_scan_len: "length (m_inputs (mix_scan e n st)) = length (m_inputs st)"
proof (induction n arbitrary: st)
  case (Suc n)
  then show ?case by (auto simp: Let_def split: prod.splits)
qed simp

lemma mix_next_len: "mix_next e st = (st1, retry) \<Longrightarrow> length (m_inputs st1) = length (m_inputs st)"
  by (auto simp: mix_next_def Let_def mix_scan_len split: prod.splits if_splits)

lemma mix_next_no_retry:
  assumes "cbuf_ok (me_cb e) cont" "\<not> moves_pcr e" "m_inputs st \<noteq> []" "mix_next e st = (st1, retry)"
  shows "\<not> retry"
  using assms(3,4) mix_scan_reads(2) [OF assms(1,2)]
  by (auto simp: mix_next_def Let_def split: prod.splits if_splits)

text \<open>Without retries the loop ends.\<close>

lemma mix_loop_total:
  assumes C: "cbuf_ok (me_cb e) cont" and m: "\<not> moves_pcr e"
  shows "m_inputs st \<noteq> [] \<Longrightarrow> \<exists>y. mix_loop e die pl t dp nulls buf st = Some y"
proof (induction "mp_packets pl - dp" arbitrary: t dp nulls buf st)
  case 0
  then show ?case by (subst mix_loop.simps) simp
next
  case (Suc k)
  obtain st1 retry where nx: "mix_next e st = (st1, retry)" by fastforce
  have nr: "\<not> retry" by (rule mix_next_no_retry [OF C m Suc.prems nx])
  have "m_inputs st1 \<noteq> []" using mix_next_len [OF nx] Suc.prems by auto
  then have "m_inputs (st1\<lparr> m_inputs := map (bump 1) (m_inputs st1) \<rparr>) \<noteq> []" by simp
  note IH = Suc.hyps(1) [OF _ this]
  have "k = mp_packets pl - (dp + 1)" using Suc.hyps(2) by simp
  note IH = IH [OF this]
  show ?case
    by (subst mix_loop.simps) (use nr IH in \<open>simp add: nx Let_def del: Suc_eq_plus1 add_Suc_right\<close>)
qed

text \<open>A stop request ends the loop in every mode.\<close>

lemma mix_loop_die:
  fixes st :: "('b, 'z) mix_state"
  shows "t \<le> t' \<Longrightarrow> die t' \<Longrightarrow> \<exists>y. mix_loop e die pl t dp nulls buf st = Some y"
proof (induction "t' - t" arbitrary: t dp nulls buf st)
  case 0
  then show ?case by (subst mix_loop.simps) simp
next
  case (Suc k)
  have IH: "\<exists>y. mix_loop e die pl (t + 1) dp nulls buf st = Some y" for dp nulls buf and st :: "('b, 'z) mix_state"
  proof -
    have "k = t' - (t + 1)" "t + 1 \<le> t'" using Suc.hyps(2) by auto
    from Suc.hyps(1) [OF this Suc.prems(2)] show ?thesis .
  qed
  show ?case
    by (subst mix_loop.simps) (auto simp: Let_def IH [simplified] split: prod.splits)
qed

text \<open>
  In the PCR-moving modes an empty input is not a read. When every buffer is empty the slot
  is tried again in the same state, until an input thread delivers data.
\<close>

definition drained :: "('b \<Rightarrow> bytes) \<Rightarrow> ('b, 'z) mix_state \<Rightarrow> bool" where
  "drained cont st \<longleftrightarrow> cont (m_psi st) = [] \<and> (\<forall>r \<in> set (m_inputs st). cont (in_buf r) = [])"

lemma mix_scan_drained:
  assumes "cbuf_ok (me_cb e) cont" "moves_pcr e"
  shows "drained cont st \<Longrightarrow> m_inputs st \<noteq> [] \<or> n = 0 \<Longrightarrow>
    drained cont (mix_scan e n st) \<and> m_read (mix_scan e n st) = m_read st \<and>
    m_inputs (mix_scan e n st) = m_inputs st"
proof (induction n arbitrary: st)
  case (Suc n)
  define c where "c = next_node (length (m_inputs st)) (m_inpt st)"
  have "0 < length (m_inputs st)" using Suc.prems by auto
  then have "0 < c \<and> c \<le> length (m_inputs st)" unfolding c_def by (rule next_node_bounds)
  then have ci: "c - 1 < length (m_inputs st)" by linarith
  then have em: "cont (in_buf (m_inputs st ! (c - 1))) = []" using Suc.prems by (simp add: drained_def)
  then have al: "aligned cont (in_buf (m_inputs st ! (c - 1)))" by (simp add: aligned_def)
  obtain r' d sz rd stop where v: "mix_visit e (m_inputs st ! (c - 1)) = (r', d, sz, rd, stop)"
    by (metis prod_cases5)
  from mix_visit_fed [OF assms(1) al v] em assms(2)
  have V: "rd = 0" "r' = m_inputs st ! (c - 1)" "\<not> stop" by auto
  let ?s = "st\<lparr> m_inpt := c, m_data := d, m_size := sz \<rparr>"
  have "mix_scan e (Suc n) st = mix_scan e n ?s"
    using v V by (simp add: Let_def flip: c_def)
  moreover have "drained cont ?s" using Suc.prems(1) by (simp add: drained_def)
  ultimately show ?case using Suc.IH [of ?s] Suc.prems by simp
qed simp

lemma mix_next_drained:
  assumes "cbuf_ok (me_cb e) cont" "moves_pcr e" "drained cont st" "mix_next e st = (st1, retry)"
  shows "retry \<and> drained cont st1 \<and> m_inputs st1 = m_inputs st"
proof -
  obtain d m b' where g: "cb_get (me_cb e) (m_psi st) TS_PACKET_SIZE = (d, m, b')" by (metis prod_cases3)
  have em: "cont (m_psi st) = []" using assms(3) by (simp add: drained_def)
  then have "aligned cont (m_psi st)" by (simp add: aligned_def)
  from cbuf_get_packet [OF assms(1) g this] em have G: "m \<noteq> TS_PACKET_SIZE" "cont b' = []" by auto
  let ?s = "st\<lparr> m_psi := b', m_data := d, m_size := m, m_read := 0 \<rparr>"
  have "drained cont ?s" using assms(3) G by (simp add: drained_def)
  from mix_scan_drained [OF assms(1,2) this, of "length (m_inputs st)"]
  show ?thesis using assms(4) G by (auto simp: mix_next_def g Let_def split: if_splits)
qed

lemma mix_loop_stuck:
  fixes e :: "'b mix_env" and st :: "('b, 'z) mix_state"
  assumes "cbuf_ok (me_cb e) cont" "moves_pcr e" "drained cont st" "dp < mp_packets pl" "\<And>t. \<not> die t"
  shows "mix_loop e die pl t dp nulls buf st = None"
proof (rule ccontr)
  assume "\<not> ?thesis"
  then obtain y where y: "mix_loop e die pl t dp nulls buf st = Some y" by auto
  have "moves_pcr e \<and> cbuf_ok (me_cb e) cont \<and> drained cont st \<and> dp < mp_packets pl \<and> (\<forall>t. \<not> die t) \<longrightarrow> False"
  proof (rule mix_loop.raw_induct [OF _ y], rule impI)
    fix loop die pl t dp nulls buf y and e :: "'b mix_env" and st :: "('b, 'z) mix_state"
    assume IH: "\<And>(e :: 'b mix_env) die pl t dp nulls buf st y. loop e die pl t dp nulls buf st = Some y \<Longrightarrow>
        moves_pcr e \<and> cbuf_ok (me_cb e) cont \<and> drained cont st \<and> dp < mp_packets pl \<and> (\<forall>t. \<not> die t) \<longrightarrow> False"
      and eq: "(if \<not> dp < mp_packets pl \<or> die t then Some (dp, nulls, buf, st)
      else
        (case mix_next e st of (st1, retry) \<Rightarrow>
           if retry then loop e die pl (t + 1) dp nulls buf st1
           else
             (let st2 = st1\<lparr> m_inputs := map (bump 1) (m_inputs st1) \<rparr> in
              if m_data st1 \<noteq> None \<and> m_size st1 = TS_PACKET_SIZE then
                (let nulls' = mix_nulls (mp_dpn pl) (mp_npd pl) (mp_nulls pl) dp nulls in
                 if dp + nulls' \<ge> me_max e then Some (dp, nulls', buf, st1)
                 else loop e die pl (t + 1) (dp + 1) nulls'
                        (blit buf ((dp + nulls') * TS_PACKET_SIZE) (the (m_data st1))) st2)
              else loop e die pl (t + 1) (dp + 1) nulls buf st2))) = Some y"
      and pre: "moves_pcr e \<and> cbuf_ok (me_cb e) cont \<and> drained cont st \<and> dp < mp_packets pl \<and> (\<forall>t. \<not> die t)"
    obtain st1 retry where nx: "mix_next e st = (st1, retry)" by fastforce
    from mix_next_drained [OF _ _ _ nx] pre have d: "retry" "drained cont st1" by auto
    with eq pre nx have "loop e die pl (t + 1) dp nulls buf st1 = Some y" by simp
    from IH [OF this] pre d show False by simp
  qed
  with assms show False by blast
qed

section \<open>Filling a buffer\<close>

lemma mix_plan_ok: "plan_ok e (mix_plan_of e n)"
  by (simp add: plan_ok_def mix_plan_total)

lemma placed_slots:
  assumes "placed 0 (me_max e) (ob_buf ob) buf' pos xs" "all_null ob" "me_max e = ob_size ob div TS_PACKET_SIZE"
  shows "k < me_max e \<Longrightarrow> slot buf' k = (if k \<in> set pos then slot buf' k else null_packet)"
  using assms by (auto simp: placed_def all_null_def)

text \<open>
  A filled buffer, as the reader of the buffer sees it: the trace is what was taken, each
  packet is in a slot of its own in the order of the trace, and every other slot is padding.
\<close>

definition filled ::
  "'b mix_env \<Rightarrow> ('b \<Rightarrow> bytes) \<Rightarrow> ('b, 'z) mix_state \<Rightarrow> ('b, 'z) mix_state \<Rightarrow> obuf \<Rightarrow>
   nat list \<Rightarrow> (nat \<times> bytes) list \<Rightarrow> bool"
where
  "filled e cont st st' ob' pos ps \<longleftrightarrow>
     trace_ok (me_ts e) cont st st' ps \<and> psi_first ps \<and> length pos = length ps \<and> sorted_wrt (<) pos \<and>
     (\<forall>i < length ps. pos ! i < me_max e \<and> slot (ob_buf ob') (pos ! i) = snd (ps ! i)) \<and>
     (\<forall>k < me_max e. k \<notin> set pos \<longrightarrow> slot (ob_buf ob') k = null_packet)"

lemma mix_fill_filled:
  assumes "cbuf_ok (me_cb e) cont" "st_ok cont st" "obuf_ok ob" "all_null ob"
    "me_max e = ob_size ob div TS_PACKET_SIZE" "mix_fill e die st ob = Some (st', ob')"
  shows "ob_status ob' = obuf_full \<and> ob_size ob' = ob_size ob \<and> ob_written ob' = ob_written ob \<and>
    obuf_ok ob' \<and> st_ok cont st' \<and> (\<exists>pos ps. filled e cont st st' ob' pos ps)"
proof -
  define pl where "pl = mix_plan_of e (mix_datasize e st)"
  have len: "length (ob_buf ob) = ob_size ob" using assms(3) by (simp add: obuf_ok_def)
  show ?thesis
  proof (cases "mp_nulls pl = me_max e")
    case True
    with assms(6) have e: "st' = st\<lparr> m_inputs := map (bump (int (me_max e))) (m_inputs st) \<rparr>"
      "ob' = ob\<lparr> ob_status := obuf_full \<rparr>" by (auto simp: mix_fill_def pl_def Let_def)
    have "trace_ok (me_ts e) cont st st' []" by (auto simp: e trace_ok_def bump_def)
    then have "filled e cont st st' ob' [] []"
      using assms(4,5) by (auto simp: filled_def e psi_first_def all_null_def)
    moreover have "st_ok cont st'" using assms(2) by (auto simp: e st_ok_def bump_def)
    ultimately show ?thesis using assms(3) by (auto simp: e obuf_ok_def)
  next
    case False
    with assms(6) obtain dp' nulls' buf' where l:
      "mix_loop e die pl 0 0 0 (ob_buf ob) st = Some (dp', nulls', buf', st')"
      "ob' = ob\<lparr> ob_status := obuf_full, ob_buf := buf' \<rparr>"
      by (auto simp: mix_fill_def pl_def Let_def split: option.splits)
    have "loop_pre cont e pl 0 0 (ob_buf ob) st"
      using assms(1,2,5) len by (simp add: loop_pre_def pl_def mix_plan_ok)
    from mix_loop_trace [OF l(1) this] obtain pos ps where
      L: "trace_ok (me_ts e) cont st st' ps" "st_ok cont st'" "psi_first ps"
        "placed 0 (me_max e) (ob_buf ob) buf' pos (map snd ps)"
      unfolding loop_post_def by auto
    have "filled e cont st st' ob' pos ps"
      using L assms(4,5) by (auto simp: filled_def l(2) placed_def all_null_def)
    moreover have "obuf_ok ob'" using L(4) assms(3) by (simp add: l(2) obuf_ok_def placed_def)
    ultimately show ?thesis using L(2) by (auto simp: l(2))
  qed
qed

lemma mix_fill_returns:
  assumes "cbuf_ok (me_cb e) cont"
    and "\<not> moves_pcr e \<and> m_inputs st \<noteq> [] \<or> (\<exists>t. die t)"
  shows "\<exists>y. mix_fill e die st ob = Some y"
proof -
  have "\<exists>y. mix_loop e die pl 0 0 0 buf st = Some y" for pl buf
    using assms mix_loop_total [OF assms(1)] mix_loop_die [of 0] by blast
  from this [of "mix_plan_of e (mix_datasize e st)" "ob_buf ob"]
  show ?thesis by (auto simp: mix_fill_def Let_def)
qed

text \<open>The wait for a PCR's place is bounded by the packets of one buffer.\<close>

lemma pcr_packets_needed_bounds:
  "0 \<le> pcr_packets_needed e pcr l \<and> pcr_packets_needed e pcr l \<le> int (me_max e)"
  by (simp add: pcr_packets_needed_def Let_def INT_HALF_def)

section \<open>Spreading\<close>

lemma mix_nulls_light:
  assumes "nulls \<le> 2 ^ 53" "nulls \<le> k"
  shows "mix_nulls 1 npd k dp nulls = max nulls (min k (nat (c_round (dbl (of_nat dp * npd)))))"
proof -
  have "c_round (dbl (of_nat nulls * 1)) = int nulls"
    using dbl_nat [OF assms(1)] c_round_int [of "int nulls"] by simp
  with assms(2) show ?thesis by (auto simp: mix_nulls_def Let_def)
qed

lemma mix_visit_needed:
  assumes "0 \<le> output_pcr_packets_needed r" "output_pcr_packets_needed r \<le> int (me_max e)"
    and "mix_visit e r = (r', d, sz, rd, stop)"
  shows "0 \<le> output_pcr_packets_needed r' \<and> output_pcr_packets_needed r' \<le> int (me_max e)"
  using assms pcr_packets_needed_bounds [of e]
  by (auto simp: mix_visit_def mix_get_def Let_def split: prod.splits if_splits)

section \<open>Properties\<close>

text \<open>A small configuration to apply the properties to: one frame of output, two inputs.\<close>

definition demo_packet :: "u8 \<Rightarrow> u8 \<Rightarrow> bytes" where
  "demo_packet hi lo = [0x47, hi, lo, 0x10] @ replicate 184 0"

definition demo_in :: "bytes \<Rightarrow> queue mix_in" where
  "demo_in bs =
     \<lparr> in_buf = \<lparr> q_bytes = bs, q_out = 0, q_cap = 2000 \<rparr>, output_pcr_pid = 0, output_last_pcr = 0,
       output_pcr = 0, output_pcr_packets_needed = 0, outputed_packets = 0, input_ready = 1 \<rparr>"

definition demo_env :: "int \<Rightarrow> queue mix_env" where
  "demo_env mode =
     \<lparr> me_ts = iso_ts, me_cb = queue_ops, me_pcr_mode = mode, me_bitrate = 38000000, me_max = 7,
       me_oob = (\<lambda>_. 0) \<rparr>"

definition demo_state :: "bytes \<Rightarrow> bytes list \<Rightarrow> (queue, unit) mix_state" where
  "demo_state psi ins =
     \<lparr> m_psi = \<lparr> q_bytes = psi, q_out = 0, q_cap = 2000 \<rparr>, m_inputs = map demo_in ins, m_inpt = length ins,
       m_data = None, m_size = 0, m_read = 0 \<rparr>"

definition demo_obuf :: obuf where
  "demo_obuf = obuf_reset \<lparr> ob_buf = replicate 1316 0, ob_size = 1316, ob_written = 0, ob_status = obuf_empty \<rparr>"

lemma demo_obuf_ok: "obuf_ok demo_obuf" "all_null demo_obuf" "ob_size demo_obuf = 1316"
proof -
  have "obuf_ok \<lparr> ob_buf = replicate 1316 0, ob_size = 1316, ob_written = 0, ob_status = obuf_empty \<rparr>"
    by (simp add: obuf_ok_def ts_sizes)
  then show "obuf_ok demo_obuf" "all_null demo_obuf"
    unfolding demo_obuf_def by (rule obuf_reset_ok, rule obuf_reset_null)
  show "ob_size demo_obuf = 1316" by (simp add: demo_obuf_def)
qed

text \<open>
  C1. A buffer the mixing thread fills loses and repeats nothing: the PSI bytes taken are the
  packets found in the buffer; of every input the packets taken in order, without the
  padding packets, are the packets found; each is in a slot of its own, in the order they were
  taken, PSI packets first; and every other slot is a padding packet.
\<close>

theorem mix_fill_conserves:
  assumes "cbuf_ok (me_cb e) cont" "st_ok cont st" "obuf_ok ob" "all_null ob"
    "me_max e = ob_size ob div TS_PACKET_SIZE" "mix_fill e die st ob = Some (st', ob')"
  shows "ob_status ob' = obuf_full \<and> ob_size ob' = ob_size ob \<and> obuf_ok ob' \<and>
         (\<exists>pos ps. filled e cont st st' ob' pos ps)"
  using mix_fill_filled [OF assms] by blast

theorem mix_fill_conserves_witness:
  "\<exists>st' ob' pos ps. mix_fill (demo_env 0) (\<lambda>_. False) (demo_state (demo_packet 0 0) [demo_packet 0 33, []]) demo_obuf =
       Some (st', ob') \<and> ob_status ob' = obuf_full \<and>
     filled (demo_env 0) q_bytes (demo_state (demo_packet 0 0) [demo_packet 0 33, []]) st' ob' pos ps"
proof -
  let ?st = "demo_state (demo_packet 0 0) [demo_packet 0 33, []]"
  have C: "cbuf_ok (me_cb (demo_env 0)) q_bytes" by (simp add: demo_env_def queue_ops_ok)
  have ok: "st_ok q_bytes ?st"
    by (simp add: st_ok_def demo_state_def demo_in_def demo_packet_def aligned_def ts_sizes)
  have "\<exists>y. mix_fill (demo_env 0) (\<lambda>_. False) ?st demo_obuf = Some y"
    by (rule mix_fill_returns [OF C]) (simp add: demo_env_def demo_state_def)
  then obtain st' ob' where f: "mix_fill (demo_env 0) (\<lambda>_. False) ?st demo_obuf = Some (st', ob')" by auto
  have "me_max (demo_env 0) = ob_size demo_obuf div TS_PACKET_SIZE"
    by (simp add: demo_env_def demo_obuf_ok(3) ts_sizes)
  from mix_fill_conserves [OF C ok demo_obuf_ok(1,2) this f] f show ?thesis by blast
qed

text \<open>
  C26. The packet the loop is about to store always has a slot: the branch the code marks as
  impossible is, for every amount of data and every point of the loop, and padding only advances.
\<close>

theorem mix_slot_available:
  assumes "dp < mp_packets (mix_plan_of e n)" and "nulls \<le> mp_nulls (mix_plan_of e n)"
  shows "let nulls' = mix_nulls (mp_dpn (mix_plan_of e n)) (mp_npd (mix_plan_of e n))
                        (mp_nulls (mix_plan_of e n)) dp nulls
         in dp + nulls' < me_max e \<and> nulls \<le> nulls' \<and> nulls' \<le> mp_nulls (mix_plan_of e n)"
  using mix_slot_free [OF mix_plan_ok assms(2,1)] mix_nulls_bounds [OF assms(2)] by (simp add: Let_def)

theorem mix_slot_available_witness:
  "let nulls' = mix_nulls (mp_dpn (mix_plan_of (demo_env 0) 376)) (mp_npd (mix_plan_of (demo_env 0) 376))
                  (mp_nulls (mix_plan_of (demo_env 0) 376)) 1 0
   in 1 + nulls' < 7"
proof -
  have "mp_packets (mix_plan_of (demo_env 0) 376) = 2"
    by (simp add: mix_plan_of_def Let_def demo_env_def ts_sizes)
  with mix_slot_available [of 1 "demo_env 0" 376 0] show ?thesis by (simp add: Let_def demo_env_def)
qed

text \<open>
  C27. Filling a buffer returns, whatever the data, when PCRs are not moved and there is an
  input; in every mode it returns once a stop is requested.
\<close>

theorem mix_fill_terminates:
  assumes "cbuf_ok (me_cb e) cont"
    and "\<not> moves_pcr e \<and> m_inputs st \<noteq> [] \<or> (\<exists>t. die t)"
  shows "\<exists>st' ob'. mix_fill e die st ob = Some (st', ob')"
  using mix_fill_returns [OF assms] by auto

theorem mix_fill_terminates_witness:
  "\<exists>st' ob'. mix_fill (demo_env 2) (\<lambda>_. False) (demo_state [] [demo_packet 0 33, []]) demo_obuf = Some (st', ob')"
  by (rule mix_fill_terminates [of _ q_bytes]) (simp_all add: demo_env_def queue_ops_ok demo_state_def)

text \<open>
  C28. When PCRs are moved and every buffer has run empty before the planned packets are sent
  (dropped padding counts as data in the plan), the loop does not return on its own: it
  tries the slot again, holding the lock of the input list, until data arrives or a stop is requested.
\<close>

theorem mix_loop_waits:
  assumes "cbuf_ok (me_cb e) cont" "moves_pcr e" "drained cont st" "dp < mp_packets pl" "\<And>t. \<not> die t"
  shows "mix_loop e die pl t dp nulls buf st = None"
  by (rule mix_loop_stuck [OF assms])

theorem mix_loop_waits_witness:
  "mix_loop (demo_env 1) (\<lambda>_. False) (mix_plan_of (demo_env 1) 376) 1 1 0 [] (demo_state [] [[], []]) = None"
  by (rule mix_loop_waits [of _ q_bytes])
    (simp_all add: demo_env_def queue_ops_ok drained_def demo_state_def demo_in_def mix_plan_of_def Let_def ts_sizes)

text \<open>
  A packet with a PCR is held back only while fewer packets were sent than the bit rate asks
  for between two PCRs, and that number never exceeds the packets of one buffer: the wait is bounded.
\<close>

theorem pcr_wait_bounded:
  assumes "0 \<le> output_pcr_packets_needed r" "output_pcr_packets_needed r \<le> int (me_max e)"
    and "mix_visit e r = (r', d, sz, rd, stop)"
  shows "0 \<le> output_pcr_packets_needed r' \<and> output_pcr_packets_needed r' \<le> int (me_max e)"
  by (rule mix_visit_needed [OF assms])

theorem pcr_wait_bounded_witness:
  "case mix_visit (demo_env 1) (demo_in (demo_packet 0 33)) of
     (r', _) \<Rightarrow> output_pcr_packets_needed r' \<le> 7"
proof -
  obtain r' d sz rd stop where v: "mix_visit (demo_env 1) (demo_in (demo_packet 0 33)) = (r', d, sz, rd, stop)"
    by (metis prod_cases5)
  have "output_pcr_packets_needed r' \<le> int (me_max (demo_env 1))"
    using pcr_wait_bounded [OF _ _ v] by (simp add: demo_in_def demo_env_def)
  with v show ?thesis by (simp add: demo_env_def)
qed

text \<open>
  Under light load (fewer data packets than padding) padding is spread evenly: before data
  packet \<open>dp\<close> there are \<open>dp\<close> times the padding per data packet, rounded, up to the total.
\<close>

theorem mix_padding_even:
  assumes "mp_packets (mix_plan_of e n) < mp_nulls (mix_plan_of e n)" "me_max e \<le> 2 ^ 53"
    and "nulls \<le> mp_nulls (mix_plan_of e n)"
  shows "mix_nulls (mp_dpn (mix_plan_of e n)) (mp_npd (mix_plan_of e n)) (mp_nulls (mix_plan_of e n)) dp nulls =
    max nulls (min (mp_nulls (mix_plan_of e n))
      (nat (c_round (dbl (of_nat dp * dbl (of_nat (mp_nulls (mix_plan_of e n)) / of_nat (mp_packets (mix_plan_of e n))))))))"
proof -
  define P where "P = min (n div TS_PACKET_SIZE) (me_max e)"
  define N where "N = me_max e - P"
  have pn: "mp_packets (mix_plan_of e n) = P" "mp_nulls (mix_plan_of e n) = N"
    by (simp_all add: mix_plan_of_def Let_def P_def N_def)
  have lt: "P < N" using assms(1) pn by simp
  then have "(of_nat P :: rat) < of_nat N" by (simp only: of_nat_less_iff)
  have ltq: "dbl (of_nat P / of_nat N) < 1"
  proof -
    have N2: "N \<le> 2 ^ 53" using assms(2) by (simp add: N_def)
    have Pos: "(0 :: rat) < of_nat N" using lt by simp
    have "of_nat P + 1 \<le> (of_nat N :: rat)" using lt by (metis Suc_eq_plus1 Suc_leI of_nat_1 of_nat_add of_nat_le_iff)
    have q: "of_nat P / of_nat N \<le> (1 - 1 / 2 ^ 53 :: rat)"
    proof -
      have "(of_nat N :: rat) \<le> of_nat (2 ^ 53)" using N2 by (simp only: of_nat_le_iff)
      then have "1 / 2 ^ 53 * of_nat N \<le> (1 :: rat)" by simp
      then have "of_nat P \<le> (1 - 1 / 2 ^ 53) * (of_nat N :: rat)"
        using \<open>of_nat P + 1 \<le> of_nat N\<close> by (simp add: left_diff_distrib)
      then show ?thesis using Pos by (simp add: pos_divide_le_eq)
    qed
    have "dbl (1 - 1 / 2 ^ 53) = 1 - 1 / 2 ^ 53" by code_simp
    with dbl_mono [OF q] show ?thesis by simp
  qed
  have nm: "\<not> me_max e \<le> P" using lt by (simp add: N_def)
  have plan: "mp_dpn (mix_plan_of e n) = 1" "mp_npd (mix_plan_of e n) = dbl (of_nat N / of_nat P)"
    using lt ltq nm by (simp_all add: mix_plan_of_def Let_def P_def [symmetric] N_def [symmetric])
  have "nulls \<le> 2 ^ 53" using assms(2,3) pn by (simp add: N_def)
  from mix_nulls_light [OF this] assms(3) show ?thesis unfolding plan pn by simp
qed

theorem mix_padding_even_witness:
  "mix_nulls 1 (dbl (5 / 2)) 5 1 0 = 3"
proof -
  have p: "mp_packets (mix_plan_of (demo_env 0) 376) = 2" "mp_nulls (mix_plan_of (demo_env 0) 376) = 5"
    by (simp_all add: mix_plan_of_def Let_def demo_env_def ts_sizes)
  have q: "mp_dpn (mix_plan_of (demo_env 0) 376) = 1" "mp_npd (mix_plan_of (demo_env 0) 376) = dbl (5 / 2)"
    by code_simp+
  have "c_round (dbl (1 * dbl (5 / 2))) = 3" by code_simp
  with mix_padding_even [of "demo_env 0" 376 0 1] p show ?thesis
    unfolding q by (simp add: demo_env_def)
qed

end
