(* ===== verification/Writer.thy ===== *)
theory Writer
  imports Obuf
begin

text \<open>
  The writing thread, \<^verbatim>\<open>src/output_write.c\<close>: it corrects the PCRs and the
  padding of each 1316-byte frame of a full buffer, sends the frame as a UDP datagram or an
  RTP packet, paces itself, and resets the buffer when it is used up. The results of the
  system calls and the clock are arguments.
\<close>

section \<open>State\<close>

text \<open>The part of \<^verbatim>\<open>OUTPUT\<close> (\<^verbatim>\<open>src/data.h\<close>) the thread uses.\<close>

record woutput =
  ofd :: int
  traffic :: u64
  traffic_period :: u64
  padding_period :: u64
  last_org_pcr :: "u64 list"
  last_pcr :: "u64 list"
  last_traffic :: "u64 list"
  rtp_sequence_number :: u16
  rtp_ssrc :: u32
  o_bitrate :: rat

text \<open>The results of the calls made for one frame: \<^verbatim>\<open>fdwrite\<close>, \<^verbatim>\<open>write\<close>, the clock in microseconds.\<close>

record frame_io =
  net_result :: int
  file_result :: int
  clock_us :: u64

section \<open>Correcting a frame\<close>

text \<open>
  The PCR recomputed from the bytes sent since the last one: 64-bit products that wrap, then
  doubles. The conversion back to 64 bits is defined below \<open>2 ^ 64\<close>.
\<close>

definition restamped :: "woutput \<Rightarrow> u64 \<Rightarrow> u64 \<Rightarrow> u64" where
  "restamped out old_pcr delta =
     (let d = dbl (dbl (of_nat (unat (delta * 8 * 27000000))) / o_bitrate out)
      in word_of_int (c_trunc (dbl (dbl (of_nat (unat old_pcr)) + d))))"

definition null_fix :: "ts_ops \<Rightarrow> bytes \<Rightarrow> bytes" where
  "null_fix T p = (if ts_get_pid T p = 0x1fff then p[3 := 0x10] else p)"

definition ts_packet_process :: "ts_ops \<Rightarrow> int \<Rightarrow> woutput \<Rightarrow> nat \<Rightarrow> bytes \<Rightarrow> woutput \<times> bytes" where
  "ts_packet_process T pcr_mode out i p =
     (let pid = ts_get_pid T p;
          p1 = null_fix T p;
          out1 = (if pid = 0x1fff then out\<lparr> padding_period := padding_period out + 188 \<rparr> else out)
      in if ts_has_pcr T p1 then
           (let pcr = ts_get_pcr T p1;
                bytes = traffic out1 + word_of_nat i;
                k = unat pid;
                old_pcr = last_pcr out1 ! k;
                (new_pcr, p2) =
                  (if old_pcr \<noteq> 0 \<and> last_org_pcr out1 ! k < pcr then
                     (let n = restamped out1 old_pcr (bytes - last_traffic out1 ! k)
                      in (n, if pcr_mode = 2 \<or> pcr_mode = 3 then ts_set_pcr T p1 n else p1))
                   else (pcr, p1))
            in (out1\<lparr> last_pcr := (last_pcr out1)[k := new_pcr],
                      last_org_pcr := (last_org_pcr out1)[k := pcr],
                      last_traffic := (last_traffic out1)[k := bytes] \<rparr>, p2))
         else (out1, p1))"

definition ts_frame_step :: "ts_ops \<Rightarrow> int \<Rightarrow> woutput \<times> bytes \<Rightarrow> nat \<Rightarrow> woutput \<times> bytes" where
  "ts_frame_step T pcr_mode od k =
     (case ts_packet_process T pcr_mode (fst od) (k * TS_PACKET_SIZE) (slot (snd od) k) of
        (out', p') \<Rightarrow> (out', blit (snd od) (k * TS_PACKET_SIZE) p'))"

definition ts_frame_process :: "ts_ops \<Rightarrow> int \<Rightarrow> woutput \<Rightarrow> bytes \<Rightarrow> woutput \<times> bytes" where
  "ts_frame_process T pcr_mode out data =
     foldl (ts_frame_step T pcr_mode) (out, data) [0..<FRAME_PACKET_SIZE div TS_PACKET_SIZE]"

section \<open>Sending a frame\<close>

text \<open>Each writer gives its result, the new state and the bytes handed to the socket.\<close>

definition count_traffic :: "int \<Rightarrow> woutput \<Rightarrow> woutput" where
  "count_traffic n out =
     out\<lparr> traffic := traffic out + word_of_int n, traffic_period := traffic_period out + word_of_int n \<rparr>"

definition ts_frame_write :: "woutput \<Rightarrow> bytes \<Rightarrow> frame_io \<Rightarrow> int \<times> woutput \<times> bytes" where
  "ts_frame_write out data io =
     (let written = net_result io;
          written2 = (if ofd out \<noteq> 0 then file_result io else 0);
          w = (if written2 > written then written2 else written)
      in (w, if w \<ge> 0 then count_traffic w out else out, data))"

definition be16 :: "u16 \<Rightarrow> bytes" where
  "be16 x = [word_of_nat (unat x div 256), word_of_nat (unat x mod 256)]"

definition be32 :: "u32 \<Rightarrow> bytes" where
  "be32 x = [word_of_nat (unat x div 2 ^ 24), word_of_nat (unat x div 2 ^ 16 mod 256),
             word_of_nat (unat x div 2 ^ 8 mod 256), word_of_nat (unat x mod 256)]"

text \<open>The 90 kHz clock.\<close>

definition rtp_timestamp :: "u64 \<Rightarrow> u32" where
  "rtp_timestamp time = word_of_nat
     ((90000 * (unat time div 1000000)) mod 2 ^ 32 + (9 * (unat time mod 1000000)) div 100)"

definition rtp_header :: "woutput \<Rightarrow> u64 \<Rightarrow> bytes" where
  "rtp_header out time =
     [push_bit 6 (2 AND 0x03) OR push_bit 5 (0 AND 0x01) OR push_bit 4 (0 AND 0x01) OR (0 AND 0x0F),
      push_bit 7 (0 AND 0x01) OR (33 AND 0x7F)] @
     be16 (rtp_sequence_number out) @ be32 (rtp_timestamp time) @ be32 (rtp_ssrc out)"

definition ts_frame_write_rtp :: "woutput \<Rightarrow> bytes \<Rightarrow> frame_io \<Rightarrow> int \<times> woutput \<times> bytes" where
  "ts_frame_write_rtp out data io =
     (let written = net_result io;
          written2 = (if ofd out \<noteq> 0 then file_result io else 0);
          w = (if written2 > written then written2 + int RTP_HEADER_SIZE else written);
          (w', out1) = (if w \<ge> int RTP_HEADER_SIZE
                        then (w - int RTP_HEADER_SIZE, count_traffic (w - int RTP_HEADER_SIZE) out)
                        else (w, out))
      in (w', out1\<lparr> rtp_sequence_number := rtp_sequence_number out1 + 1 \<rparr>, rtp_header out (clock_us io) @ data))"

definition frame_send :: "woutput \<Rightarrow> bytes \<Rightarrow> frame_io \<Rightarrow> int \<times> woutput \<times> bytes" where
  "frame_send out = (if rtp_ssrc out \<noteq> 0 then ts_frame_write_rtp out else ts_frame_write out)"

section \<open>Pacing\<close>

text \<open>
  The sleep after a frame, in microseconds: after the first frame of a buffer the whole
  packet time, later what is left of the time the frames should have taken.
\<close>

definition sleep_interval :: "int \<Rightarrow> int \<Rightarrow> int \<Rightarrow> int \<Rightarrow> int" where
  "sleep_interval output_tmout usleep_overhead packets_written time_taken =
     (if packets_written \<noteq> 0 then
        (let real_time = packets_written * (output_tmout + usleep_overhead);
             time_diff = real_time - time_taken
         in if time_diff > output_tmout - usleep_overhead then
              (if time_diff - usleep_overhead < 0 then 1 else time_diff - usleep_overhead)
            else 0)
      else output_tmout)"

text \<open>The statistics are shown, and their counters reset, once per interval.\<close>

definition show_stats :: "int \<Rightarrow> int \<Rightarrow> woutput \<Rightarrow> woutput" where
  "show_stats stats_interval stats_timeout out =
     (if stats_interval > stats_timeout then out\<lparr> traffic_period := 0, padding_period := 0 \<rparr> else out)"

section \<open>Writing a buffer\<close>

text \<open>
  The loop over the frames of a buffer. \<open>io k\<close> gives the results for the \<open>k\<close>-th
  frame, \<open>die k\<close> the test of \<^verbatim>\<open>dienow\<close> before it. The result: whether
  the thread was stopped, the sum of the results, the state, the buffer and the datagrams.
\<close>

function write_loop ::
  "ts_ops \<Rightarrow> int \<Rightarrow> (nat \<Rightarrow> frame_io) \<Rightarrow> (nat \<Rightarrow> bool) \<Rightarrow> nat \<Rightarrow> int \<Rightarrow> woutput \<Rightarrow> obuf \<Rightarrow> bytes list \<Rightarrow>
   bool \<times> int \<times> woutput \<times> obuf \<times> bytes list"
where
  "write_loop T mode io die k written out ob sent =
     (if ob_written ob < ob_size ob then
        (if die k then (True, written, out, ob, sent)
         else
           (case ts_frame_process T mode out (bslice (ob_buf ob) (ob_written ob) FRAME_PACKET_SIZE) of
              (out1, frame) \<Rightarrow>
                (case frame_send out1 frame (io k) of (w, out2, dgram) \<Rightarrow>
                   write_loop T mode io die (k + 1) (written + w) out2
                     (ob\<lparr> ob_buf := blit (ob_buf ob) (ob_written ob) frame,
                          ob_written := ob_written ob + FRAME_PACKET_SIZE \<rparr>)
                     (sent @ [dgram]))))
      else (False, written, out, ob, sent))"
  by pat_completeness auto
termination
  by (relation "measure (\<lambda>(_, _, _, _, _, _, _, ob, _). ob_size ob - ob_written ob)") (auto simp: ts_sizes)

declare write_loop.simps [simp del]

text \<open>
  One turn of \<^verbatim>\<open>output_handle_write\<close> with a full buffer. The result: whether
  the thread stops, whether it reconnects, the state, the buffer, the datagrams.
\<close>

definition write_buffer ::
  "ts_ops \<Rightarrow> int \<Rightarrow> int \<Rightarrow> int \<Rightarrow> (nat \<Rightarrow> frame_io) \<Rightarrow> (nat \<Rightarrow> bool) \<Rightarrow> woutput \<Rightarrow> obuf \<Rightarrow>
   bool \<times> bool \<times> woutput \<times> obuf \<times> bytes list"
where
  "write_buffer T mode stats_interval stats_timeout io die out ob =
     (let ob1 = ob\<lparr> ob_status := obuf_emptying \<rparr>;
          out1 = show_stats stats_interval stats_timeout out
      in case write_loop T mode io die 0 0 out1 ob1 [] of
           (stopped, written, out2, ob2, sent) \<Rightarrow>
             if stopped then (True, False, out2, ob2, sent)
             else (False, written < 0, out2, obuf_reset ob2, sent))"

section \<open>What correcting changes\<close>

text \<open>
  A corrected packet is the packet with the header byte of padding set, and in PCR modes 2
  and 3 possibly another PCR.
\<close>

definition corrected :: "ts_ops \<Rightarrow> int \<Rightarrow> bytes \<Rightarrow> bytes \<Rightarrow> bool" where
  "corrected T mode p p' \<longleftrightarrow>
     p' = null_fix T p \<or>
     (mode = 2 \<or> mode = 3) \<and> ts_has_pcr T (null_fix T p) \<and> (\<exists>x. p' = ts_set_pcr T (null_fix T p) x)"

text \<open>The fields that correcting leaves alone.\<close>

definition same_io :: "woutput \<Rightarrow> woutput \<Rightarrow> bool" where
  "same_io a b \<longleftrightarrow>
     ofd b = ofd a \<and> traffic b = traffic a \<and> traffic_period b = traffic_period a \<and>
     rtp_sequence_number b = rtp_sequence_number a \<and> rtp_ssrc b = rtp_ssrc a \<and> o_bitrate b = o_bitrate a"

lemma same_io_refl [simp]: "same_io a a"
  by (simp add: same_io_def)

lemma same_io_trans: "same_io a b \<Longrightarrow> same_io b c \<Longrightarrow> same_io a c"
  by (simp add: same_io_def)

lemma null_fix_packet: "is_packet p \<Longrightarrow> is_packet (null_fix T p)"
  by (simp add: null_fix_def is_packet_def)

lemma corrected_packet:
  "ts_ops_ok T \<Longrightarrow> is_packet p \<Longrightarrow> corrected T mode p p' \<Longrightarrow> is_packet p'"
  using null_fix_packet [of p T] ts_ops_okD(4) by (auto simp: corrected_def)

lemma ts_packet_process_corrected:
  assumes "ts_packet_process T mode out i p = (out', p')"
  shows "corrected T mode p p' \<and> same_io out out'"
  using assms
  by (auto simp: ts_packet_process_def corrected_def same_io_def Let_def split: if_splits prod.splits)

lemma frame_slots: "FRAME_PACKET_SIZE div TS_PACKET_SIZE = 7" "7 * TS_PACKET_SIZE = FRAME_PACKET_SIZE"
  by (simp_all add: ts_sizes)

lemma slot_packet: "length d = FRAME_PACKET_SIZE \<Longrightarrow> k < 7 \<Longrightarrow> is_packet (slot d k)"
  by (simp add: is_packet_def ts_sizes slot_def)

lemma ts_frame_fold:
  assumes T: "ts_ops_ok T" and len: "length data = FRAME_PACKET_SIZE"
  shows "n \<le> 7 \<Longrightarrow> foldl (ts_frame_step T mode) (out, data) [0..<n] = (out', d') \<Longrightarrow>
    length d' = FRAME_PACKET_SIZE \<and> same_io out out' \<and>
    (\<forall>k < n. corrected T mode (slot data k) (slot d' k)) \<and> (\<forall>k \<ge> n. slot d' k = slot data k)"
proof (induction n arbitrary: out' d')
  case 0
  then show ?case using len by simp
next
  case (Suc n)
  obtain o1 d1 where s: "foldl (ts_frame_step T mode) (out, data) [0..<n] = (o1, d1)" by fastforce
  with Suc have IH: "length d1 = FRAME_PACKET_SIZE" "same_io out o1"
    "\<forall>k < n. corrected T mode (slot data k) (slot d1 k)" "\<forall>k \<ge> n. slot d1 k = slot data k" by auto
  obtain o2 p' where p: "ts_packet_process T mode o1 (n * TS_PACKET_SIZE) (slot d1 n) = (o2, p')" by fastforce
  from ts_packet_process_corrected [OF p] have c: "corrected T mode (slot d1 n) p'" "same_io o1 o2" by auto
  have "is_packet (slot d1 n)" using IH(1) Suc.prems by (intro slot_packet) auto
  from corrected_packet [OF T this c(1)] have l: "length p' = TS_PACKET_SIZE" by (simp add: is_packet_def)
  have b: "(n + 1) * TS_PACKET_SIZE \<le> length d1" using IH(1) Suc.prems(1) by (simp add: ts_sizes)
  have "foldl (ts_frame_step T mode) (out, data) [0..<Suc n] = ts_frame_step T mode (o1, d1) n"
    using s by simp
  also have "\<dots> = (o2, blit d1 (n * TS_PACKET_SIZE) p')" using p by (simp add: ts_frame_step_def)
  finally have e: "out' = o2" "d' = blit d1 (n * TS_PACKET_SIZE) p'" using Suc.prems(2) by auto
  have "length d' = length d1" using l b unfolding e by simp
  then show ?case
    using IH c slot_blit [OF l b] same_io_trans [OF IH(2) c(2)] unfolding e
    by (auto simp: less_Suc_eq)
qed

lemma ts_frame_process_corrected:
  assumes "ts_ops_ok T" "length data = FRAME_PACKET_SIZE" "ts_frame_process T mode out data = (out', d')"
  shows "length d' = FRAME_PACKET_SIZE \<and> same_io out out' \<and>
    (\<forall>k < 7. corrected T mode (slot data k) (slot d' k))"
  using ts_frame_fold [OF assms(1,2), of 7] assms(3) by (simp add: ts_frame_process_def frame_slots)

section \<open>Frame writers\<close>

text \<open>
  What the writing loop relies on: the datagram is a header of a known length and the frame;
  the tables and the configuration stay; the whole datagram sent counts as the frame's
  bytes; and, without an output file, no result is negative.
\<close>

locale frame_writer =
  fixes send :: "woutput \<Rightarrow> bytes \<Rightarrow> frame_io \<Rightarrow> int \<times> woutput \<times> bytes"
    and hdr :: "u32 \<Rightarrow> nat"
  assumes payload: "send out f io = (w, out', d) \<Longrightarrow>
      length d = hdr (rtp_ssrc out) + length f \<and> drop (hdr (rtp_ssrc out)) d = f"
    and kept: "send out f io = (w, out', d) \<Longrightarrow>
      ofd out' = ofd out \<and> rtp_ssrc out' = rtp_ssrc out \<and> o_bitrate out' = o_bitrate out \<and>
      last_pcr out' = last_pcr out \<and> last_org_pcr out' = last_org_pcr out \<and>
      last_traffic out' = last_traffic out"
    and sent: "send out f io = (w, out', d) \<Longrightarrow> net_result io = int (length d) \<Longrightarrow>
      file_result io \<le> int (length f) \<Longrightarrow>
      w = int (length f) \<and> traffic out' = traffic out + of_nat (length f)"
    and masked: "send out f io = (w, out', d) \<Longrightarrow> ofd out = 0 \<Longrightarrow> 0 \<le> w"
begin

text \<open>Correcting and sending one frame.\<close>

lemma corrected_sent:
  assumes "ts_ops_ok T" "length f = FRAME_PACKET_SIZE" "ts_frame_process T mode out f = (out1, f1)"
    "send out1 f1 io = (w, out2, d)"
  shows "length d = hdr (rtp_ssrc out) + FRAME_PACKET_SIZE"
    and "k < 7 \<Longrightarrow> corrected T mode (slot f k) (slot (drop (hdr (rtp_ssrc out)) d) k)"
    and "rtp_ssrc out2 = rtp_ssrc out" and "ofd out2 = ofd out" and "length f1 = FRAME_PACKET_SIZE"
    and "ofd out = 0 \<Longrightarrow> 0 \<le> w"
    and "net_result io = int (length d) \<Longrightarrow> file_result io \<le> int FRAME_PACKET_SIZE \<Longrightarrow>
         traffic out2 = traffic out + of_nat FRAME_PACKET_SIZE"
proof -
  note P = ts_frame_process_corrected [OF assms(1-3)]
  note S = payload [OF assms(4)] kept [OF assms(4)] masked [OF assms(4)] sent [OF assms(4)]
  have ss: "rtp_ssrc out1 = rtp_ssrc out" "ofd out1 = ofd out" "traffic out1 = traffic out"
    using P by (auto simp: same_io_def)
  show "length d = hdr (rtp_ssrc out) + FRAME_PACKET_SIZE" using P S ss by simp
  show "k < 7 \<Longrightarrow> corrected T mode (slot f k) (slot (drop (hdr (rtp_ssrc out)) d) k)" using P S ss by simp
  show "rtp_ssrc out2 = rtp_ssrc out" "ofd out2 = ofd out" "length f1 = FRAME_PACKET_SIZE"
    "ofd out = 0 \<Longrightarrow> 0 \<le> w" using P S ss by simp_all
  show "net_result io = int (length d) \<Longrightarrow> file_result io \<le> int FRAME_PACKET_SIZE \<Longrightarrow>
         traffic out2 = traffic out + of_nat FRAME_PACKET_SIZE" using P S ss by simp
qed

end

lemma length_rtp_header [len_simps, simp]: "length (rtp_header out t) = RTP_HEADER_SIZE"
  by (simp add: rtp_header_def be16_def be32_def ts_sizes)

interpretation plain_writer: frame_writer ts_frame_write "\<lambda>_. 0"
  by unfold_locales (auto simp: ts_frame_write_def Let_def count_traffic_def split: if_splits)

interpretation rtp_writer: frame_writer ts_frame_write_rtp "\<lambda>_. RTP_HEADER_SIZE"
proof
  fix out f io w out' d
  assume s: "ts_frame_write_rtp out f io = (w, out', d)"
  show "length d = RTP_HEADER_SIZE + length f \<and> drop RTP_HEADER_SIZE d = f"
    using s by (auto simp: ts_frame_write_rtp_def Let_def split: prod.splits)
  show "ofd out' = ofd out \<and> rtp_ssrc out' = rtp_ssrc out \<and> o_bitrate out' = o_bitrate out \<and>
      last_pcr out' = last_pcr out \<and> last_org_pcr out' = last_org_pcr out \<and> last_traffic out' = last_traffic out"
    using s by (auto simp: ts_frame_write_rtp_def Let_def count_traffic_def split: if_splits prod.splits)
  show "w = int (length f) \<and> traffic out' = traffic out + of_nat (length f)"
    if "net_result io = int (length d)" "file_result io \<le> int (length f)"
    using s that by (auto simp: ts_frame_write_rtp_def Let_def count_traffic_def split: if_splits)
  show "0 \<le> w" if "ofd out = 0"
    using s that by (auto simp: ts_frame_write_rtp_def Let_def ts_sizes split: if_splits)
qed

interpretation any_writer: frame_writer frame_send "\<lambda>s. if s \<noteq> 0 then RTP_HEADER_SIZE else 0"
proof
  fix out f io w out' d
  assume s: "frame_send out f io = (w, out', d)"
  show "length d = (if rtp_ssrc out \<noteq> 0 then RTP_HEADER_SIZE else 0) + length f \<and>
        drop (if rtp_ssrc out \<noteq> 0 then RTP_HEADER_SIZE else 0) d = f"
    using s plain_writer.payload rtp_writer.payload by (auto simp: frame_send_def split: if_splits)
  show "ofd out' = ofd out \<and> rtp_ssrc out' = rtp_ssrc out \<and> o_bitrate out' = o_bitrate out \<and>
      last_pcr out' = last_pcr out \<and> last_org_pcr out' = last_org_pcr out \<and> last_traffic out' = last_traffic out"
    using s plain_writer.kept rtp_writer.kept unfolding frame_send_def by (auto split: if_splits)
  show "w = int (length f) \<and> traffic out' = traffic out + of_nat (length f)"
    if "net_result io = int (length d)" "file_result io \<le> int (length f)"
    using s that plain_writer.sent rtp_writer.sent unfolding frame_send_def by (auto split: if_splits)
  show "0 \<le> w" if "ofd out = 0"
    using s that plain_writer.masked rtp_writer.masked unfolding frame_send_def by (auto split: if_splits)
qed

section \<open>The writing loop\<close>

definition frame_at :: "bytes \<Rightarrow> nat \<Rightarrow> bytes" where
  "frame_at buf j = bslice buf (j * FRAME_PACKET_SIZE) FRAME_PACKET_SIZE"

lemma frame_at_blit_later:
  assumes "length f = FRAME_PACKET_SIZE" "(a + 1) * FRAME_PACKET_SIZE \<le> length buf" "a < j"
  shows "frame_at (blit buf (a * FRAME_PACKET_SIZE) f) j = frame_at buf j"
proof -
  have "(a + 1) * FRAME_PACKET_SIZE \<le> j * FRAME_PACKET_SIZE" using assms(3) by (intro mult_le_mono1) simp
  then show ?thesis using assms by (simp add: frame_at_def bslice_blit_after)
qed

text \<open>The length of the header in front of a frame.\<close>

definition hdr_len :: "woutput \<Rightarrow> nat" where
  "hdr_len out = (if rtp_ssrc out \<noteq> 0 then RTP_HEADER_SIZE else 0)"

text \<open>
  The datagrams sent for the frames of \<open>buf\<close> from frame \<open>a\<close> on: each is a header and the
  corrected frame, and RTP sequence numbers are consecutive.
\<close>

definition sends :: "ts_ops \<Rightarrow> int \<Rightarrow> woutput \<Rightarrow> bytes \<Rightarrow> nat \<Rightarrow> bytes list \<Rightarrow> bool" where
  "sends T mode out buf a ds \<longleftrightarrow>
     (\<forall>j < length ds. length (ds ! j) = hdr_len out + FRAME_PACKET_SIZE \<and>
        (\<forall>k < 7. corrected T mode (slot (frame_at buf (a + j)) k) (slot (drop (hdr_len out) (ds ! j)) k)) \<and>
        (rtp_ssrc out \<noteq> 0 \<longrightarrow>
           bslice (ds ! j) 2 2 = be16 (rtp_sequence_number out + of_nat j) \<and>
           bslice (ds ! j) 8 4 = be32 (rtp_ssrc out)))"

lemma frame_send_rtp:
  assumes "frame_send out f io = (w, out', d)" "rtp_ssrc out \<noteq> 0"
  shows "bslice d 2 2 = be16 (rtp_sequence_number out)" "bslice d 8 4 = be32 (rtp_ssrc out)"
    and "rtp_sequence_number out' = rtp_sequence_number out + 1"
  using assms
  by (auto simp: frame_send_def ts_frame_write_rtp_def rtp_header_def bslice_def be16_def be32_def Let_def
      count_traffic_def split: if_splits)

lemma sends_Cons:
  assumes "length d = hdr_len out + FRAME_PACKET_SIZE"
    and "\<And>k. k < 7 \<Longrightarrow> corrected T mode (slot (frame_at buf a) k) (slot (drop (hdr_len out) d) k)"
    and "rtp_ssrc out \<noteq> 0 \<Longrightarrow> bslice d 2 2 = be16 (rtp_sequence_number out) \<and> bslice d 8 4 = be32 (rtp_ssrc out) \<and>
         rtp_sequence_number out2 = rtp_sequence_number out + 1"
    and "rtp_ssrc out2 = rtp_ssrc out" "sends T mode out2 buf2 (a + 1) ds"
    and "\<And>j. j < length ds \<Longrightarrow> frame_at buf2 (a + 1 + j) = frame_at buf (a + 1 + j)"
  shows "sends T mode out buf a (d # ds)"
  unfolding sends_def
proof (intro allI impI)
  fix j
  assume "j < length (d # ds)"
  then show "length ((d # ds) ! j) = hdr_len out + FRAME_PACKET_SIZE \<and>
        (\<forall>k < 7. corrected T mode (slot (frame_at buf (a + j)) k) (slot (drop (hdr_len out) ((d # ds) ! j)) k)) \<and>
        (rtp_ssrc out \<noteq> 0 \<longrightarrow>
           bslice ((d # ds) ! j) 2 2 = be16 (rtp_sequence_number out + of_nat j) \<and>
           bslice ((d # ds) ! j) 8 4 = be32 (rtp_ssrc out))"
  proof (cases j)
    case 0
    with assms(1-3) show ?thesis by simp
  next
    case (Suc i)
    have "hdr_len out2 = hdr_len out" using assms(4) by (simp add: hdr_len_def)
    with Suc assms(3-6) \<open>j < length (d # ds)\<close> show ?thesis
      by (auto simp: sends_def add.assoc)
  qed
qed

lemma write_loop_sends:
  assumes T: "ts_ops_ok T" and die: "\<And>i. \<not> die i"
  shows "obuf_ok ob \<Longrightarrow> ob_written ob = a * FRAME_PACKET_SIZE \<Longrightarrow> ob_size ob = n * FRAME_PACKET_SIZE \<Longrightarrow>
    a \<le> n \<Longrightarrow>
    \<exists>w' out' ob' ds. write_loop T mode io die k w out ob sent = (False, w', out', ob', sent @ ds) \<and>
      obuf_ok ob' \<and> ob_size ob' = ob_size ob \<and> ob_status ob' = ob_status ob \<and> ob_written ob' = ob_size ob \<and>
      length ds = n - a \<and> sends T mode out (ob_buf ob) a ds \<and> (ofd out = 0 \<longrightarrow> w \<le> w')"
proof (induction "n - a" arbitrary: a k w out ob sent)
  case 0
  then have "\<not> ob_written ob < ob_size ob" by simp
  with 0 show ?case by (subst write_loop.simps) (simp add: sends_def)
next
  case (Suc m)
  have lt: "a < n" using Suc.hyps(2) by simp
  then have more: "ob_written ob < ob_size ob" using Suc.prems by (simp add: ts_sizes)
  have sz: "(a + 1) * FRAME_PACKET_SIZE \<le> length (ob_buf ob)"
  proof -
    have "(a + 1) * FRAME_PACKET_SIZE \<le> n * FRAME_PACKET_SIZE" using lt by (intro mult_le_mono1) simp
    then show ?thesis using Suc.prems by (simp add: obuf_ok_def)
  qed
  define f where "f = frame_at (ob_buf ob) a"
  have lf: "length f = FRAME_PACKET_SIZE" using sz by (simp add: f_def frame_at_def)
  obtain out1 f1 where p: "ts_frame_process T mode out f = (out1, f1)" by fastforce
  obtain w1 out2 d where s: "frame_send out1 f1 (io k) = (w1, out2, d)" by (metis prod_cases3)
  note A = any_writer.corrected_sent [OF T lf p s, folded hdr_len_def]
  define ob2 where "ob2 = ob\<lparr> ob_buf := blit (ob_buf ob) (ob_written ob) f1,
      ob_written := ob_written ob + FRAME_PACKET_SIZE \<rparr>"
  have ok2: "obuf_ok ob2" using Suc.prems sz A(5) by (simp add: obuf_ok_def ob2_def)
  have st: "write_loop T mode io die k w out ob sent = write_loop T mode io die (k + 1) (w + w1) out2 ob2 (sent @ [d])"
    using more die p s Suc.prems(2) by (subst write_loop.simps) (simp add: ob2_def f_def frame_at_def)
  have "\<exists>w' out' ob' ds. write_loop T mode io die (k + 1) (w + w1) out2 ob2 (sent @ [d]) = (False, w', out', ob', (sent @ [d]) @ ds) \<and>
      obuf_ok ob' \<and> ob_size ob' = ob_size ob2 \<and> ob_status ob' = ob_status ob2 \<and> ob_written ob' = ob_size ob2 \<and>
      length ds = n - (a + 1) \<and> sends T mode out2 (ob_buf ob2) (a + 1) ds \<and> (ofd out2 = 0 \<longrightarrow> w + w1 \<le> w')"
    by (rule Suc.hyps(1)) (use Suc.hyps(2) Suc.prems lt ok2 in \<open>auto simp: ob2_def\<close>)
  then obtain w' out' ob' ds where R:
    "write_loop T mode io die k w out ob sent = (False, w', out', ob', (sent @ [d]) @ ds)"
    "obuf_ok ob'" "ob_size ob' = ob_size ob2" "ob_status ob' = ob_status ob2" "ob_written ob' = ob_size ob2"
    "length ds = n - (a + 1)" "sends T mode out2 (ob_buf ob2) (a + 1) ds" "ofd out2 = 0 \<longrightarrow> w + w1 \<le> w'"
    unfolding st by blast
  have io1: "rtp_ssrc out1 = rtp_ssrc out" "rtp_sequence_number out1 = rtp_sequence_number out"
    using ts_frame_process_corrected [OF T lf p] by (auto simp: same_io_def)
  have later: "frame_at (ob_buf ob2) (a + 1 + j) = frame_at (ob_buf ob) (a + 1 + j)" for j
    using frame_at_blit_later [OF A(5) sz, of "a + 1 + j"] Suc.prems(2) by (simp add: ob2_def)
  have "sends T mode out (ob_buf ob) a (d # ds)"
    by (rule sends_Cons [OF _ _ _ A(3) R(7) later])
      (use A(1,2) frame_send_rtp [OF s] io1 in \<open>auto simp: f_def\<close>)
  then show ?case
    using R A(4,6) Suc.hyps(2) lt
    by (intro exI [of _ w'] exI [of _ out'] exI [of _ ob'] exI [of _ "d # ds"]) (auto simp: ob2_def)
qed

text \<open>One full buffer: every frame is sent in order, and the buffer comes back reset.\<close>

lemma write_buffer_sends:
  assumes "ts_ops_ok T" "\<And>i. \<not> die i" "obuf_ok ob" "ob_written ob = 0"
  shows "\<exists>rc out' ob' ds. write_buffer T mode si st io die out ob = (False, rc, out', ob', ds) \<and>
    obuf_ok ob' \<and> all_null ob' \<and> ob_status ob' = obuf_empty \<and> ob_written ob' = 0 \<and> ob_size ob' = ob_size ob \<and>
    length ds = ob_size ob div FRAME_PACKET_SIZE \<and>
    sends T mode (show_stats si st out) (ob_buf ob) 0 ds \<and> (ofd out = 0 \<longrightarrow> \<not> rc)"
proof -
  let ?ob = "ob\<lparr> ob_status := obuf_emptying \<rparr>"
  let ?out = "show_stats si st out"
  have ok: "obuf_ok ?ob" using assms(3) by (simp add: obuf_ok_def)
  obtain n where n: "ob_size ob = n * FRAME_PACKET_SIZE" 
    using assms(3) unfolding obuf_ok_def by (metis dvd_def mult.commute)
  have "\<exists>w' out' ob' ds. write_loop T mode io die 0 0 ?out ?ob [] = (False, w', out', ob', [] @ ds) \<and>
      obuf_ok ob' \<and> ob_size ob' = ob_size ?ob \<and> ob_status ob' = ob_status ?ob \<and> ob_written ob' = ob_size ?ob \<and>
      length ds = n - 0 \<and> sends T mode ?out (ob_buf ?ob) 0 ds \<and> (ofd ?out = 0 \<longrightarrow> 0 \<le> w')"
    by (rule write_loop_sends [OF assms(1,2) ok]) (use assms(4) n in auto)
  then obtain w' out' ob' ds where R: "write_loop T mode io die 0 0 ?out ?ob [] = (False, w', out', ob', ds)"
    "obuf_ok ob'" "ob_size ob' = ob_size ob" "length ds = n" "sends T mode ?out (ob_buf ob) 0 ds"
    "ofd ?out = 0 \<longrightarrow> 0 \<le> w'" by auto
  have "ofd ?out = ofd out" by (simp add: show_stats_def)
  moreover have "n = ob_size ob div FRAME_PACKET_SIZE" using n by (simp add: ts_sizes)
  ultimately show ?thesis
    using R by (auto simp: write_buffer_def Let_def obuf_reset_ok obuf_reset_null)
qed

section \<open>The RTP clock and the recomputed PCR\<close>

lemma rtp_timestamp_90k: "unat (rtp_timestamp t) = (9 * unat t div 100) mod 2 ^ 32"
proof -
  have e: "9 * unat t div 100 = 90000 * (unat t div 1000000) + 9 * (unat t mod 1000000) div 100"
  proof -
    have "9 * unat t = 100 * (90000 * (unat t div 1000000)) + 9 * (unat t mod 1000000)"
      using div_mult_mod_eq [of "unat t" 1000000] by linarith
    then show ?thesis by simp
  qed
  have u: "unat (word_of_nat n :: u32) = n mod 2 ^ 32" for n by (simp add: unat_of_nat)
  show ?thesis unfolding rtp_timestamp_def u e by (rule mod_add_left_eq)
qed

text \<open>
  Within the ranges that occur, the recomputed PCR is the old one plus the time the bytes
  take at the output bit rate, to less than two ticks of the 27 MHz clock.
\<close>

text \<open>Three roundings on the way from a sum with a quotient stay below half a unit.\<close>

lemma dbl_quotient_sum:
  fixes x b y :: rat
  assumes x: "0 \<le> x" and b: "0 < b" and q: "x / b < 2 ^ 48" and y: "0 \<le> y" "y < 2 ^ 48"
  shows "0 \<le> dbl (y + dbl (dbl x / b))" and "\<bar>dbl (y + dbl (dbl x / b)) - (y + x / b)\<bar> < 1 / 2"
proof -
  define v where "v = x / b"
  define c where "c = dbl x / b"
  define d where "d = dbl c"
  have "\<bar>c - v\<bar> = \<bar>dbl x - x\<bar> / b"
    by (simp only: c_def v_def diff_divide_distrib [symmetric] abs_divide abs_of_pos [OF b])
  also have "\<dots> \<le> (x / 2 ^ 53) / b" using dbl_err [of x] x b by (intro divide_right_mono) auto
  also have "\<dots> = v / 2 ^ 53" by (simp add: v_def)
  finally have e1: "\<bar>c - v\<bar> \<le> v / 2 ^ 53" .
  have c0: "0 \<le> c" using dbl_nonneg [OF x] b by (simp add: c_def)
  have e2: "\<bar>d - c\<bar> \<le> c / 2 ^ 53" using dbl_err [of c] c0 by (simp only: d_def abs_of_nonneg)
  have d0: "0 \<le> d" unfolding d_def by (rule dbl_nonneg [OF c0])
  have e3: "\<bar>dbl (y + d) - (y + d)\<bar> \<le> (y + d) / 2 ^ 53"
    using dbl_err [of "y + d"] d0 y(1) by (simp only: abs_of_nonneg add_nonneg_nonneg)
  have v: "v < 2 ^ 48" using q by (simp only: v_def)
  then have bnd: "v / 2 ^ 53 < 1 / 16" by simp
  with e1 v have "c < 2 ^ 48 + 1" by (simp only: abs_le_iff) linarith
  then have "c / 2 ^ 53 < 1 / 8" by simp
  with e2 e1 bnd have e12: "\<bar>d - v\<bar> < 3 / 16" by linarith
  then have "d < v + 3 / 16" by linarith
  with v y(2) have "y + d < 2 ^ 50" by simp
  then have "(y + d) / 2 ^ 53 < 1 / 8" by simp
  with e3 e12 have "\<bar>dbl (y + d) - (y + v)\<bar> < 1 / 2" by linarith
  then show "\<bar>dbl (y + dbl (dbl x / b)) - (y + x / b)\<bar> < 1 / 2" by (simp only: d_def c_def v_def)
  show "0 \<le> dbl (y + dbl (dbl x / b))" using d0 y(1) by (simp only: d_def c_def dbl_nonneg add_nonneg_nonneg)
qed

lemma restamped_accuracy:
  assumes d: "unat delta * 216000000 < 2 ^ 64" and o: "unat old < 2 ^ 48"
    and q: "of_nat (unat delta * 216000000) / o_bitrate out < 2 ^ 48" and b: "0 < o_bitrate out"
  shows "\<bar>of_nat (unat (restamped out old delta)) -
           (of_nat (unat old) + of_nat (unat delta * 216000000) / o_bitrate out)\<bar> < (2 :: rat)"
proof -
  let ?x = "of_nat (unat delta * 216000000) :: rat"
  let ?o = "of_nat (unat old) :: rat"
  define t where "t = dbl (?o + dbl (dbl ?x / o_bitrate out))"
  define v where "v = ?x / o_bitrate out"
  have ux: "unat (delta * 8 * 27000000) = unat delta * 216000000"
  proof -
    have "delta * 8 * 27000000 = word_of_nat (unat delta * 216000000)" by simp
    then show ?thesis using d by (simp only: unat_of_nat) simp
  qed
  have "?o < of_nat (2 ^ 48)" using o by (simp only: of_nat_less_iff)
  then have oo: "?o < 2 ^ 48" by simp
  from dbl_quotient_sum [OF of_nat_0_le_iff b q of_nat_0_le_iff oo]
  have t0: "0 \<le> t" and te: "\<bar>t - (?o + v)\<bar> < 1 / 2" by (simp_all only: t_def v_def)
  have "t < ?o + v + 1 / 2" using te by linarith
  then have "t < 2 ^ 51" using oo q [folded v_def] by simp
  with c_trunc_bounds [OF t0] have "of_int (c_trunc t) < (of_int (2 ^ 51) :: rat)" by simp
  then have "c_trunc t < 2 ^ 51" by (simp only: of_int_less_iff)
  moreover have c0: "0 \<le> c_trunc t" using t0 by (simp add: c_trunc_def)
  ultimately have cu: "unat (word_of_int (c_trunc t) :: u64) = nat (c_trunc t)"
    by (simp add: unat_eq_nat_uint uint_word_of_int)
  have "dbl ?o = ?o" using o by (intro dbl_nat) simp
  then have "restamped out old delta = word_of_int (c_trunc t)"
    unfolding restamped_def Let_def ux t_def by simp
  with cu c0 have "of_nat (unat (restamped out old delta)) = (of_int (c_trunc t) :: rat)" by simp
  with c_trunc_bounds [OF t0] te show ?thesis unfolding v_def [symmetric] by linarith
qed

section \<open>The error test that cannot fire\<close>

text \<open>Without an output file no frame's result is negative, so no sum of them is.\<close>

lemma ts_frame_process_ofd: "ts_frame_process T mode out data = (out', d') \<Longrightarrow> ofd out' = ofd out"
proof -
  have "ofd (fst (foldl (ts_frame_step T mode) od ks)) = ofd (fst od)" for od ks
  proof (induction ks arbitrary: od)
    case (Cons k ks)
    have "ofd (fst (ts_frame_step T mode od k)) = ofd (fst od)"
    proof -
      obtain o' p' where p: "ts_packet_process T mode (fst od) (k * TS_PACKET_SIZE) (slot (snd od) k) = (o', p')"
        by fastforce
      with ts_packet_process_corrected [OF p] show ?thesis by (simp add: ts_frame_step_def same_io_def)
    qed
    with Cons show ?case by simp
  qed simp
  from this [of "(out, data)"] show "ts_frame_process T mode out data = (out', d') \<Longrightarrow> ofd out' = ofd out"
    unfolding ts_frame_process_def by (metis fst_conv)
qed

lemma write_loop_nonneg:
  "write_loop T mode io die k w out ob sent = (st, w', out', ob', ds) \<Longrightarrow> ofd out = 0 \<Longrightarrow> 0 \<le> w \<Longrightarrow> 0 \<le> w'"
proof (induction T mode io die k w out ob sent rule: write_loop.induct)
  case (1 T mode io die k w out ob sent)
  show ?case
  proof (cases "ob_written ob < ob_size ob \<and> \<not> die k")
    case False
    with 1(2-4) show ?thesis by (subst (asm) write_loop.simps) (auto split: if_splits)
  next
    case True
    obtain o1 f where p: "ts_frame_process T mode out (bslice (ob_buf ob) (ob_written ob) FRAME_PACKET_SIZE) = (o1, f)"
      by fastforce
    obtain w1 o2 d where s: "frame_send o1 f (io k) = (w1, o2, d)" by (metis prod_cases3)
    have o1: "ofd o1 = 0" using ts_frame_process_ofd [OF p] 1(3) by simp
    have "0 \<le> w1" "ofd o2 = 0" using any_writer.masked [OF s o1] any_writer.kept [OF s] o1 by auto
    moreover have "write_loop T mode io die (k + 1) (w + w1) o2
        (ob\<lparr> ob_buf := blit (ob_buf ob) (ob_written ob) f, ob_written := ob_written ob + FRAME_PACKET_SIZE \<rparr>)
        (sent @ [d]) = (st, w', out', ob', ds)"
      using 1(2) True p s by (subst (asm) write_loop.simps) simp
    ultimately show ?thesis using 1(1) True p s 1(4) by auto
  qed
qed

section \<open>Properties\<close>

definition demo_out :: "int \<Rightarrow> u32 \<Rightarrow> woutput" where
  "demo_out fd ssrc =
     \<lparr> ofd = fd, traffic = 0, traffic_period = 0, padding_period = 0, last_org_pcr = replicate 8193 0,
       last_pcr = replicate 8193 0, last_traffic = replicate 8193 0, rtp_sequence_number = 65535,
       rtp_ssrc = ssrc, o_bitrate = 38000000 \<rparr>"

definition demo_full :: obuf where
  "demo_full = \<lparr> ob_buf = replicate 2632 0x47, ob_size = 2632, ob_written = 0, ob_status = obuf_full \<rparr>"

lemma demo_full_ok: "obuf_ok demo_full" "ob_written demo_full = 0"
  by (simp_all add: demo_full_def obuf_ok_def ts_sizes)

text \<open>
  C2. The writing thread sends every frame of a full buffer once and in order, each as one
  datagram: a header (12 bytes in RTP mode, with consecutive sequence numbers that wrap and the
  configured SSRC; none otherwise) and the seven packets of the frame, changed only in the
  header byte of padding and, in PCR modes 2 and 3, in their PCR. The buffer comes back
  empty, all padding.
\<close>

theorem write_buffer_frames:
  assumes "ts_ops_ok T" "\<And>i. \<not> die i" "obuf_ok ob" "ob_written ob = 0"
  shows "\<exists>rc out' ob' ds. write_buffer T mode si st io die out ob = (False, rc, out', ob', ds) \<and>
    all_null ob' \<and> ob_status ob' = obuf_empty \<and> ob_written ob' = 0 \<and> ob_size ob' = ob_size ob \<and>
    length ds = ob_size ob div FRAME_PACKET_SIZE \<and> sends T mode (show_stats si st out) (ob_buf ob) 0 ds"
  using write_buffer_sends [where T = T and die = die and ob = ob and mode = mode and si = si and st = st and
    io = io and out = out, OF assms] by blast

theorem write_buffer_frames_witness:
  "\<exists>rc out' ob' ds. write_buffer iso_ts 2 0 1 (\<lambda>_. \<lparr> net_result = 1328, file_result = 0, clock_us = 0 \<rparr>) (\<lambda>_. False)
      (demo_out 0 7) demo_full = (False, rc, out', ob', ds) \<and> length ds = 2 \<and>
     bslice (ds ! 0) 2 2 = be16 65535 \<and> bslice (ds ! 1) 2 2 = be16 0"
proof -
  from write_buffer_frames [OF iso_ts_ok _ demo_full_ok, where die = "\<lambda>_. False" and mode = 2 and si = 0 and st = 1
    and io = "\<lambda>_. \<lparr> net_result = 1328, file_result = 0, clock_us = 0 \<rparr>" and out = "demo_out 0 7"]
  obtain rc out' ob' ds where w: "write_buffer iso_ts 2 0 1 (\<lambda>_. \<lparr> net_result = 1328, file_result = 0, clock_us = 0 \<rparr>)
      (\<lambda>_. False) (demo_out 0 7) demo_full = (False, rc, out', ob', ds)"
    "length ds = ob_size demo_full div FRAME_PACKET_SIZE" "sends iso_ts 2 (show_stats 0 1 (demo_out 0 7)) (ob_buf demo_full) 0 ds"
    by auto
  have l: "length ds = 2" using w(2) by (simp add: demo_full_def ts_sizes)
  have o: "rtp_ssrc (show_stats 0 1 (demo_out 0 7)) \<noteq> 0"
    "rtp_sequence_number (show_stats 0 1 (demo_out 0 7)) = 65535"
    by (simp_all add: show_stats_def demo_out_def)
  have b: "bslice (ds ! j) 2 2 = be16 (65535 + of_nat j)" if "j < 2" for j
    using w(3) o that l unfolding sends_def by simp
  have z: "(65535 + of_nat 1 :: u16) = 0" by simp
  from b [of 0] b [of 1, unfolded z] have "bslice (ds ! 0) 2 2 = be16 65535 \<and> bslice (ds ! 1) 2 2 = be16 0" by simp
  with w(1) l show ?thesis by blast
qed

text \<open>
  Without an output file the sum the thread tests is never negative, whatever the
  network calls return, in plain and in RTP mode: a failing output socket is never reconnected.
\<close>

theorem network_error_masked:
  assumes "ofd out = 0" and "write_buffer T mode si st io die out ob = (stopped, reconnect, out', ob', ds)"
  shows "\<not> reconnect"
proof -
  obtain s w o2 b2 d2 where l: "write_loop T mode io die 0 0 (show_stats si st out) (ob\<lparr> ob_status := obuf_emptying \<rparr>) [] =
    (s, w, o2, b2, d2)" by (metis prod_cases5)
  have "ofd (show_stats si st out) = 0" using assms(1) by (simp add: show_stats_def)
  from write_loop_nonneg [OF l this] have "0 \<le> w" by simp
  with assms(2) l show ?thesis by (auto simp: write_buffer_def Let_def split: if_splits)
qed

theorem network_error_masked_witness:
  "\<exists>out' ob' ds. write_buffer iso_ts 0 0 1 (\<lambda>_. \<lparr> net_result = -1, file_result = 0, clock_us = 0 \<rparr>) (\<lambda>_. True)
     (demo_out 0 0) demo_full = (True, False, out', ob', ds)"
proof -
  let ?io = "\<lambda>_ :: nat. \<lparr> net_result = -1, file_result = 0, clock_us = 0 \<rparr>"
  obtain s r out' ob' ds where w: "write_buffer iso_ts 0 0 1 ?io (\<lambda>_. True) (demo_out 0 0) demo_full = (s, r, out', ob', ds)"
    by (metis prod_cases5)
  have "\<not> r" by (rule network_error_masked [OF _ w]) (simp add: demo_out_def)
  moreover have s
    using w by (simp add: write_buffer_def Let_def write_loop.simps demo_full_def)
  ultimately show ?thesis using w by simp
qed

text \<open>
  C32. The PCR the thread computes is the last PCR plus the time the bytes sent since take at the
  output bit rate, in spite of the roundings of three double operations, to less than
  two ticks of the 27 MHz clock.
\<close>

theorem pcr_restamp_accuracy:
  assumes "unat delta * 216000000 < 2 ^ 64" and "unat old < 2 ^ 48"
    and "of_nat (unat delta * 216000000) / o_bitrate out < 2 ^ 48" and "0 < o_bitrate out"
  shows "\<bar>of_nat (unat (restamped out old delta)) -
           (of_nat (unat old) + of_nat (unat delta * 216000000) / o_bitrate out)\<bar> < (2 :: rat)"
  by (rule restamped_accuracy [OF assms])

theorem pcr_restamp_accuracy_witness:
  "\<bar>of_nat (unat (restamped (demo_out 0 0) 1000 1316)) - (1000 + 284256000000 / 38000000)\<bar> < (2 :: rat)"
  using pcr_restamp_accuracy [of 1316 1000 "demo_out 0 0"] by (simp add: demo_out_def)

text \<open>The RTP timestamp is the 90 kHz count of the clock's microseconds, modulo 2 to the 32.\<close>

theorem rtp_timestamp_clock: "unat (rtp_timestamp t) = (9 * unat t div 100) mod 2 ^ 32"
  by (rule rtp_timestamp_90k)

end
