(* ===== verification/Counted.thy ===== *)
theory Counted
  imports Obuf
begin

text \<open>
  Streams of packets with continuity counters. The PSI thread and the input threads stamp the
  packets of the tables they send with a 4-bit counter per table and advance the counter by
  the number of packets. This theory states the contract as a locale and proves once that
  any sequence of operations that keep it numbers the packets of each stream consecutively.
\<close>

section \<open>Consecutive counters\<close>

definition packets_in :: "bytes \<Rightarrow> nat" where
  "packets_in bs = length bs div TS_PACKET_SIZE"

definition consec :: "4 word \<Rightarrow> bytes \<Rightarrow> bool" where
  "consec c bs \<longleftrightarrow>
     TS_PACKET_SIZE dvd length bs \<and> (\<forall>k < packets_in bs. cont_of (slot bs k) = (unat c + k) mod 16)"

lemma consec_Nil [simp]: "consec c []"
  by (simp add: consec_def packets_in_def)

lemma packets_in_append:
  "TS_PACKET_SIZE dvd length xs \<Longrightarrow> packets_in (xs @ ys) = packets_in xs + packets_in ys"
  by (auto simp: packets_in_def ts_sizes elim!: dvdE)

lemma slot_append_left: "(k + 1) * TS_PACKET_SIZE \<le> length xs \<Longrightarrow> slot (xs @ ys) k = slot xs k"
  by (simp add: slot_def bslice_def)

lemma slot_append_right: "length xs = n * TS_PACKET_SIZE \<Longrightarrow> slot (xs @ ys) (n + k) = slot ys k"
  by (simp add: slot_def bslice_def algebra_simps)

lemma unat_4_add: "unat (c + of_nat n :: 4 word) = (unat c + n) mod 16"
  by (simp add: unat_word_ariths unat_of_nat mod_simps)

lemma consec_append:
  assumes "consec c xs" and "consec (c + of_nat (packets_in xs)) ys"
  shows "consec c (xs @ ys)"
proof -
  obtain n where n: "length xs = n * TS_PACKET_SIZE"
    using assms(1) unfolding consec_def by (metis dvd_def mult.commute)
  then have px: "packets_in xs = n" by (simp add: packets_in_def ts_sizes)
  have "cont_of (slot (xs @ ys) k) = (unat c + k) mod 16" if k: "k < packets_in (xs @ ys)" for k
  proof (cases "k < n")
    case True
    then have "(k + 1) * TS_PACKET_SIZE \<le> length xs" unfolding n by (intro mult_le_mono1) simp
    then show ?thesis using assms(1) True px by (simp add: slot_append_left consec_def)
  next
    case False
    then obtain j where j: "k = n + j" by (metis le_add_diff_inverse not_less)
    have "j < packets_in ys" using k n px by (simp add: j packets_in_append)
    then have "cont_of (slot ys j) = (unat (c + of_nat n) + j) mod 16"
      using assms(2) px by (simp add: consec_def)
    then show ?thesis using slot_append_right [OF n] by (simp add: j unat_4_add mod_simps add.assoc)
  qed
  then show ?thesis using assms by (simp add: consec_def)
qed

section \<open>Traces of several streams\<close>

text \<open>A trace lists the chunks sent, each with its stream.\<close>

definition stream_bytes :: "nat \<Rightarrow> (nat \<times> bytes) list \<Rightarrow> bytes" where
  "stream_bytes g tr = concat (map snd (filter (\<lambda>x. fst x = g) tr))"

lemma stream_bytes_simps [simp]:
  "stream_bytes g [] = []"
  "stream_bytes g (x # tr) = (if fst x = g then snd x else []) @ stream_bytes g tr"
  "stream_bytes g (tr @ tr') = stream_bytes g tr @ stream_bytes g tr'"
  by (simp_all add: stream_bytes_def)

definition counted :: "(nat \<Rightarrow> 4 word) \<Rightarrow> (nat \<times> bytes) list \<Rightarrow> (nat \<Rightarrow> 4 word) \<Rightarrow> bool" where
  "counted c tr c' \<longleftrightarrow>
     (\<forall>g. consec (c g) (stream_bytes g tr) \<and> c' g = c g + of_nat (packets_in (stream_bytes g tr)))"

lemma counted_refl [simp]: "counted c [] c"
  by (simp add: counted_def packets_in_def)

lemma counted_trans:
  assumes "counted c tr c'" and "counted c' tr' c''"
  shows "counted c (tr @ tr') c''"
  unfolding counted_def
proof
  fix g
  have a: "consec (c g) (stream_bytes g tr)" "c' g = c g + of_nat (packets_in (stream_bytes g tr))"
    and b: "consec (c' g) (stream_bytes g tr')" "c'' g = c' g + of_nat (packets_in (stream_bytes g tr'))"
    using assms by (simp_all add: counted_def)
  have d: "TS_PACKET_SIZE dvd length (stream_bytes g tr)" using a(1) by (simp add: consec_def)
  show "consec (c g) (stream_bytes g (tr @ tr')) \<and>
        c'' g = c g + of_nat (packets_in (stream_bytes g (tr @ tr')))"
    using consec_append [OF a(1) b(1) [unfolded a(2)]] a(2) b(2) packets_in_append [OF d] by simp
qed

lemma counted_one:
  assumes "consec (c g) bs" and "c' = c(g := c g + of_nat (packets_in bs))"
  shows "counted c [(g, bs)] c'"
  using assms by (auto simp: counted_def packets_in_def)

section \<open>The contract\<close>

fun run_all :: "('o \<Rightarrow> 's \<Rightarrow> 's \<times> (nat \<times> bytes) list) \<Rightarrow> 'o list \<Rightarrow> 's \<Rightarrow> 's \<times> (nat \<times> bytes) list" where
  "run_all act [] s = (s, [])"
| "run_all act (x # xs) s =
     (case act x s of (s1, t1) \<Rightarrow> (case run_all act xs s1 of (s2, t2) \<Rightarrow> (s2, t1 @ t2)))"

locale counted_streams =
  fixes act :: "'o \<Rightarrow> 's \<Rightarrow> 's \<times> (nat \<times> bytes) list"
    and cnt :: "'s \<Rightarrow> nat \<Rightarrow> 4 word"
    and inv :: "'s \<Rightarrow> bool"
  assumes act_inv: "inv s \<Longrightarrow> act x s = (s', tr) \<Longrightarrow> inv s'"
    and act_counted: "inv s \<Longrightarrow> act x s = (s', tr) \<Longrightarrow> counted (cnt s) tr (cnt s')"
begin

lemma run_counted: "inv s \<Longrightarrow> run_all act xs s = (s', tr) \<Longrightarrow> inv s' \<and> counted (cnt s) tr (cnt s')"
proof (induction xs arbitrary: s s' tr)
  case (Cons x xs)
  obtain s1 t1 where a: "act x s = (s1, t1)" by fastforce
  obtain s2 t2 where r: "run_all act xs s1 = (s2, t2)" by fastforce
  from Cons.IH [OF act_inv [OF Cons.prems(1) a] r] act_counted [OF Cons.prems(1) a] Cons.prems(2) a r
  show ?case by (auto intro: counted_trans)
qed simp

text \<open>The \<open>k\<close>-th packet of stream \<open>g\<close>, over the whole run, carries the start value plus \<open>k\<close>, modulo 16.\<close>

lemma run_consecutive:
  assumes "inv s" and "run_all act xs s = (s', tr)" and "k < packets_in (stream_bytes g tr)"
  shows "cont_of (slot (stream_bytes g tr) k) = (unat (cnt s g) + k) mod 16"
  using run_counted [OF assms(1,2)] assms(3) by (simp add: counted_def consec_def)

end

section \<open>Stamping a table\<close>

text \<open>The fields of a library table the code uses: the packets and the continuity of the header.\<close>

record psi_table =
  pt_num :: nat
  pt_data :: bytes
  pt_continuity :: nat

text \<open>
  The loop all senders share: packet \<open>i\<close> gets the counter \<open>i + cont\<close>, passed as a byte.
\<close>

definition stamp_step :: "ts_ops \<Rightarrow> nat \<Rightarrow> bytes \<Rightarrow> nat \<Rightarrow> bytes" where
  "stamp_step T cont data i =
     blit data (i * TS_PACKET_SIZE) (ts_set_cont T (slot data i) (word_of_nat (i + cont)))"

definition stamp :: "ts_ops \<Rightarrow> nat \<Rightarrow> psi_table \<Rightarrow> psi_table" where
  "stamp T cont t =
     t\<lparr> pt_data := foldl (stamp_step T cont) (pt_data t) [0..<pt_num t], pt_continuity := cont \<rparr>"

text \<open>The bytes of a table's packets.\<close>

definition table_bytes :: "psi_table \<Rightarrow> bytes" where
  "table_bytes t = take (pt_num t * TS_PACKET_SIZE) (pt_data t)"

definition table_ok :: "psi_table \<Rightarrow> bool" where
  "table_ok t \<longleftrightarrow> length (pt_data t) = pt_num t * TS_PACKET_SIZE"

lemma stamp_fold:
  assumes T: "ts_ops_ok T" and len: "length data = n * TS_PACKET_SIZE"
  shows "m \<le> n \<Longrightarrow> length (foldl (stamp_step T c) data [0..<m]) = n * TS_PACKET_SIZE \<and>
    (\<forall>k < m. cont_of (slot (foldl (stamp_step T c) data [0..<m]) k) = (c + k) mod 16)"
proof (induction m)
  case 0
  then show ?case using len by simp
next
  case (Suc m)
  let ?d = "foldl (stamp_step T c) data [0..<m]"
  have IH: "length ?d = n * TS_PACKET_SIZE" "\<forall>k < m. cont_of (slot ?d k) = (c + k) mod 16"
    using Suc by auto
  have b: "(m + 1) * TS_PACKET_SIZE \<le> length ?d" unfolding IH(1) using Suc.prems by (intro mult_le_mono1) simp
  have pk: "is_packet (slot ?d m)" using b by (simp add: is_packet_def)
  let ?p = "ts_set_cont T (slot ?d m) (word_of_nat (m + c))"
  have l: "length ?p = TS_PACKET_SIZE" using ts_ops_okD(3) [OF T pk] by (simp add: is_packet_def)
  have "unat (word_of_nat (m + c) :: u8) mod 16 = (c + m) mod 16"
    unfolding unat_u8_of_nat by (simp add: mod_mod_cancel add.commute)
  then have c: "cont_of ?p = (c + m) mod 16" using ts_ops_okD(8) [OF T pk] by simp
  have e: "foldl (stamp_step T c) data [0..<Suc m] = blit ?d (m * TS_PACKET_SIZE) ?p"
    by (simp add: stamp_step_def)
  show ?case unfolding e using IH c l b slot_blit [OF l b] by (auto simp: less_Suc_eq)
qed

lemma stamp_consec:
  assumes "ts_ops_ok T" "table_ok t"
  shows "table_ok (stamp T (unat c) t)" and "pt_num (stamp T (unat c) t) = pt_num t"
    and "consec c (table_bytes (stamp T (unat c) t))"
    and "packets_in (table_bytes (stamp T (unat c) t)) = pt_num t"
proof -
  from assms(2) have len: "length (pt_data t) = pt_num t * TS_PACKET_SIZE" by (simp add: table_ok_def)
  note F = stamp_fold [OF assms(1) len, of "pt_num t" "unat c"]
  show "table_ok (stamp T (unat c) t)" and "pt_num (stamp T (unat c) t) = pt_num t"
    using F by (simp_all add: table_ok_def stamp_def)
  show "packets_in (table_bytes (stamp T (unat c) t)) = pt_num t"
    using F by (simp add: packets_in_def table_bytes_def stamp_def ts_sizes)
  then show "consec c (table_bytes (stamp T (unat c) t))"
    using F by (simp add: consec_def table_bytes_def stamp_def)
qed

end
