(* ===== verification/Psi.thy ===== *)
theory Psi
  imports Counted Cbuf Channel
begin

text \<open>
  The PSI thread, \<^verbatim>\<open>src/output_psi.c\<close>: it builds the output's own tables and
  puts their packets into the PSI buffer on timers. The tables are built by libtsfuncs: its
  builders are parameters; a built table is its packets. Modelled are the contents handed to
  the builders, the stamping of continuity counters and the timers.
\<close>

section \<open>State\<close>

text \<open>The PSI part of \<^verbatim>\<open>OUTPUT\<close> (\<^verbatim>\<open>src/data.h\<close>); the counters are 4-bit fields.\<close>

record 'b psi_out =
  psibuf :: 'b
  pid_pat_cont :: "4 word"
  pid_nit_cont :: "4 word"
  pid_sdt_cont :: "4 word"
  pid_eit_cont :: "4 word"
  pid_tdt_cont :: "4 word"
  pat :: psi_table
  pat_programs :: nat
  sdt :: "psi_table option"
  nit_table :: "psi_table option"
  tdt :: "psi_table option"
  tot :: "psi_table option"
  pat_ts :: int
  nit_ts :: int
  sdt_ts :: int
  tdt_ts :: int
  tot_ts :: int
  eit_ts :: int

record timeouts =
  t_pat :: int
  t_nit :: int
  t_sdt :: int
  t_eit :: int
  t_tdt :: int
  t_tot :: int

text \<open>The libraries: packet accessors, buffers, the time difference in milliseconds, the clock setters.\<close>

record 'b psi_env =
  pe_ts :: ts_ops
  pe_cb :: "'b cbuf_ops"
  pe_diff :: "int \<Rightarrow> int \<Rightarrow> int"
  pe_set_tdt :: "int \<Rightarrow> psi_table \<Rightarrow> psi_table"
  pe_set_tot :: "int \<Rightarrow> psi_table \<Rightarrow> psi_table"
  pe_timeouts :: timeouts

section \<open>Storing a table\<close>

definition store :: "'b psi_env \<Rightarrow> 'b \<Rightarrow> psi_table \<Rightarrow> 'b" where
  "store e b t = snd (cb_fill (pe_cb e) b (table_bytes t))"

section \<open>The emitters\<close>

text \<open>Each gives the new state and the bytes it handed to the buffer.\<close>

definition output_add_pat :: "'b psi_env \<Rightarrow> 'b psi_out \<Rightarrow> 'b psi_out \<times> bytes" where
  "output_add_pat e s =
     (if pat_programs s = 0 then (s, [])
      else
        (let t = stamp (pe_ts e) (unat (pid_pat_cont s)) (pat s) in
         (s\<lparr> pat := t, pid_pat_cont := pid_pat_cont s + of_nat (pt_num t),
             psibuf := store e (psibuf s) t \<rparr>, table_bytes t)))"

definition output_add_nit :: "'b psi_env \<Rightarrow> 'b psi_out \<Rightarrow> 'b psi_out \<times> bytes" where
  "output_add_nit e s =
     (case nit_table s of
        None \<Rightarrow> (s, [])
      | Some n \<Rightarrow>
          (let t = stamp (pe_ts e) (unat (pid_nit_cont s)) n in
           (s\<lparr> nit_table := Some t, pid_nit_cont := pid_nit_cont s + of_nat (pt_num t),
               psibuf := store e (psibuf s) t \<rparr>, table_bytes t)))"

definition output_add_sdt :: "'b psi_env \<Rightarrow> 'b psi_out \<Rightarrow> 'b psi_out \<times> bytes" where
  "output_add_sdt e s =
     (case sdt s of
        None \<Rightarrow> (s, [])
      | Some n \<Rightarrow>
          (let t = stamp (pe_ts e) (unat (pid_sdt_cont s)) n in
           (s\<lparr> sdt := Some t, pid_sdt_cont := pid_sdt_cont s + of_nat (pt_num t),
               psibuf := store e (psibuf s) t \<rparr>, table_bytes t)))"

text \<open>
  TDT and TOT share PID 0x14 and its counter. The guard looks at the TDT in both cases; the
  caller's table is changed through its pointer, here the new table is returned.
\<close>

definition output_add_pid0x14 :: "'b psi_env \<Rightarrow> 'b psi_out \<Rightarrow> psi_table \<Rightarrow> 'b psi_out \<times> psi_table \<times> bytes" where
  "output_add_pid0x14 e s t0 =
     (if tdt s = None then (s, t0, [])
      else
        (let t = stamp (pe_ts e) (unat (pid_tdt_cont s)) t0 in
         (s\<lparr> pid_tdt_cont := pid_tdt_cont s + of_nat (pt_num t), psibuf := store e (psibuf s) t \<rparr>, t, table_bytes t)))"

text \<open>The tables exist once \<open>output_psi_init\<close> has run; without one the code would follow a NULL pointer.\<close>

definition output_add_tdt :: "'b psi_env \<Rightarrow> int \<Rightarrow> 'b psi_out \<Rightarrow> 'b psi_out \<times> bytes" where
  "output_add_tdt e time s =
     (case tdt s of
        None \<Rightarrow> (s, [])
      | Some t0 \<Rightarrow>
          (case output_add_pid0x14 e s (pe_set_tdt e time t0) of
             (s', t, bs) \<Rightarrow> (s'\<lparr> tdt := Some t \<rparr>, bs)))"

definition output_add_tot :: "'b psi_env \<Rightarrow> int \<Rightarrow> 'b psi_out \<Rightarrow> 'b psi_out \<times> bytes" where
  "output_add_tot e time s =
     (case tot s of
        None \<Rightarrow> (s, [])
      | Some t0 \<Rightarrow>
          (case output_add_pid0x14 e s (pe_set_tot e time t0) of
             (s', t, bs) \<Rightarrow> (s'\<lparr> tot := Some t \<rparr>, bs)))"

text \<open>One EIT of a channel; a table without packets is skipped.\<close>

definition output_add_eit1 :: "'b psi_env \<Rightarrow> 'b psi_out \<Rightarrow> psi_table option \<Rightarrow> 'b psi_out \<times> psi_table option \<times> bytes" where
  "output_add_eit1 e s eit =
     (case eit of
        None \<Rightarrow> (s, None, [])
      | Some t0 \<Rightarrow>
          (let t = stamp (pe_ts e) (unat (pid_eit_cont s)) t0 in
           (s\<lparr> pid_eit_cont := pid_eit_cont s + of_nat (pt_num t), psibuf := store e (psibuf s) t \<rparr>,
            Some t, table_bytes t)))"

text \<open>The inputs' channels, each with its present and its following EIT.\<close>

fun add_eits :: "'b psi_env \<Rightarrow> 'b psi_out \<Rightarrow> (psi_table option \<times> psi_table option) list \<Rightarrow>
  'b psi_out \<times> (psi_table option \<times> psi_table option) list \<times> bytes"
where
  "add_eits e s [] = (s, [], [])"
| "add_eits e s ((now, nxt) # rest) =
     (case output_add_eit1 e s now of (s1, now', b1) \<Rightarrow>
        (case output_add_eit1 e s1 nxt of (s2, nxt', b2) \<Rightarrow>
           (case add_eits e s2 rest of (s3, rest', b3) \<Rightarrow> (s3, (now', nxt') # rest', b1 @ b2 @ b3))))"

text \<open>\<open>load\<close> is \<^verbatim>\<open>config_load_epg\<close>, which may replace the channels' EITs.\<close>

definition output_add_eit ::
  "'b psi_env \<Rightarrow> ((psi_table option \<times> psi_table option) list \<Rightarrow> (psi_table option \<times> psi_table option) list) \<Rightarrow>
   'b psi_out \<Rightarrow> (psi_table option \<times> psi_table option) list \<Rightarrow>
   'b psi_out \<times> (psi_table option \<times> psi_table option) list \<times> bytes"
where
  "output_add_eit e load s eits = add_eits e s (load eits)"

section \<open>The timers\<close>

text \<open>The comparison is unsigned in C: the milliseconds are 64 bits wide, the timeout is 32.\<close>

definition psi_due :: "'b psi_env \<Rightarrow> int \<Rightarrow> int \<Rightarrow> int \<Rightarrow> bool" where
  "psi_due e ts now timeout \<longleftrightarrow> (word_of_int (pe_diff e ts now) :: u64) \<ge> ucast (word_of_int timeout :: u32)"

definition output_psi_add ::
  "'b psi_env \<Rightarrow> ((psi_table option \<times> psi_table option) list \<Rightarrow> (psi_table option \<times> psi_table option) list) \<Rightarrow>
   int \<Rightarrow> int \<Rightarrow> 'b psi_out \<Rightarrow> (psi_table option \<times> psi_table option) list \<Rightarrow>
   'b psi_out \<times> (psi_table option \<times> psi_table option) list \<times> (nat \<times> bytes) list"
where
  "output_psi_add e load time now s eits =
     (let to = pe_timeouts e;
          (s1, b1) = (if psi_due e (pat_ts s) now (t_pat to) then output_add_pat e (s\<lparr> pat_ts := now \<rparr>) else (s, []));
          (s2, b2) = (if psi_due e (nit_ts s1) now (t_nit to) then output_add_nit e (s1\<lparr> nit_ts := now \<rparr>) else (s1, []));
          (s3, b3) = (if psi_due e (sdt_ts s2) now (t_sdt to) then output_add_sdt e (s2\<lparr> sdt_ts := now \<rparr>) else (s2, []));
          (s4, b4) = (if psi_due e (tdt_ts s3) now (t_tdt to) then output_add_tdt e time (s3\<lparr> tdt_ts := now \<rparr>) else (s3, []));
          (s5, b5) = (if psi_due e (tot_ts s4) now (t_tot to) then output_add_tot e time (s4\<lparr> tot_ts := now \<rparr>) else (s4, []));
          (s6, eits', b6) = (if psi_due e (eit_ts s5) now (t_eit to)
                             then output_add_eit e load (s5\<lparr> eit_ts := now \<rparr>) eits else (s5, eits, []))
      in (s6, eits', [(0, b1), (1, b2), (2, b3), (3, b4), (3, b5), (4, b6)]))"

section \<open>Building the tables\<close>

text \<open>The service list entries: service id and type.\<close>

definition service_word :: "'e channel \<Rightarrow> u32" where
  "service_word c =
     (let sid = word_of_int (service_id c) :: u32 in
      push_bit 8 (sid AND NOT 0x00ff) OR push_bit 8 (sid AND NOT 0xff00) OR
      (if radio c \<noteq> 0 then 0x02 else 0x01))"

text \<open>The logical channel number entries: service id, visibility, channel number.\<close>

definition lcn_word :: "'e channel \<Rightarrow> u32" where
  "lcn_word c =
     (let sid = word_of_int (service_id c) :: u32; l = word_of_int (lcn c) :: u32 in
      push_bit 16 (sid AND NOT 0x00ff) OR push_bit 16 (sid AND NOT 0xff00) OR
      push_bit 15 (if lcn_visible c \<noteq> 0 then 0x01 else 0x00 AND NOT 0xf0) OR
      push_bit 14 (0x00 AND NOT 0xf0) OR (l AND NOT 0xc0ff) OR (l AND NOT 0xff00))"

text \<open>The builders of libtsfuncs, over its own table type.\<close>

record 't ts_build =
  b_pat_init :: "u16 \<Rightarrow> 't"
  b_pat_add :: "'t \<Rightarrow> int \<Rightarrow> int \<Rightarrow> 't"
  b_nit_init :: "u16 \<Rightarrow> 't"
  b_nit_name :: "'t \<Rightarrow> string option \<Rightarrow> 't"
  b_nit_freqs :: "'t \<Rightarrow> u16 \<Rightarrow> u16 \<Rightarrow> u32 list \<Rightarrow> 't"
  b_nit_cable :: "'t \<Rightarrow> u16 \<Rightarrow> u16 \<Rightarrow> u32 \<Rightarrow> u8 \<Rightarrow> u32 \<Rightarrow> 't"
  b_nit_services :: "'t \<Rightarrow> u16 \<Rightarrow> u16 \<Rightarrow> u32 list \<Rightarrow> 't"
  b_nit_stream :: "'t \<Rightarrow> u16 \<Rightarrow> u16 \<Rightarrow> u32 \<Rightarrow> u8 \<Rightarrow> u32 \<Rightarrow> u32 list \<Rightarrow> u32 list \<Rightarrow> 't"
  b_sdt_init :: "u16 \<Rightarrow> u16 \<Rightarrow> 't"
  b_sdt_add :: "'t \<Rightarrow> int \<Rightarrow> bool \<Rightarrow> string option \<Rightarrow> string \<Rightarrow> 't"

text \<open>The configuration the tables are built from.\<close>

record 'e psi_conf =
  pc_network_id :: u16
  pc_ts_id :: u16
  pc_network_name :: "string option"
  pc_provider :: "string option"
  pc_use_lcn :: bool
  pc_channels :: "'e channel list"
  pc_nit :: "nit list"

definition output_psi_init_pat :: "'t ts_build \<Rightarrow> 'e psi_conf \<Rightarrow> 't" where
  "output_psi_init_pat B cf =
     foldl (\<lambda>t c. b_pat_add B t (service_id c) (c_pmt_pid c)) (b_pat_init B (pc_ts_id cf)) (pc_channels cf)"

definition add_cable :: "'t ts_build \<Rightarrow> 'e psi_conf \<Rightarrow> 't \<Rightarrow> nit \<Rightarrow> 't" where
  "add_cable B cf t n =
     b_nit_cable B t (nit_ts_id n) (pc_network_id cf) (nit__freq n) (nit__modulation n) (nit__symbol_rate n)"

text \<open>
  The NIT. With LCN support the entry of the own transport stream (the last one, if there are
  several) is looked up and a descriptor made of it; when there is none, or
  \<^verbatim>\<open>nit_new\<close> refuses its strings, a NULL pointer is followed: None.
\<close>

definition output_psi_init_nit :: "'t ts_build \<Rightarrow> 'e psi_conf \<Rightarrow> 't option" where
  "output_psi_init_nit B cf =
     (let t0 = b_nit_name B (b_nit_init B (pc_network_id cf)) (pc_network_name cf) in
      if \<not> pc_use_lcn cf then
        (if length (pc_nit cf) < 64 then
           (let t1 = b_nit_freqs B t0 (pc_ts_id cf) (pc_network_id cf) (map nit__freq (pc_nit cf));
                t2 = foldl (add_cable B cf) t1 (pc_nit cf)
            in Some (b_nit_services B t2 (pc_ts_id cf) (pc_network_id cf) (map service_word (pc_channels cf))))
         else Some t0)
      else
        (case find (\<lambda>n. nit_ts_id n = pc_ts_id cf) (rev (pc_nit cf)) of
           None \<Rightarrow> None
         | Some n \<Rightarrow>
             (case nit_new (pc_ts_id cf) (nit_freq n) (nit_modulation n) (nit_symbol_rate n) of
                NitOk d \<Rightarrow>
                  (let t1 = b_nit_stream B t0 (nit_ts_id d) (pc_network_id cf) (nit__freq n) (nit__modulation n)
                              (nit__symbol_rate n) (map lcn_word (pc_channels cf)) (map service_word (pc_channels cf))
                   in Some (if length (pc_nit cf) < 64 then foldl (add_cable B cf) t1 (pc_nit cf) else t1))
              | _ \<Rightarrow> None)))"

definition output_psi_init_sdt :: "'t ts_build \<Rightarrow> 'e psi_conf \<Rightarrow> 't" where
  "output_psi_init_sdt B cf =
     foldl (\<lambda>t c. b_sdt_add B t (service_id c) (radio c = 0) (pc_provider cf) (c_name c))
       (b_sdt_init B (pc_network_id cf) (pc_ts_id cf)) (pc_channels cf)"

section \<open>Continuity\<close>

text \<open>The five counters, by stream.\<close>

definition psi_cnt :: "'b psi_out \<Rightarrow> nat \<Rightarrow> 4 word" where
  "psi_cnt s g = (if g = 0 then pid_pat_cont s else if g = 1 then pid_nit_cont s
     else if g = 2 then pid_sdt_cont s else if g = 3 then pid_tdt_cont s
     else if g = 4 then pid_eit_cont s else 0)"

text \<open>The tables hold whole packets, and setting the time keeps that.\<close>

definition psi_ok :: "'b psi_out \<Rightarrow> bool" where
  "psi_ok s \<longleftrightarrow> table_ok (pat s) \<and> pred_option table_ok (nit_table s) \<and> pred_option table_ok (sdt s) \<and>
     pred_option table_ok (tdt s) \<and> pred_option table_ok (tot s)"

definition env_ok :: "'b psi_env \<Rightarrow> bool" where
  "env_ok e \<longleftrightarrow> ts_ops_ok (pe_ts e) \<and>
     (\<forall>time t. table_ok t \<longrightarrow> table_ok (pe_set_tdt e time t) \<and> table_ok (pe_set_tot e time t))"

definition eits_ok :: "(psi_table option \<times> psi_table option) list \<Rightarrow> bool" where
  "eits_ok es \<longleftrightarrow> (\<forall>x \<in> set es. pred_option table_ok (fst x) \<and> pred_option table_ok (snd x))"

text \<open>One emitter, as a trace of one chunk; it leaves whole packets in the buffer.\<close>

definition emits :: "'b psi_env \<Rightarrow> 'b psi_out \<Rightarrow> nat \<Rightarrow> bytes \<Rightarrow> 'b psi_out \<Rightarrow> bool" where
  "emits e s g bs s' \<longleftrightarrow> psi_ok s' \<and> counted (psi_cnt s) [(g, bs)] (psi_cnt s') \<and>
     (\<forall>cont. cbuf_ok (pe_cb e) cont \<longrightarrow> grows cont (psibuf s) (psibuf s'))"

lemma store_grows:
  assumes "table_ok t" "cbuf_ok (pe_cb e) cont"
  shows "grows cont b (store e b t)"
proof -
  obtain f b' where f: "cb_fill (pe_cb e) b (table_bytes t) = (f, b')" by fastforce
  have "length (table_bytes t) = pt_num t * TS_PACKET_SIZE" using assms(1) by (simp add: table_ok_def table_bytes_def)
  with cbuf_fillD [OF assms(2) f] show ?thesis by (auto simp: store_def f grows_def)
qed

lemma counted_empty: "counted c [(g, [])] c"
  by (simp add: counted_def packets_in_def)

lemma output_add_pat_emits:
  assumes "env_ok e" "psi_ok s" "output_add_pat e s = (s', bs)"
  shows "emits e s 0 bs s'"
proof (cases "pat_programs s = 0")
  case True
  with assms show ?thesis by (simp add: output_add_pat_def emits_def counted_empty)
next
  case False
  have t: "table_ok (pat s)" "ts_ops_ok (pe_ts e)" using assms(1,2) by (simp_all add: psi_ok_def env_ok_def)
  note S = stamp_consec [OF t(2,1), of "pid_pat_cont s"]
  have "bs = table_bytes (stamp (pe_ts e) (unat (pid_pat_cont s)) (pat s))" "psi_ok s'"
    "psi_cnt s' = (psi_cnt s)(0 := psi_cnt s 0 + of_nat (pt_num (pat s)))" "psibuf s' = store e (psibuf s) (stamp (pe_ts e) (unat (pid_pat_cont s)) (pat s))"
    using assms False S by (auto simp: output_add_pat_def Let_def psi_cnt_def psi_ok_def)
  with S show ?thesis unfolding emits_def by (auto intro!: counted_one store_grows simp: psi_cnt_def)
qed

lemma output_add_nit_emits:
  assumes "env_ok e" "psi_ok s" "output_add_nit e s = (s', bs)"
  shows "emits e s 1 bs s'"
proof (cases "nit_table s")
  case None
  with assms show ?thesis by (simp add: output_add_nit_def emits_def counted_empty)
next
  case (Some t)
  have t: "table_ok t" "ts_ops_ok (pe_ts e)" using assms(1,2) Some by (simp_all add: psi_ok_def env_ok_def)
  note S = stamp_consec [OF t(2,1), of "pid_nit_cont s"]
  have "bs = table_bytes (stamp (pe_ts e) (unat (pid_nit_cont s)) t)" "psi_ok s'"
    "psi_cnt s' = (psi_cnt s)(1 := psi_cnt s 1 + of_nat (pt_num t))" "psibuf s' = store e (psibuf s) (stamp (pe_ts e) (unat (pid_nit_cont s)) t)"
    using assms Some S by (auto simp: output_add_nit_def Let_def psi_cnt_def psi_ok_def)
  with S show ?thesis unfolding emits_def by (auto intro!: counted_one store_grows simp: psi_cnt_def)
qed

lemma output_add_sdt_emits:
  assumes "env_ok e" "psi_ok s" "output_add_sdt e s = (s', bs)"
  shows "emits e s 2 bs s'"
proof (cases "sdt s")
  case None
  with assms show ?thesis by (simp add: output_add_sdt_def emits_def counted_empty)
next
  case (Some t)
  have t: "table_ok t" "ts_ops_ok (pe_ts e)" using assms(1,2) Some by (simp_all add: psi_ok_def env_ok_def)
  note S = stamp_consec [OF t(2,1), of "pid_sdt_cont s"]
  have "bs = table_bytes (stamp (pe_ts e) (unat (pid_sdt_cont s)) t)" "psi_ok s'"
    "psi_cnt s' = (psi_cnt s)(2 := psi_cnt s 2 + of_nat (pt_num t))" "psibuf s' = store e (psibuf s) (stamp (pe_ts e) (unat (pid_sdt_cont s)) t)"
    using assms Some S by (auto simp: output_add_sdt_def Let_def psi_cnt_def psi_ok_def)
  with S show ?thesis unfolding emits_def by (auto intro!: counted_one store_grows simp: psi_cnt_def)
qed

lemma output_add_pid0x14_emits:
  assumes "env_ok e" "psi_ok s" "table_ok t0" "output_add_pid0x14 e s t0 = (s', t, bs)"
  shows "emits e s 3 bs s' \<and> table_ok t \<and> tdt s' = tdt s \<and> tot s' = tot s"
proof (cases "tdt s = None")
  case True
  with assms show ?thesis by (simp add: output_add_pid0x14_def emits_def counted_empty)
next
  case False
  have T: "ts_ops_ok (pe_ts e)" using assms(1) by (simp add: env_ok_def)
  note S = stamp_consec [OF T assms(3), of "pid_tdt_cont s"]
  have "t = stamp (pe_ts e) (unat (pid_tdt_cont s)) t0" "bs = table_bytes t" "psi_ok s'"
    "psi_cnt s' = (psi_cnt s)(3 := psi_cnt s 3 + of_nat (pt_num t0))" "tdt s' = tdt s" "tot s' = tot s"
    "psibuf s' = store e (psibuf s) t"
    using assms(2,4) False S by (auto simp: output_add_pid0x14_def Let_def psi_cnt_def psi_ok_def)
  with S show ?thesis unfolding emits_def by (auto intro!: counted_one store_grows simp: psi_cnt_def)
qed

lemma psi_cnt_tables [simp]:
  "psi_cnt (s\<lparr> tdt := x \<rparr>) = psi_cnt s" "psi_cnt (s\<lparr> tot := x \<rparr>) = psi_cnt s"
  "psi_cnt (s\<lparr> pat_ts := k \<rparr>) = psi_cnt s" "psi_cnt (s\<lparr> nit_ts := k \<rparr>) = psi_cnt s"
  "psi_cnt (s\<lparr> sdt_ts := k \<rparr>) = psi_cnt s" "psi_cnt (s\<lparr> tdt_ts := k \<rparr>) = psi_cnt s"
  "psi_cnt (s\<lparr> tot_ts := k \<rparr>) = psi_cnt s" "psi_cnt (s\<lparr> eit_ts := k \<rparr>) = psi_cnt s"
  by (simp_all add: psi_cnt_def fun_eq_iff)

lemma psi_ok_timers [simp]:
  "psi_ok (s\<lparr> pat_ts := k \<rparr>) = psi_ok s" "psi_ok (s\<lparr> nit_ts := k \<rparr>) = psi_ok s"
  "psi_ok (s\<lparr> sdt_ts := k \<rparr>) = psi_ok s" "psi_ok (s\<lparr> tdt_ts := k \<rparr>) = psi_ok s"
  "psi_ok (s\<lparr> tot_ts := k \<rparr>) = psi_ok s" "psi_ok (s\<lparr> eit_ts := k \<rparr>) = psi_ok s"
  by (simp_all add: psi_ok_def)

lemma output_add_tdt_emits:
  assumes "env_ok e" "psi_ok s" "output_add_tdt e time s = (s', bs)"
  shows "emits e s 3 bs s'"
proof (cases "tdt s")
  case None
  with assms show ?thesis by (simp add: output_add_tdt_def emits_def counted_empty)
next
  case (Some t0)
  obtain s1 t where p: "output_add_pid0x14 e s (pe_set_tdt e time t0) = (s1, t, bs)" "s' = s1\<lparr> tdt := Some t \<rparr>"
    using assms(3) Some by (auto simp: output_add_tdt_def split: prod.splits)
  have "table_ok (pe_set_tdt e time t0)" using assms(1,2) Some by (simp add: psi_ok_def env_ok_def)
  from output_add_pid0x14_emits [OF assms(1,2) this p(1)] assms(2) show ?thesis
    by (auto simp: p(2) emits_def psi_ok_def)
qed

lemma output_add_tot_emits:
  assumes "env_ok e" "psi_ok s" "output_add_tot e time s = (s', bs)"
  shows "emits e s 3 bs s'"
proof (cases "tot s")
  case None
  with assms show ?thesis by (simp add: output_add_tot_def emits_def counted_empty)
next
  case (Some t0)
  obtain s1 t where p: "output_add_pid0x14 e s (pe_set_tot e time t0) = (s1, t, bs)" "s' = s1\<lparr> tot := Some t \<rparr>"
    using assms(3) Some by (auto simp: output_add_tot_def split: prod.splits)
  have "table_ok (pe_set_tot e time t0)" using assms(1,2) Some by (simp add: psi_ok_def env_ok_def)
  from output_add_pid0x14_emits [OF assms(1,2) this p(1)] assms(2) show ?thesis
    by (auto simp: p(2) emits_def psi_ok_def)
qed

lemma output_add_eit1_emits:
  assumes "env_ok e" "psi_ok s" "pred_option table_ok eit" "output_add_eit1 e s eit = (s', eit', bs)"
  shows "emits e s 4 bs s' \<and> pred_option table_ok eit'"
proof (cases eit)
  case None
  with assms show ?thesis by (simp add: output_add_eit1_def emits_def counted_empty)
next
  case (Some t)
  have t: "table_ok t" "ts_ops_ok (pe_ts e)" using assms(1,3) Some by (simp_all add: env_ok_def)
  note S = stamp_consec [OF t(2,1), of "pid_eit_cont s"]
  have "eit' = Some (stamp (pe_ts e) (unat (pid_eit_cont s)) t)"
    "bs = table_bytes (stamp (pe_ts e) (unat (pid_eit_cont s)) t)" "psi_ok s'"
    "psi_cnt s' = (psi_cnt s)(4 := psi_cnt s 4 + of_nat (pt_num t))" "psibuf s' = store e (psibuf s) (stamp (pe_ts e) (unat (pid_eit_cont s)) t)"
    using assms Some S by (auto simp: output_add_eit1_def Let_def psi_cnt_def psi_ok_def)
  with S show ?thesis unfolding emits_def by (auto intro!: counted_one store_grows simp: psi_cnt_def)
qed

text \<open>Chunks of the same stream join.\<close>

lemma counted_join: "counted c [(g, xs), (g, ys)] c' \<longleftrightarrow> counted c [(g, xs @ ys)] c'"
  by (simp add: counted_def)

lemma emits_join: "emits e s g xs s1 \<Longrightarrow> emits e s1 g ys s2 \<Longrightarrow> emits e s g (xs @ ys) s2"
  using counted_trans [of "psi_cnt s" "[(g, xs)]" "psi_cnt s1" "[(g, ys)]" "psi_cnt s2"]
  by (auto simp: emits_def counted_join intro: grows_trans)

lemma add_eits_emits:
  "env_ok e \<Longrightarrow> psi_ok s \<Longrightarrow> eits_ok es \<Longrightarrow> add_eits e s es = (s', es', bs) \<Longrightarrow> emits e s 4 bs s' \<and> eits_ok es'"
proof (induction es arbitrary: s s' es' bs)
  case Nil
  then show ?case by (simp add: emits_def counted_empty eits_ok_def)
next
  case (Cons x es)
  obtain now nxt where x: "x = (now, nxt)" by fastforce
  obtain s1 now' b1 where 1: "output_add_eit1 e s now = (s1, now', b1)" by (metis prod_cases3)
  obtain s2 nxt' b2 where 2: "output_add_eit1 e s1 nxt = (s2, nxt', b2)" by (metis prod_cases3)
  obtain s3 es3 b3 where 3: "add_eits e s2 es = (s3, es3, b3)" by (metis prod_cases3)
  have ok: "pred_option table_ok now" "pred_option table_ok nxt" "eits_ok es"
    using Cons.prems(3) by (auto simp: eits_ok_def x)
  note A = output_add_eit1_emits [OF Cons.prems(1,2) ok(1) 1]
  then have p1: "psi_ok s1" by (simp add: emits_def)
  note B = output_add_eit1_emits [OF Cons.prems(1) p1 ok(2) 2]
  then have p2: "psi_ok s2" by (simp add: emits_def)
  note D = Cons.IH [OF Cons.prems(1) p2 ok(3) 3]
  have r: "s' = s3" "es' = (now', nxt') # es3" "bs = b1 @ (b2 @ b3)" using Cons.prems(4) by (simp_all add: x 1 2 3)
  have "emits e s 4 (b1 @ (b2 @ b3)) s3" using A B D by (blast intro: emits_join)
  with A B D show ?case by (auto simp: r eits_ok_def)
qed

text \<open>One pass over the timers.\<close>

lemma output_psi_add_counted:
  assumes "env_ok e" "psi_ok s" "eits_ok es" "\<And>x. eits_ok x \<Longrightarrow> eits_ok (load x)"
    and "output_psi_add e load time now s es = (s', es', tr)"
  shows "psi_ok s' \<and> eits_ok es' \<and> counted (psi_cnt s) tr (psi_cnt s') \<and>
    (\<forall>cont. cbuf_ok (pe_cb e) cont \<longrightarrow> grows cont (psibuf s) (psibuf s'))"
proof -
  let ?to = "pe_timeouts e"
  obtain s1 b1 where 1: "(if psi_due e (pat_ts s) now (t_pat ?to) then output_add_pat e (s\<lparr> pat_ts := now \<rparr>) else (s, [])) = (s1, b1)" by fastforce
  obtain s2 b2 where 2: "(if psi_due e (nit_ts s1) now (t_nit ?to) then output_add_nit e (s1\<lparr> nit_ts := now \<rparr>) else (s1, [])) = (s2, b2)" by fastforce
  obtain s3 b3 where 3: "(if psi_due e (sdt_ts s2) now (t_sdt ?to) then output_add_sdt e (s2\<lparr> sdt_ts := now \<rparr>) else (s2, [])) = (s3, b3)" by fastforce
  obtain s4 b4 where 4: "(if psi_due e (tdt_ts s3) now (t_tdt ?to) then output_add_tdt e time (s3\<lparr> tdt_ts := now \<rparr>) else (s3, [])) = (s4, b4)" by fastforce
  obtain s5 b5 where 5: "(if psi_due e (tot_ts s4) now (t_tot ?to) then output_add_tot e time (s4\<lparr> tot_ts := now \<rparr>) else (s4, [])) = (s5, b5)" by fastforce
  obtain s6 es6 b6 where 6: "(if psi_due e (eit_ts s5) now (t_eit ?to)
      then output_add_eit e load (s5\<lparr> eit_ts := now \<rparr>) es else (s5, es, [])) = (s6, es6, b6)" by (metis prod_cases3)
  have r: "s' = s6" "es' = es6" "tr = [(0, b1), (1, b2), (2, b3), (3, b4), (3, b5), (4, b6)]"
    using assms(5) unfolding output_psi_add_def Let_def 1 2 3 4 5 6 prod.case by auto
  have e1: "emits e s 0 b1 s1" using 1 assms(1,2) output_add_pat_emits [OF assms(1), of "s\<lparr> pat_ts := now \<rparr>"]
    by (auto simp: emits_def counted_empty split: if_splits)
  then have p: "psi_ok s1" by (simp add: emits_def)
  have e2: "emits e s1 1 b2 s2" using 2 p output_add_nit_emits [OF assms(1), of "s1\<lparr> nit_ts := now \<rparr>"]
    by (auto simp: emits_def counted_empty split: if_splits)
  then have p: "psi_ok s2" by (simp add: emits_def)
  have e3: "emits e s2 2 b3 s3" using 3 p output_add_sdt_emits [OF assms(1), of "s2\<lparr> sdt_ts := now \<rparr>"]
    by (auto simp: emits_def counted_empty split: if_splits)
  then have p: "psi_ok s3" by (simp add: emits_def)
  have e4: "emits e s3 3 b4 s4" using 4 p output_add_tdt_emits [OF assms(1), of "s3\<lparr> tdt_ts := now \<rparr>"]
    by (auto simp: emits_def counted_empty split: if_splits)
  then have p: "psi_ok s4" by (simp add: emits_def)
  have e5: "emits e s4 3 b5 s5" using 5 p output_add_tot_emits [OF assms(1), of "s4\<lparr> tot_ts := now \<rparr>"]
    by (auto simp: emits_def counted_empty split: if_splits)
  then have p: "psi_ok s5" by (simp add: emits_def)
  have e6: "emits e s5 4 b6 s6 \<and> eits_ok es6"
    using 6 p assms(3) assms(4) [OF assms(3)] add_eits_emits [OF assms(1), of "s5\<lparr> eit_ts := now \<rparr>" "load es"]
    by (auto simp: emits_def counted_empty output_add_eit_def split: if_splits)
  have "counted (psi_cnt s) ([(0, b1)] @ [(1, b2)] @ [(2, b3)] @ [(3, b4)] @ [(3, b5)] @ [(4, b6)]) (psi_cnt s6)"
    using e1 e2 e3 e4 e5 e6 unfolding emits_def by (meson counted_trans)
  moreover have "\<forall>cont. cbuf_ok (pe_cb e) cont \<longrightarrow> grows cont (psibuf s) (psibuf s6)"
    using e1 e2 e3 e4 e5 e6 unfolding emits_def by (meson grows_trans)
  ultimately show ?thesis using e6 by (simp add: r emits_def)
qed

text \<open>The PSI thread as counted streams: one operation is one pass, at a time.\<close>

definition psi_pass ::
  "'b psi_env \<Rightarrow> ((psi_table option \<times> psi_table option) list \<Rightarrow> (psi_table option \<times> psi_table option) list) \<Rightarrow>
   int \<times> int \<Rightarrow> 'b psi_out \<times> (psi_table option \<times> psi_table option) list \<Rightarrow>
   ('b psi_out \<times> (psi_table option \<times> psi_table option) list) \<times> (nat \<times> bytes) list"
where
  "psi_pass e load tn x =
     (case output_psi_add e load (fst tn) (snd tn) (fst x) (snd x) of (s', es', tr) \<Rightarrow> ((s', es'), tr))"

definition psi_inv ::
  "'b psi_env \<Rightarrow> ((psi_table option \<times> psi_table option) list \<Rightarrow> (psi_table option \<times> psi_table option) list) \<Rightarrow>
   'b psi_out \<times> (psi_table option \<times> psi_table option) list \<Rightarrow> bool"
where
  "psi_inv e load x \<longleftrightarrow>
     env_ok e \<and> (\<forall>es. eits_ok es \<longrightarrow> eits_ok (load es)) \<and> psi_ok (fst x) \<and> eits_ok (snd x)"

interpretation psi_thread: counted_streams "psi_pass e load" "\<lambda>x. psi_cnt (fst x)" "psi_inv e load"
  for e :: "'b psi_env" and load
proof
  fix s s' :: "'b psi_out \<times> (psi_table option \<times> psi_table option) list" and x tr
  assume i: "psi_inv e load s" and a: "psi_pass e load x s = (s', tr)"
  obtain s1 es1 where r: "output_psi_add e load (fst x) (snd x) (fst s) (snd s) = (s1, es1, tr)" "s' = (s1, es1)"
    using a by (auto simp: psi_pass_def split: prod.splits)
  have l: "eits_ok y \<Longrightarrow> eits_ok (load y)" for y using i by (simp add: psi_inv_def)
  from output_psi_add_counted [OF _ _ _ l r(1)] i
  show "psi_inv e load s'" "counted (psi_cnt (fst s)) tr (psi_cnt (fst s'))"
    by (simp_all add: psi_inv_def r(2))
qed

section \<open>The packed words\<close>

lemma split_bytes_or: "(w AND NOT 0x00ff) OR (w AND NOT 0xff00) = (w :: u32)"
proof -
  have "(w AND NOT 0x00ff) OR (w AND NOT 0xff00) = w AND (NOT 0x00ff OR NOT 0xff00)"
    by (rule bit.conj_disj_distrib [symmetric])
  also have "NOT 0x00ff OR NOT 0xff00 = (-1 :: u32)" by simp
  finally show ?thesis by simp
qed

lemma push_split: "push_bit k (w AND NOT 0x00ff) OR push_bit k (w AND NOT 0xff00) = push_bit k (w :: u32)"
  by (simp only: push_bit_or [symmetric] split_bytes_or)

lemma split_lcn_or: "(w AND NOT 0xc0ff) OR (w AND NOT 0xff00) = (w AND NOT 0xc000 :: u32)"
proof -
  have "(w AND NOT 0xc0ff) OR (w AND NOT 0xff00) = w AND (NOT 0xc0ff OR NOT 0xff00)"
    by (rule bit.conj_disj_distrib [symmetric])
  also have "NOT 0xc0ff OR NOT 0xff00 = (NOT 0xc000 :: u32)" by simp
  finally show ?thesis .
qed

lemma small_word_bits:
  fixes w :: u32
  assumes "unat w < 2 ^ k" "k \<le> n"
  shows "\<not> bit w n"
proof
  assume "bit w n"
  then have "bit (unat w) n" by (simp add: bit_unsigned_iff)
  moreover have "take_bit k (unat w) = unat w" using assms(1) by (simp add: take_bit_nat_eq_self)
  ultimately show False using assms(2) by (metis bit_take_bit_iff not_less)
qed

text \<open>A shifted word and a small one have no bits in common: their disjunction is their sum.\<close>

lemma push_or_add:
  fixes w v :: u32
  assumes "unat v < 2 ^ k"
  shows "push_bit k w OR v = push_bit k w + v"
proof -
  have "\<not> bit (push_bit k w) n \<or> \<not> bit v n" for n
    using small_word_bits [OF assms, of n] by (auto simp: bit_push_bit_iff)
  then show ?thesis by (rule disjunctive_add [symmetric])
qed

lemma unat_push_add:
  fixes w v :: u32
  assumes "unat v < 2 ^ k" "unat w < 2 ^ (32 - k)" "k \<le> 32"
  shows "unat (push_bit k w OR v) = unat w * 2 ^ k + unat v"
proof -
  have "unat w * 2 ^ k + unat v < (unat w + 1) * 2 ^ k" using assms(1) by simp
  also have "\<dots> \<le> 2 ^ (32 - k) * 2 ^ k" using assms(2) by (intro mult_le_mono1) simp
  also have "\<dots> = 2 ^ 32" using assms(3) by (simp flip: power_add)
  finally have lt: "unat w * 2 ^ k + unat v < 2 ^ 32" .
  have "push_bit k w OR v = word_of_nat (unat w * 2 ^ k + unat v)"
    unfolding push_or_add [OF assms(1)] by (simp add: push_bit_eq_mult)
  then show ?thesis using lt by (simp only: unat_of_nat) simp
qed

lemma service_word_value:
  assumes "0 \<le> service_id c" "service_id c < 65536"
  shows "unat (service_word c) = nat (service_id c) * 256 + (if radio c \<noteq> 0 then 2 else 1)"
proof -
  let ?w = "word_of_int (service_id c) :: u32"
  have w: "unat ?w = nat (service_id c)" using assms by (simp add: unat_eq_nat_uint uint_word_of_int)
  have "service_word c = push_bit 8 ?w OR (if radio c \<noteq> 0 then 2 else 1)"
    by (simp only: service_word_def Let_def push_split or.assoc [symmetric])
  then show ?thesis
    using unat_push_add [of "if radio c \<noteq> 0 then 2 else 1 :: u32" 8 ?w] w assms by (simp split: if_splits)
qed

lemma lcn_word_value:
  assumes "0 \<le> service_id c" "service_id c < 65536" "0 \<le> lcn c" "lcn c < 16384"
  shows "unat (lcn_word c) = nat (service_id c) * 65536 + (if lcn_visible c \<noteq> 0 then 32768 else 0) + nat (lcn c)"
proof -
  let ?w = "word_of_int (service_id c) :: u32"
  let ?l = "word_of_int (lcn c) :: u32"
  let ?v = "if lcn_visible c \<noteq> 0 then 1 else 0 :: u32"
  have w: "unat ?w = nat (service_id c)" using assms by (simp add: unat_eq_nat_uint uint_word_of_int)
  have l: "unat ?l = nat (lcn c)" using assms by (simp add: unat_eq_nat_uint uint_word_of_int)
  have "?l AND NOT 0xc000 = ?l"
  proof (rule bit_word_eqI)
    fix n
    have "\<not> bit ?l n" if "14 \<le> n" using small_word_bits [of ?l 14 n] l assms(3,4) that by simp
    moreover have "\<not> bit (0xc000 :: u32) n" if "n < 14"
    proof -
      have "(0xc000 :: u32) = push_bit 14 3" by simp
      then show ?thesis using that by (simp only: bit_push_bit_iff) simp
    qed
    ultimately show "bit (?l AND NOT 0xc000) n = bit ?l n" if "n < LENGTH(32)"
      using that unfolding bit_and_iff bit_not_iff by (cases "n < 14") auto
  qed
  then have e: "lcn_word c = push_bit 16 ?w OR (push_bit 15 ?v OR ?l)"
    by (simp only: lcn_word_def Let_def or.assoc [symmetric] push_split bit.conj_zero_left push_bit_of_0 or.right_neutral)
      (simp only: or.assoc split_lcn_or)
  have vl: "unat (push_bit 15 ?v OR ?l) = unat ?v * 2 ^ 15 + unat ?l"
    using l assms(3,4) by (intro unat_push_add) auto
  have "unat (lcn_word c) = unat ?w * 2 ^ 16 + unat (push_bit 15 ?v OR ?l)"
    unfolding e by (rule unat_push_add) (use vl w l assms in auto)
  then show ?thesis unfolding vl w l by simp
qed

section \<open>The timers hold the rates\<close>

lemma emitters_timers:
  "pat_ts (fst (output_add_pat e s)) = pat_ts s" "nit_ts (fst (output_add_pat e s)) = nit_ts s"
  "sdt_ts (fst (output_add_pat e s)) = sdt_ts s"
  "pat_ts (fst (output_add_nit e s)) = pat_ts s" "nit_ts (fst (output_add_nit e s)) = nit_ts s"
  "sdt_ts (fst (output_add_nit e s)) = sdt_ts s"
  "pat_ts (fst (output_add_sdt e s)) = pat_ts s" "nit_ts (fst (output_add_sdt e s)) = nit_ts s"
  "sdt_ts (fst (output_add_sdt e s)) = sdt_ts s"
  "pat_ts (fst (output_add_tdt e time s)) = pat_ts s" "nit_ts (fst (output_add_tdt e time s)) = nit_ts s"
  "sdt_ts (fst (output_add_tdt e time s)) = sdt_ts s"
  "pat_ts (fst (output_add_tot e time s)) = pat_ts s" "nit_ts (fst (output_add_tot e time s)) = nit_ts s"
  "sdt_ts (fst (output_add_tot e time s)) = sdt_ts s"
  by (simp_all add: output_add_pat_def output_add_nit_def output_add_sdt_def output_add_tdt_def
      output_add_tot_def output_add_pid0x14_def Let_def split: option.split)

lemma add_eits_timers:
  "add_eits e s es = (s', es', bs) \<Longrightarrow> pat_ts s' = pat_ts s \<and> nit_ts s' = nit_ts s \<and> sdt_ts s' = sdt_ts s"
proof (induction es arbitrary: s s' es' bs)
  case (Cons x es)
  have 1: "output_add_eit1 e s a = (s1, a', b) \<Longrightarrow>
      pat_ts s1 = pat_ts s \<and> nit_ts s1 = nit_ts s \<and> sdt_ts s1 = sdt_ts s" for s a s1 a' b
    by (auto simp: output_add_eit1_def Let_def split: option.splits)
  obtain now nxt where x: "x = (now, nxt)" by fastforce
  obtain s1 now' b1 where a: "output_add_eit1 e s now = (s1, now', b1)" by (metis prod_cases3)
  obtain s2 nxt' b2 where b: "output_add_eit1 e s1 nxt = (s2, nxt', b2)" by (metis prod_cases3)
  obtain s3 es3 b3 where c: "add_eits e s2 es = (s3, es3, b3)" by (metis prod_cases3)
  have "s' = s3" using Cons.prems by (simp add: x a b c)
  with Cons.IH [OF c] 1 [OF a] 1 [OF b] show ?case by simp
qed simp

lemma output_psi_add_rate:
  assumes "output_psi_add e load time now s es = (s', es', tr)"
  shows "pat_ts s' = (if psi_due e (pat_ts s) now (t_pat (pe_timeouts e)) then now else pat_ts s) \<and>
    (\<not> psi_due e (pat_ts s) now (t_pat (pe_timeouts e)) \<longrightarrow> stream_bytes 0 tr = [])"
proof -
  let ?to = "pe_timeouts e"
  obtain s1 b1 where 1: "(if psi_due e (pat_ts s) now (t_pat ?to) then output_add_pat e (s\<lparr> pat_ts := now \<rparr>) else (s, [])) = (s1, b1)" by fastforce
  obtain s2 b2 where 2: "(if psi_due e (nit_ts s1) now (t_nit ?to) then output_add_nit e (s1\<lparr> nit_ts := now \<rparr>) else (s1, [])) = (s2, b2)" by fastforce
  obtain s3 b3 where 3: "(if psi_due e (sdt_ts s2) now (t_sdt ?to) then output_add_sdt e (s2\<lparr> sdt_ts := now \<rparr>) else (s2, [])) = (s3, b3)" by fastforce
  obtain s4 b4 where 4: "(if psi_due e (tdt_ts s3) now (t_tdt ?to) then output_add_tdt e time (s3\<lparr> tdt_ts := now \<rparr>) else (s3, [])) = (s4, b4)" by fastforce
  obtain s5 b5 where 5: "(if psi_due e (tot_ts s4) now (t_tot ?to) then output_add_tot e time (s4\<lparr> tot_ts := now \<rparr>) else (s4, [])) = (s5, b5)" by fastforce
  obtain s6 es6 b6 where 6: "(if psi_due e (eit_ts s5) now (t_eit ?to)
      then output_add_eit e load (s5\<lparr> eit_ts := now \<rparr>) es else (s5, es, [])) = (s6, es6, b6)" by (metis prod_cases3)
  have r: "s' = s6" "tr = [(0, b1), (1, b2), (2, b3), (3, b4), (3, b5), (4, b6)]"
    using assms unfolding output_psi_add_def Let_def 1 2 3 4 5 6 prod.case by auto
  have "pat_ts s1 = (if psi_due e (pat_ts s) now (t_pat ?to) then now else pat_ts s)"
    using 1 emitters_timers(1) [of e "s\<lparr> pat_ts := now \<rparr>"] by (auto split: if_splits)
  moreover have "pat_ts s2 = pat_ts s1" using 2 emitters_timers(4) [of e "s1\<lparr> nit_ts := now \<rparr>"] by (auto split: if_splits)
  moreover have "pat_ts s3 = pat_ts s2" using 3 emitters_timers(7) [of e "s2\<lparr> sdt_ts := now \<rparr>"] by (auto split: if_splits)
  moreover have "pat_ts s4 = pat_ts s3" using 4 emitters_timers(10) [of e time "s3\<lparr> tdt_ts := now \<rparr>"] by (auto split: if_splits)
  moreover have "pat_ts s5 = pat_ts s4" using 5 emitters_timers(13) [of e time "s4\<lparr> tot_ts := now \<rparr>"] by (auto split: if_splits)
  moreover have "pat_ts s6 = pat_ts s5"
    using 6 add_eits_timers [of e "s5\<lparr> eit_ts := now \<rparr>" "load es"] by (auto simp: output_add_eit_def split: if_splits)
  moreover have "\<not> psi_due e (pat_ts s) now (t_pat ?to) \<longrightarrow> b1 = []" using 1 by auto
  ultimately show ?thesis unfolding r by simp
qed

section \<open>Properties\<close>

definition demo_table :: psi_table where
  "demo_table = \<lparr> pt_num = 1, pt_data = 0x47 # 0x40 # 0 # 0x10 # replicate 184 0xff, pt_continuity = 0 \<rparr>"

definition demo_psi :: "queue psi_out" where
  "demo_psi = \<lparr> psibuf = \<lparr> q_bytes = [], q_out = 0, q_cap = 65800 \<rparr>, pid_pat_cont = 15, pid_nit_cont = 0,
     pid_sdt_cont = 0, pid_eit_cont = 0, pid_tdt_cont = 15, pat = demo_table, pat_programs = 1,
     sdt = Some demo_table, nit_table = None, tdt = Some demo_table, tot = Some demo_table,
     pat_ts = 0, nit_ts = 0, sdt_ts = 0, tdt_ts = 0, tot_ts = 0, eit_ts = 0 \<rparr>"

definition demo_penv :: "queue psi_env" where
  "demo_penv = \<lparr> pe_ts = iso_ts, pe_cb = queue_ops, pe_diff = (\<lambda>a b. b - a), pe_set_tdt = (\<lambda>_ t. t),
     pe_set_tot = (\<lambda>_ t. t),
     pe_timeouts = \<lparr> t_pat = 100, t_nit = 2000, t_sdt = 500, t_eit = 1000, t_tdt = 7500, t_tot = 1500 \<rparr> \<rparr>"

text \<open>
  C37. Over any sequence of passes of the PSI thread, at any times, the packets of each stream
  (PAT, NIT, SDT, the TDT and TOT together, EIT) handed to the PSI buffer carry consecutive
  continuity counters modulo 16: the \<open>k\<close>-th packet has the start value plus \<open>k\<close>.
\<close>

theorem psi_counters_consecutive:
  assumes "psi_inv e load x" and "run_all (psi_pass e load) passes x = (x', tr)"
    and "k < packets_in (stream_bytes g tr)"
  shows "cont_of (slot (stream_bytes g tr) k) = (unat (psi_cnt (fst x) g) + k) mod 16"
  by (rule psi_thread.run_consecutive [OF assms])

theorem psi_counters_consecutive_witness:
  "case run_all (psi_pass demo_penv (\<lambda>es. es)) [(0, 100), (0, 200)] (demo_psi, []) of
     (x', tr) \<Rightarrow> \<forall>k < packets_in (stream_bytes 0 tr). cont_of (slot (stream_bytes 0 tr) k) = (15 + k) mod 16"
proof -
  have t: "table_ok demo_table" by (simp add: table_ok_def demo_table_def ts_sizes)
  then have i: "psi_inv demo_penv (\<lambda>es. es) (demo_psi, [])"
    by (simp add: psi_inv_def env_ok_def psi_ok_def eits_ok_def demo_penv_def demo_psi_def iso_ts_ok)
  obtain x' tr where r: "run_all (psi_pass demo_penv (\<lambda>es. es)) [(0, 100), (0, 200)] (demo_psi, []) = (x', tr)" by fastforce
  have "unat (psi_cnt (fst (demo_psi, [])) 0) = 15" by (simp add: psi_cnt_def demo_psi_def)
  with psi_counters_consecutive [OF i r] have "\<forall>k < packets_in (stream_bytes 0 tr). cont_of (slot (stream_bytes 0 tr) k) = (15 + k) mod 16"
    by metis
  then show ?thesis unfolding r by simp
qed

text \<open>
  The PAT is sent exactly when its interval has passed, and its timer is then set to the
  time of the pass; no other table's sending disturbs it.
\<close>

theorem psi_pat_rate:
  assumes "output_psi_add e load time now s es = (s', es', tr)"
  shows "pat_ts s' = (if psi_due e (pat_ts s) now (t_pat (pe_timeouts e)) then now else pat_ts s) \<and>
    (\<not> psi_due e (pat_ts s) now (t_pat (pe_timeouts e)) \<longrightarrow> stream_bytes 0 tr = [])"
  by (rule output_psi_add_rate [OF assms])

theorem psi_pat_rate_witness:
  "case output_psi_add demo_penv (\<lambda>es. es) 0 50 demo_psi [] of
     (s', es', tr) \<Rightarrow> pat_ts s' = 0 \<and> stream_bytes 0 tr = []"
proof -
  obtain s' es' tr where r: "output_psi_add demo_penv (\<lambda>es. es) 0 50 demo_psi [] = (s', es', tr)" by (metis prod_cases3)
  from psi_pat_rate [OF r] show ?thesis unfolding r by (simp add: psi_due_def demo_penv_def demo_psi_def)
qed

text \<open>
  The NIT's packed words: a service list entry is the service id times 256 plus 1 for
  television or 2 for radio; a channel number entry is the service id times 65536, plus 32768
  when visible, plus the channel number, for 16-bit ids and 14-bit numbers.
\<close>

theorem nit_words:
  assumes "0 \<le> service_id c" "service_id c < 65536" "0 \<le> lcn c" "lcn c < 16384"
  shows "unat (service_word c) = nat (service_id c) * 256 + (if radio c \<noteq> 0 then 2 else 1) \<and>
    unat (lcn_word c) = nat (service_id c) * 65536 + (if lcn_visible c \<noteq> 0 then 32768 else 0) + nat (lcn c)"
  using service_word_value [OF assms(1,2)] lcn_word_value [OF assms] by simp

theorem nit_words_witness:
  "case (channel_new 7 1 ''a'' ''A'' 0 ''udp://1'' 1 101 1 :: unit channel option) of
     Some c \<Rightarrow> unat (service_word c) = 7 * 256 + 2 \<and> unat (lcn_word c) = 7 * 65536 + 32768 + 101
   | None \<Rightarrow> False"
proof -
  obtain c :: "unit channel" where c: "channel_new 7 1 ''a'' ''A'' 0 ''udp://1'' 1 101 1 = Some c"
    by (simp add: channel_new_def)
  then have "service_id c = 7" "radio c = 1" "lcn c = 101" "lcn_visible c = 1"
    by (auto simp: channel_new_def chansrc_add_def Let_def MAX_CHANNEL_SOURCES_def)
  with nit_words [of c] show ?thesis unfolding c by simp
qed

text \<open>
  With LCN support the NIT is only built when a NIT entry of the own transport stream is
  configured: otherwise its strings stay NULL pointers, which \<^verbatim>\<open>nit_new\<close> follows.
\<close>

theorem nit_lcn_needs_own_entry:
  assumes "pc_use_lcn cf" and "\<forall>n \<in> set (pc_nit cf). nit_ts_id n \<noteq> pc_ts_id cf"
  shows "output_psi_init_nit B cf = None"
proof -
  have "find (\<lambda>n. nit_ts_id n = pc_ts_id cf) (rev (pc_nit cf)) = None"
    using assms(2) by (simp add: find_None_iff)
  with assms(1) show ?thesis by (simp add: output_psi_init_nit_def)
qed

theorem nit_lcn_needs_own_entry_witness:
  "\<forall>B :: unit ts_build. output_psi_init_nit B \<lparr> pc_network_id = 1, pc_ts_id = 2, pc_network_name = None,
     pc_provider = None, pc_use_lcn = True, pc_channels = [] :: unit channel list, pc_nit = [] \<rparr> = None"
  by (rule allI, rule nit_lcn_needs_own_entry) simp_all

end
