(* ===== verification/Input.thy ===== *)
theory Input
  imports Pidref Channel Counted Mix
begin

text \<open>
  The input threads, \<^verbatim>\<open>src/input.c\<close>, with the input part of
  \<^verbatim>\<open>src/data.c\<close>: each reads the transport stream of one channel, rewrites
  its PAT, PMT and EIT, moves its PIDs into the channel's range and puts the packets into
  the input buffer. The tables are parsed and regenerated by libtsfuncs: those functions are
  parameters; of a table the fields the code touches are modelled.
\<close>

section \<open>Tables\<close>

record pat_program =
  pp_program :: u16
  pp_pid :: u16

record pat_tab =
  pa_init :: bool
  pa_programs :: "pat_program list"
  pa_packets :: psi_table

record pmt_tab =
  pm_init :: bool
  pm_pid :: u16
  pm_ts_id_number :: u16
  pm_pcr_pid :: u16
  pm_streams :: "u16 list"
  pm_packets :: psi_table

record eit_tab =
  ei_init :: bool
  ei_ts_id_number :: u16
  ei_transport_stream_id :: u16
  ei_packets :: psi_table

text \<open>
  The libraries. \<open>push\<close> parses a packet into a table, \<open>same\<close> compares two tables,
  \<open>copy\<close> may fail, \<open>regen\<close> rebuilds the packets from the fields.
\<close>

record 'b input_env =
  il_ts :: ts_ops
  il_cb :: "'b cbuf_ops"
  pat_alloc :: pat_tab
  pmt_alloc :: pmt_tab
  eit_alloc :: eit_tab
  pat_push :: "pat_tab \<Rightarrow> bytes \<Rightarrow> pat_tab"
  pmt_push :: "pmt_tab \<Rightarrow> bytes \<Rightarrow> pmt_tab"
  eit_push :: "eit_tab \<Rightarrow> bytes \<Rightarrow> eit_tab"
  pat_same :: "pat_tab \<Rightarrow> pat_tab \<Rightarrow> bool"
  pmt_same :: "pmt_tab \<Rightarrow> pmt_tab \<Rightarrow> bool"
  pat_copy :: "pat_tab \<Rightarrow> pat_tab option"
  pmt_copy :: "pmt_tab \<Rightarrow> pmt_tab option"
  eit_copy :: "eit_tab \<Rightarrow> eit_tab option"
  pat_regen :: "pat_tab \<Rightarrow> pat_tab"
  pmt_regen :: "pmt_tab \<Rightarrow> pmt_tab"
  eit_regen :: "eit_tab \<Rightarrow> eit_tab"
  il_ts_id :: u16

section \<open>State\<close>

text \<open>\<^verbatim>\<open>INPUT_STREAM\<close>.\<close>

record input_stream =
  is_pidref :: pidref
  nit_pid :: u16
  pmt_pid :: u16
  pcr_pid :: u16
  is_pat :: pat_tab
  is_pmt :: pmt_tab
  is_eit :: eit_tab
  input_pcr :: u64
  is_pat_cont :: "4 word"
  is_pmt_cont :: "4 word"
  is_eit_cont :: "4 word"
  pat_rewritten :: "pat_tab option"
  pmt_rewritten :: "pmt_tab option"
  eit_rewritten :: "eit_tab option"
  last_pat :: pat_tab
  last_pmt :: pmt_tab

text \<open>
  \<^verbatim>\<open>INPUT\<close>: what the mixing thread uses, and the rest; \<open>ifile\<close> is what
  was written to the file of option \<^verbatim>\<open>-W\<close>.
\<close>

record 'b input = "'b mix_in" +
  r_channel :: "psi_table channel"
  r_stream :: input_stream
  reconnect :: bool
  working :: bool
  r_dienow :: bool
  freechannel :: bool
  cookie :: int
  ifd :: int
  disabled :: bool
  ifile :: bytes

section \<open>Rewriting the tables\<close>

text \<open>
  The scan of the PAT: the NIT's PID and the first program's PMT PID. The loop stops at the
  first program, so the count of programs is at most one.
\<close>

fun scan_programs :: "pat_program list \<Rightarrow> u16 \<times> u16 \<times> nat \<Rightarrow> u16 \<times> u16 \<times> nat" where
  "scan_programs [] x = x"
| "scan_programs (prg # prgs) (nit, pmt, n) =
     (if pp_pid prg \<noteq> 0 then
        (if pp_program prg = 0 then scan_programs prgs (pp_pid prg, pmt, n) else (nit, pp_pid prg, n + 1))
      else scan_programs prgs (nit, pmt, n))"

definition input_process_pat :: "'b input \<Rightarrow> int \<times> 'b input" where
  "input_process_pat r =
     (let s = r_stream r in
      case scan_programs (pa_programs (is_pat s)) (0x10, pmt_pid s, 0) of
        (nit, pmt, num_programs) \<Rightarrow>
          (if num_programs > 1 then 0 else 1, r\<lparr> r_stream := s\<lparr> nit_pid := nit, pmt_pid := pmt \<rparr> \<rparr>))"

text \<open>Every program, but the NIT entry, gets the service id and the next PID of the channel.\<close>

fun rewrite_programs :: "u16 \<Rightarrow> pidref \<Rightarrow> pat_program list \<Rightarrow> pidref \<times> pat_program list" where
  "rewrite_programs sid ref [] = (ref, [])"
| "rewrite_programs sid ref (prg # prgs) =
     (if pp_program prg \<noteq> 0 then
        (let ref1 = snd (pidref_add ref (pp_pid prg) (base_pid ref));
             prg1 = prg\<lparr> pp_program := sid, pp_pid := base_pid ref1 \<rparr>
         in case rewrite_programs sid (ref1\<lparr> base_pid := base_pid ref1 + 1 \<rparr>) prgs of
              (ref2, prgs') \<Rightarrow> (ref2, prg1 # prgs'))
      else (case rewrite_programs sid ref prgs of (ref2, prgs') \<Rightarrow> (ref2, prg # prgs')))"

definition input_rewrite_pat :: "'b input_env \<Rightarrow> 'b input \<Rightarrow> 'b input" where
  "input_rewrite_pat L r =
     (let s = r_stream r in
      case pat_copy L (is_pat s) of
        None \<Rightarrow> r
      | Some new_pat \<Rightarrow>
          (case rewrite_programs (word_of_int (service_id (r_channel r))) (is_pidref s) (pa_programs new_pat) of
             (ref, prgs) \<Rightarrow>
               r\<lparr> r_stream := s\<lparr> is_pidref := ref,
                    pat_rewritten := Some (pat_regen L (new_pat\<lparr> pa_programs := prgs \<rparr>)) \<rparr> \<rparr>))"

text \<open>The streams of the PMT; the PCR stream was entered before and keeps its PID.\<close>

fun rewrite_streams :: "u16 \<Rightarrow> u16 \<Rightarrow> pidref \<Rightarrow> u16 list \<Rightarrow> pidref \<times> u16 list" where
  "rewrite_streams org_pcr new_pcr ref [] = (ref, [])"
| "rewrite_streams org_pcr new_pcr ref (p # ps) =
     (if p = org_pcr then
        (case rewrite_streams org_pcr new_pcr ref ps of (ref2, ps') \<Rightarrow> (ref2, new_pcr # ps'))
      else
        (let ref1 = snd (pidref_add ref p (base_pid ref))
         in case rewrite_streams org_pcr new_pcr (ref1\<lparr> base_pid := base_pid ref1 + 1 \<rparr>) ps of
              (ref2, ps') \<Rightarrow> (ref2, base_pid ref1 # ps')))"

definition input_rewrite_pmt :: "'b input_env \<Rightarrow> 'b input \<Rightarrow> 'b input" where
  "input_rewrite_pmt L r =
     (let s = r_stream r in
      case pmt_copy L (is_pmt s) of
        None \<Rightarrow> r
      | Some new_pmt \<Rightarrow>
          (let ref = is_pidref s;
               org_pcr_pid = pm_pcr_pid new_pmt;
               ref1 = snd (pidref_add ref org_pcr_pid (base_pid ref));
               new_pcr_pid = base_pid ref1
           in case rewrite_streams org_pcr_pid new_pcr_pid (ref1\<lparr> base_pid := base_pid ref1 + 1 \<rparr>) (pm_streams new_pmt) of
                (ref2, streams) \<Rightarrow>
                  r\<lparr> output_pcr_pid := new_pcr_pid,
                     r_stream := s\<lparr> pcr_pid := org_pcr_pid, is_pidref := ref2,
                       pmt_rewritten := Some (pmt_regen L (new_pmt\<lparr> pm_pid := pidref_get_new_pid ref (pmt_pid s),
                         pm_ts_id_number := word_of_int (service_id (r_channel r)),
                         pm_pcr_pid := new_pcr_pid, pm_streams := streams \<rparr>)) \<rparr> \<rparr>))"

definition input_rewrite_eit :: "'b input_env \<Rightarrow> 'b input \<Rightarrow> 'b input" where
  "input_rewrite_eit L r =
     (let s = r_stream r in
      case eit_copy L (is_eit s) of
        None \<Rightarrow> r
      | Some new_eit \<Rightarrow>
          r\<lparr> r_stream := s\<lparr> eit_rewritten := Some (eit_regen L (new_eit\<lparr> ei_transport_stream_id := il_ts_id L \<rparr>)) \<rparr> \<rparr>)"

section \<open>The input buffer\<close>

text \<open>How full the buffer is, in percent, computed in doubles.\<close>

definition buffull :: "nat \<Rightarrow> nat \<Rightarrow> rat" where
  "buffull bufsize bufcap = dbl (dbl (of_nat bufsize / of_nat bufcap) * 100)"

definition input_buffer_add :: "'b input_env \<Rightarrow> 'b input \<Rightarrow> bytes \<Rightarrow> 'b input" where
  "input_buffer_add L r0 data =
     (if r_dienow r0 then r0
      else
        (let C = il_cb L;
             r = (if ifd r0 \<noteq> 0 then r0\<lparr> ifile := ifile r0 @ data \<rparr> else r0);
             full = buffull (cb_input C (in_buf r) - cb_output C (in_buf r)) (cb_size C (in_buf r));
             r1 = (if disabled r \<and> full \<le> 50 then r\<lparr> disabled := False \<rparr> else r)
         in if disabled r1 then r1
            else (case cb_fill C (in_buf r1) data of
                    (f, b') \<Rightarrow> (let r2 = r1\<lparr> in_buf := b' \<rparr> in if f \<noteq> 0 then r2\<lparr> disabled := True \<rparr> else r2))))"

definition input_check_state :: "'b input \<Rightarrow> int" where
  "input_check_state r = (if r_dienow r then 2 else if reconnect r then 1 else 0)"

section \<open>Packets that carry tables\<close>

text \<open>
  A packet of the PAT is replaced by padding. Result -1: the table is not complete; -2: it
  changed, reconnect. The rewritten PAT only goes to the input's file.
\<close>

definition pad_packet :: bytes where
  "pad_packet = [0x47, 0x1f, 0xff, 0x10] @ replicate 184 0xff"

text \<open>The first complete PAT is searched for the PMT's PID and rewritten once.\<close>

definition find_pmt_pid :: "'b input \<Rightarrow> int \<times> 'b input" where
  "find_pmt_pid r = (if pmt_pid (r_stream r) = 0 then input_process_pat r else (1, r))"

definition rewrite_pat_once :: "'b input_env \<Rightarrow> 'b input \<Rightarrow> 'b input" where
  "rewrite_pat_once L r =
     (case pat_rewritten (r_stream r) of
        None \<Rightarrow> input_rewrite_pat L r
      | Some P \<Rightarrow> if pa_init P then r else input_rewrite_pat L r)"

definition send_pat :: "'b input_env \<Rightarrow> 'b input \<Rightarrow> 'b input" where
  "send_pat L r =
     (let s = r_stream r in
      case pat_rewritten s of
        None \<Rightarrow> r
      | Some P \<Rightarrow>
          if ifd r \<noteq> 0 \<and> pa_init P then
            (let t = stamp (il_ts L) (unat (is_pat_cont s)) (pa_packets P)
             in r\<lparr> ifile := ifile r @ table_bytes t,
                   r_stream := s\<lparr> pat_rewritten := Some (P\<lparr> pa_packets := t \<rparr>),
                     is_pat_cont := is_pat_cont s + of_nat (pt_num t) \<rparr> \<rparr>)
          else r)"

definition process_pat :: "'b input_env \<Rightarrow> 'b input \<Rightarrow> u16 \<Rightarrow> bytes \<Rightarrow> int \<times> 'b input \<times> bytes" where
  "process_pat L r pid pkt =
     (if pid \<noteq> 0 then (0, r, pkt)
      else
        (let s = r_stream r;
             pat1 = pat_push L (is_pat s) pkt;
             r1 = r\<lparr> r_stream := s\<lparr> is_pat := pat1 \<rparr> \<rparr>
         in if pa_init (last_pat s) \<and> \<not> pa_init pat1 then (-1, r1, pkt)
            else if pa_init (last_pat s) \<and> \<not> pat_same L pat1 (last_pat s) then (-2, r1, pkt)
            else
              (let lp = (if pa_init (last_pat s) then pat_alloc L else last_pat s);
                   r2 = r\<lparr> r_stream := s\<lparr> is_pat := pat1, last_pat := pat_push L lp pkt \<rparr> \<rparr>
               in if pa_init pat1 then
                    (case find_pmt_pid r2 of
                       (ok, r3) \<Rightarrow>
                         if ok = 0 then (-2, r3, pkt)
                         else (1, send_pat L (rewrite_pat_once L r3), pad_packet))
                  else (1, r2, pad_packet))))"

text \<open>The PMT: the rewritten table is put into the buffer for each complete table received.\<close>

definition send_pmt :: "'b input_env \<Rightarrow> 'b input \<Rightarrow> 'b input" where
  "send_pmt L r =
     (let s = r_stream r in
      case pmt_rewritten s of
        None \<Rightarrow> r
      | Some P \<Rightarrow>
          if pm_init P then
            (let t = stamp (il_ts L) (unat (is_pmt_cont s)) (pm_packets P)
             in input_buffer_add L
                  (r\<lparr> r_stream := s\<lparr> pmt_rewritten := Some (P\<lparr> pm_packets := t \<rparr>),
                       is_pmt_cont := is_pmt_cont s + of_nat (pt_num t) \<rparr> \<rparr>)
                  (table_bytes t))
          else r)"

definition rewrite_pmt_once :: "'b input_env \<Rightarrow> 'b input \<Rightarrow> 'b input" where
  "rewrite_pmt_once L r =
     (case pmt_rewritten (r_stream r) of
        None \<Rightarrow> input_rewrite_pmt L r
      | Some P \<Rightarrow> if pm_init P then r else input_rewrite_pmt L r)"

definition process_pmt :: "'b input_env \<Rightarrow> 'b input \<Rightarrow> u16 \<Rightarrow> bytes \<Rightarrow> int \<times> 'b input" where
  "process_pmt L r pid pkt =
     (if pid = 0 \<or> pid \<noteq> pmt_pid (r_stream r) then (0, r)
      else
        (let s = r_stream r;
             pmt1 = pmt_push L (is_pmt s) pkt;
             r1 = r\<lparr> r_stream := s\<lparr> is_pmt := pmt1 \<rparr> \<rparr>
         in if pm_init (last_pmt s) \<and> \<not> pm_init pmt1 then (-1, r1)
            else if pm_init (last_pmt s) \<and> \<not> pmt_same L pmt1 (last_pmt s) then (-2, r1)
            else
              (let lp = (if pm_init (last_pmt s) then pmt_alloc L else last_pmt s);
                   r2 = r\<lparr> r_stream := s\<lparr> is_pmt := pmt1, last_pmt := pmt_push L lp pkt \<rparr> \<rparr>
               in if pm_init pmt1 then (-1, send_pmt L (rewrite_pmt_once L r2)) else (1, r2))))"

text \<open>The EIT of the own service; after sending, the parser starts again.\<close>

definition rewrite_eit_once :: "'b input_env \<Rightarrow> 'b input \<Rightarrow> 'b input" where
  "rewrite_eit_once L r =
     (case eit_rewritten (r_stream r) of
        None \<Rightarrow> input_rewrite_eit L r
      | Some P \<Rightarrow> if ei_init P then r else input_rewrite_eit L r)"

definition send_eit :: "'b input_env \<Rightarrow> 'b input \<Rightarrow> int \<times> 'b input" where
  "send_eit L r =
     (let s = r_stream r in
      case eit_rewritten s of
        None \<Rightarrow> (-3, r)
      | Some P \<Rightarrow>
          if ei_init P then
            (let t = stamp (il_ts L) (unat (is_eit_cont s)) (ei_packets P);
                 r' = input_buffer_add L (r\<lparr> r_stream := s\<lparr> is_eit_cont := is_eit_cont s + of_nat (pt_num t) \<rparr> \<rparr>)
                        (table_bytes t)
             in (1, r'\<lparr> r_stream := (r_stream r')\<lparr> is_eit := eit_alloc L, eit_rewritten := None \<rparr> \<rparr>))
          else (-3, r))"

definition process_eit :: "'b input_env \<Rightarrow> 'b input \<Rightarrow> bytes \<Rightarrow> int \<times> 'b input" where
  "process_eit L r pkt =
     (if eit_mode (r_channel r) = 0 then (-1, r)
      else
        (let s = r_stream r;
             eit1 = eit_push L (is_eit s) pkt;
             r1 = r\<lparr> r_stream := s\<lparr> is_eit := eit1 \<rparr> \<rparr>
         in if ei_init eit1 then
              (if int (unat (ei_ts_id_number eit1)) \<noteq> service_id (r_channel r) then (-2, r1)
               else send_eit L (rewrite_eit_once L r1))
            else (0, r1)))"

section \<open>One packet\<close>

datatype packet_outcome = PktNext | PktReconnect | PktQuit

definition killed_pid :: "u16 \<Rightarrow> u16 \<Rightarrow> bool" where
  "killed_pid nit pid \<longleftrightarrow>
     pid = nit \<or> pid = 0x10 \<or> pid = 0x11 \<or> pid = 0x13 \<or> pid = 0x14 \<or> pid \<ge> 0x1fff"

text \<open>
  The packet goes on to the buffer once a PCR of the rewritten programme was seen. Its PID is
  changed where it lies; the packet as it is left there is part of the result.
\<close>

definition forward_packet :: "'b input_env \<Rightarrow> 'b input \<Rightarrow> u16 \<Rightarrow> bytes \<Rightarrow> 'b input \<times> bytes" where
  "forward_packet L r pid pkt =
     (let s = r_stream r;
          r1 = (if pmt_rewritten s \<noteq> None \<and> pid = pcr_pid s \<and> ts_has_pcr (il_ts L) pkt
                then r\<lparr> r_stream := s\<lparr> input_pcr := ts_get_pcr (il_ts L) pkt \<rparr> \<rparr> else r)
      in if input_pcr (r_stream r1) \<noteq> 0 then
           (let pkt' = snd (pidref_change_packet_pid (il_ts L) pkt pid (is_pidref (r_stream r1)));
                r2 = input_buffer_add L r1 pkt'
            in (if input_ready r2 = 0 then r2\<lparr> input_ready := 1 \<rparr> else r2, pkt'))
         else (r1, pkt))"

definition packet_step :: "'b input_env \<Rightarrow> 'b input \<Rightarrow> bytes \<Rightarrow> packet_outcome \<times> 'b input \<times> bytes" where
  "packet_step L r pkt =
     (if r_dienow r then (PktQuit, r, pkt)
      else
        (let pid = ts_get_pid (il_ts L) pkt in
         case process_pat L r pid pkt of
           (pat_result, r1, pkt1) \<Rightarrow>
             if pat_result = -2 then (PktReconnect, r1, pkt1)
             else if pat_result < 0 then (PktNext, r1, pkt1)
             else
               (case process_pmt L r1 pid pkt1 of
                  (pmt_result, r2) \<Rightarrow>
                    if pmt_result = -2 then (PktReconnect, r2, pkt1)
                    else if pmt_result < 0 then (PktNext, r2, pkt1)
                    else
                      (let pid1 = ts_get_pid (il_ts L) pkt1 in
                       if pid1 = 0x12 then (PktNext, snd (process_eit L r2 pkt1), pkt1)
                       else if killed_pid (nit_pid (r_stream r2)) pid1 then (PktNext, r2, pkt1)
                       else (PktNext, forward_packet L r2 pid1 pkt1)))))"

section \<open>One read\<close>

text \<open>
  \<^verbatim>\<open>input_stream_reset\<close>: the parsers start again and the PIDs are handed out again
  from the base of the channel; the continuity counters stay.
\<close>

definition input_stream_reset :: "'b input_env \<Rightarrow> 'b input \<Rightarrow> 'b input" where
  "input_stream_reset L r =
     r\<lparr> r_stream := (r_stream r)\<lparr>
          is_pidref := pidref_init 64 (word_of_int (c_base_pid (r_channel r))),
          is_pat := pat_alloc L, is_pmt := pmt_alloc L, is_eit := eit_alloc L,
          last_pat := pat_alloc L, last_pmt := pmt_alloc L,
          pat_rewritten := None, pmt_rewritten := None, eit_rewritten := None,
          nit_pid := 0, pmt_pid := 0, pcr_pid := 0, input_pcr := 0 \<rparr> \<rparr>"

text \<open>
  The packets of one read, at every 188th byte below the number of bytes read, and the buffer
  as it is left. The stop flag the code looks at for each packet is a field of the input; that another
  thread sets it between two packets is a step of its own in the theory Feed.
\<close>

function read_packets :: "'b input_env \<Rightarrow> bytes \<Rightarrow> nat \<Rightarrow> nat \<Rightarrow> 'b input \<Rightarrow> packet_outcome \<times> 'b input \<times> bytes" where
  "read_packets L buf i readen r =
     (if i < readen then
        (case packet_step L r (bslice buf i TS_PACKET_SIZE) of
           (PktNext, r', pkt) \<Rightarrow> read_packets L (blit buf i pkt) (i + 188) readen r'
         | (out, r', pkt) \<Rightarrow> (out, r', blit buf i pkt))
      else (PktNext, r, buf))"
  by pat_completeness auto
termination
  by (relation "measure (\<lambda>(L, buf, i, readen, r). readen - i)") auto

declare read_packets.simps [simp del]

datatype read_outcome = ReadNext | ReadReconnect | ReadStop | ReadQuit | ReadTimeout

definition MAX_ZERO_READS :: int where
  "MAX_ZERO_READS = 3"

text \<open>
  One turn of the reading loop: the work time and the state are checked, then the result of
  the read. \<open>readen\<close> is what \<^verbatim>\<open>fdread_ex\<close> returned, \<open>buf\<close> the
  bytes behind the RTP header.
\<close>

definition read_step ::
  "'b input_env \<Rightarrow> bool \<Rightarrow> bool \<Rightarrow> int \<Rightarrow> bytes \<Rightarrow> int \<times> 'b input \<Rightarrow> read_outcome \<times> int \<times> 'b input \<times> bytes"
where
  "read_step L in_time is_rtp_src readen buf zr =
     (case zr of (max_zero_reads, r0) \<Rightarrow>
        (let r = r0\<lparr> working := in_time \<rparr> in
         if \<not> in_time then (ReadStop, max_zero_reads, r, buf)
         else if input_check_state r = 1 then (ReadReconnect, max_zero_reads, r, buf)
         else if input_check_state r = 2 then (ReadQuit, max_zero_reads, r, buf)
         else
           (let n = (if is_rtp_src \<and> readen > int RTP_HEADER_SIZE then readen - int RTP_HEADER_SIZE else readen) in
            if n < 0 then (ReadReconnect, max_zero_reads, r, buf)
            else if n = 0 then
              (if max_zero_reads - 1 = 0 then (ReadTimeout, 0, r, buf) else (ReadNext, max_zero_reads - 1, r, buf))
            else
              (case read_packets L buf 0 (nat n) r of
                 (PktNext, r', b) \<Rightarrow> (ReadNext, MAX_ZERO_READS, r', b)
               | (PktReconnect, r', b) \<Rightarrow> (ReadReconnect, max_zero_reads, r', b)
               | (PktQuit, r', b) \<Rightarrow> (ReadQuit, max_zero_reads, r', b)))))"

text \<open>The work time: seconds of the local day.\<close>

definition in_worktime :: "int \<Rightarrow> int \<Rightarrow> int \<Rightarrow> bool" where
  "in_worktime now start stop =
     (if start = 0 \<and> stop = 0 then True
      else if start > stop then (if start \<ge> now \<and> stop < now then False else True)
      else (if start \<le> now \<and> stop > now then True else False))"

section \<open>The buffer takes all or nothing\<close>

text \<open>The percentage is at most fifty exactly when half of the buffer is free: rounding does not matter.\<close>

lemma buffull_half:
  assumes "0 < n" "n \<le> 2 ^ 40" "u \<le> n"
  shows "buffull u n \<le> 50 \<longleftrightarrow> 2 * u \<le> n"
proof
  let ?x = "of_nat u / of_nat n :: rat"
  have n: "(0::rat) < of_nat n" using assms(1) by simp
  have half: "dbl (1 / 2) = 1 / 2" by code_simp
  have fifty: "dbl 50 = 50" using dbl_nat [of 50] by simp
  show "buffull u n \<le> 50" if "2 * u \<le> n"
  proof -
    have "(of_nat (2 * u) :: rat) \<le> of_nat n" using that by (simp only: of_nat_le_iff)
    then have "?x \<le> 1 / 2" using n by (simp add: field_simps)
    then have "dbl ?x \<le> 1 / 2" using dbl_mono [of ?x "1 / 2"] by (simp add: half)
    then have "dbl ?x * 100 \<le> 50" by simp
    from dbl_mono [OF this] show ?thesis by (simp add: buffull_def fifty)
  qed
  show "2 * u \<le> n" if "buffull u n \<le> 50"
  proof (rule ccontr)
    assume "\<not> 2 * u \<le> n"
    then have "(of_nat (n + 1) :: rat) \<le> of_nat (2 * u)" by (simp only: of_nat_le_iff)
    then have "(1 + of_nat n) / (2 * of_nat n) \<le> (2 * of_nat u) / (2 * of_nat n :: rat)"
      using n by (intro divide_right_mono) simp_all
    moreover have "(1 + of_nat n) / (2 * of_nat n) = 1 / 2 + 1 / (2 * of_nat n :: rat)"
      using n by (simp add: add_divide_distrib)
    ultimately have lo: "1 / 2 + 1 / (2 * of_nat n) \<le> ?x" by simp
    have hi: "?x \<le> 1" using assms(3) n by (simp add: field_simps)
    have "(of_nat n :: rat) \<le> of_nat (2 ^ 40)" using assms(2) by (simp only: of_nat_le_iff)
    then have e: "1 / (2 * of_nat n) \<ge> (1 / 2 ^ 41 :: rat)" using n by (simp add: field_simps)
    have x0: "0 \<le> ?x" by simp
    from hi x0 have "\<bar>?x\<bar> / 2 ^ 53 \<le> 1 / 2 ^ 53" by simp
    with dbl_err [of ?x] have "\<bar>dbl ?x - ?x\<bar> \<le> 1 / 2 ^ 53" by (rule order_trans)
    then have "?x - 1 / 2 ^ 53 \<le> dbl ?x" by (simp only: abs_le_iff) linarith
    moreover from lo e have "1 / 2 + 1 / 2 ^ 41 \<le> ?x" by linarith
    ultimately have d: "1 / 2 + 1 / 2 ^ 41 - 1 / 2 ^ 53 \<le> dbl ?x" by linarith
    let ?y = "(1 / 2 + 1 / 2 ^ 41 - 1 / 2 ^ 53 :: rat) * 100"
    have "dbl ?y \<le> dbl (dbl ?x * 100)" by (rule dbl_mono) (use d in simp)
    moreover have "50 < dbl ?y" by code_simp
    ultimately have "50 < buffull u n" unfolding buffull_def by linarith
    with that show False by simp
  qed
qed

text \<open>What storing data may change.\<close>

lemma input_buffer_add_shape:
  "input_buffer_add L r data =
     r\<lparr> in_buf := in_buf (input_buffer_add L r data), disabled := disabled (input_buffer_add L r data),
        ifile := ifile (input_buffer_add L r data) \<rparr>"
  "in_buf (input_buffer_add L r data) = in_buf r \<or>
   in_buf (input_buffer_add L r data) = snd (cb_fill (il_cb L) (in_buf r) data)"
  by (simp_all add: input_buffer_add_def Let_def split: prod.split)

lemma input_buffer_add_cont:
  assumes "cbuf_ok (il_cb L) cont"
  shows "cont (in_buf (input_buffer_add L r data)) =
    (if r_dienow r \<or> disabled (input_buffer_add L r data) then cont (in_buf r) else cont (in_buf r) @ data)"
  using cbuf_fillD [OF assms, of "in_buf r" data] prod.collapse [of "cb_fill (il_cb L) (in_buf r) data"]
  by (auto simp: input_buffer_add_def Let_def split: prod.split)

lemma input_buffer_add_frame [frame_simps, simp]:
  "r_stream (input_buffer_add L r data) = r_stream r" "r_channel (input_buffer_add L r data) = r_channel r"
  "r_dienow (input_buffer_add L r data) = r_dienow r" "output_pcr_pid (input_buffer_add L r data) = output_pcr_pid r"
  by (subst input_buffer_add_shape(1), simp)+

section \<open>PIDs handed out in order\<close>

fun numbered :: "u16 \<Rightarrow> u16 list \<Rightarrow> (u16 \<times> u16) list" where
  "numbered b [] = []"
| "numbered b (p # ps) = (p, b) # numbered (b + 1) ps"

lemma numbered_simps [simp]: "map fst (numbered b ps) = ps" "length (numbered b ps) = length ps"
  by (induction ps arbitrary: b) auto

lemma fst_numbered [simp]: "fst ` set (numbered b ps) = set ps"
  by (metis list.set_map numbered_simps(1))

lemma snd_numbered: "map snd (numbered b ps) = map (\<lambda>k. b + of_nat k) [0..<length ps]"
proof (induction ps arbitrary: b)
  case (Cons p ps)
  have "[0..<length (p # ps)] = 0 # map Suc [0..<length ps]"
    unfolding length_Cons map_Suc_upt by (simp add: upt_rec)
  then show ?case by (simp add: Cons.IH algebra_simps)
qed simp

text \<open>The base is not used by the table.\<close>

lemma pidref_base_irrelevant:
  "snd (pidref_add (ref\<lparr> base_pid := b \<rparr>) p n) = (snd (pidref_add ref p n))\<lparr> base_pid := b \<rparr>"
  "pidref_get_new_pid (ref\<lparr> base_pid := b \<rparr>) p = pidref_get_new_pid ref p"
  "pidref_ok (ref\<lparr> base_pid := b \<rparr>) = pidref_ok ref" "pid_free (ref\<lparr> base_pid := b \<rparr>) = pid_free ref"
  "pid_map (ref\<lparr> base_pid := b \<rparr>) p = pid_map ref p"
  by (simp_all add: pidref_add_def pidref_get_new_pid_def pidref_find_def pidref_ok_def pid_free_def pid_map_def
      split: option.split)

lemma adds_base: "adds pidref_add (ref\<lparr> base_pid := b \<rparr>) pns = (adds pidref_add ref pns)\<lparr> base_pid := b \<rparr>"
proof (induction pns arbitrary: ref)
  case (Cons pn pns)
  show ?case by (cases pn) (simp add: pidref_base_irrelevant Cons.IH)
qed simp

lemma base_of_adds: "base_pid (adds pidref_add ref pns) = base_pid ref"
  by (induction pns arbitrary: ref) (auto simp: split_paired_all)

text \<open>The loops over programs and streams are additions of numbered PIDs.\<close>

lemma rewrite_programs_adds:
  "rewrite_programs sid ref prgs = (ref', prgs') \<Longrightarrow>
   ref' = (adds pidref_add ref (numbered (base_pid ref) (map pp_pid (filter (\<lambda>q. pp_program q \<noteq> 0) prgs))))
     \<lparr> base_pid := base_pid ref + of_nat (length (filter (\<lambda>q. pp_program q \<noteq> 0) prgs)) \<rparr>"
proof (induction prgs arbitrary: ref ref' prgs')
  case (Cons q prgs)
  show ?case
  proof (cases "pp_program q = 0")
    case True
    with Cons.prems show ?thesis by (auto split: prod.splits intro: Cons.IH)
  next
    case False
    let ?r = "snd (pidref_add ref (pp_pid q) (base_pid ref))"
    obtain r2 ps2 where r: "rewrite_programs sid (?r\<lparr> base_pid := base_pid ref + 1 \<rparr>) prgs = (r2, ps2)" by fastforce
    with False Cons.prems have "ref' = r2" by (simp add: Let_def)
    with Cons.IH [OF r] False show ?thesis by (simp add: adds_base algebra_simps)
  qed
qed simp

definition stream_pid :: "u16 \<Rightarrow> u16 \<Rightarrow> (u16 \<times> u16) list \<Rightarrow> u16 \<Rightarrow> u16 \<Rightarrow> bool" where
  "stream_pid o1 n1 pns q q' \<longleftrightarrow> (if q = o1 then q' = n1 else (q, q') \<in> set pns)"

lemma stream_pid_simps [simp]: "stream_pid o1 n1 pns o1 n1" "q \<noteq> o1 \<Longrightarrow> stream_pid o1 n1 ((q, q') # pns) q q'"
  by (simp_all add: stream_pid_def)

lemma stream_pid_mono: "list_all2 (stream_pid o1 n1 pns) ps ps' \<Longrightarrow> list_all2 (stream_pid o1 n1 (x # pns)) ps ps'"
  by (erule list_all2_mono) (auto simp: stream_pid_def split: if_splits)

lemma rewrite_streams_adds:
  "rewrite_streams o1 n1 ref ps = (ref', ps') \<Longrightarrow>
   ref' = (adds pidref_add ref (numbered (base_pid ref) (filter (\<lambda>q. q \<noteq> o1) ps)))
     \<lparr> base_pid := base_pid ref + of_nat (length (filter (\<lambda>q. q \<noteq> o1) ps)) \<rparr> \<and>
   list_all2 (stream_pid o1 n1 (numbered (base_pid ref) (filter (\<lambda>q. q \<noteq> o1) ps))) ps ps'"
proof (induction ps arbitrary: ref ref' ps')
  case (Cons q ps)
  show ?case
  proof (cases "q = o1")
    case True
    obtain r2 ps2 where r: "rewrite_streams o1 n1 ref ps = (r2, ps2)" by fastforce
    with True Cons.prems have e: "ref' = r2" "ps' = n1 # ps2" by auto
    from True Cons.IH [OF r] show ?thesis unfolding e by simp
  next
    case False
    let ?r = "snd (pidref_add ref q (base_pid ref))"
    obtain r2 ps2 where r: "rewrite_streams o1 n1 (?r\<lparr> base_pid := base_pid ref + 1 \<rparr>) ps = (r2, ps2)" by fastforce
    with False Cons.prems have e: "ref' = r2" "ps' = base_pid ref # ps2" by (simp_all add: Let_def)
    from Cons.IH [OF r] False show ?thesis
      unfolding e by (auto simp: adds_base algebra_simps intro: stream_pid_mono)
  qed
qed simp

lemma rewrite_streams_set:
  "rewrite_streams o1 n1 ref ps = (ref', ps') \<Longrightarrow>
   set ps' \<subseteq> insert n1 (snd ` set (numbered (base_pid ref) (filter (\<lambda>q. q \<noteq> o1) ps))) \<and>
   snd ` set (numbered (base_pid ref) (filter (\<lambda>q. q \<noteq> o1) ps)) \<subseteq> set ps'"
proof (induction ps arbitrary: ref ref' ps')
  case (Cons q ps)
  show ?case
  proof (cases "q = o1")
    case True
    obtain r2 ps2 where r: "rewrite_streams o1 n1 ref ps = (r2, ps2)" by fastforce
    with True Cons.prems Cons.IH [OF r] show ?thesis by auto
  next
    case False
    let ?r = "snd (pidref_add ref q (base_pid ref))"
    obtain r2 ps2 where r: "rewrite_streams o1 n1 (?r\<lparr> base_pid := base_pid ref + 1 \<rparr>) ps = (r2, ps2)" by fastforce
    with False Cons.prems have e: "ref' = r2" "ps' = base_pid ref # ps2" by (simp_all add: Let_def)
    from Cons.IH [OF r] False show ?thesis unfolding e by auto
  qed
qed simp

lemma set_numbered: "snd ` set (numbered b ps) = (\<lambda>k. b + of_nat k) ` {..<length ps}"
  by (metis atLeast0LessThan list.set_map set_upt snd_numbered)

section \<open>The rewritten PMT\<close>

text \<open>The PIDs a PMT announces: the PCR's first, then the streams' that are not the PCR's.\<close>

definition pmt_pids :: "pmt_tab \<Rightarrow> u16 list" where
  "pmt_pids P = pm_pcr_pid P # filter (\<lambda>q. q \<noteq> pm_pcr_pid P) (pm_streams P)"

text \<open>libtsfuncs rebuilds the packets and leaves the fields.\<close>

definition regen_ok :: "'b input_env \<Rightarrow> bool" where
  "regen_ok L \<longleftrightarrow> (\<forall>t. pm_pcr_pid (pmt_regen L t) = pm_pcr_pid t \<and> pm_streams (pmt_regen L t) = pm_streams t)"

lemma input_rewrite_pmt_adds:
  assumes "regen_ok L" "pmt_copy L (is_pmt (r_stream r)) = Some P0"
  shows "\<exists>P. pmt_rewritten (r_stream (input_rewrite_pmt L r)) = Some P \<and>
    pm_pcr_pid P = base_pid (is_pidref (r_stream r)) \<and> output_pcr_pid (input_rewrite_pmt L r) = pm_pcr_pid P \<and>
    is_pidref (r_stream (input_rewrite_pmt L r)) =
      (adds pidref_add (is_pidref (r_stream r)) (numbered (base_pid (is_pidref (r_stream r))) (pmt_pids P0)))
        \<lparr> base_pid := base_pid (is_pidref (r_stream r)) + of_nat (length (pmt_pids P0)) \<rparr> \<and>
    list_all2 (stream_pid (pm_pcr_pid P0) (pm_pcr_pid P) (numbered (base_pid (is_pidref (r_stream r))) (pmt_pids P0)))
      (pm_streams P0) (pm_streams P) \<and>
    insert (pm_pcr_pid P) (set (pm_streams P)) =
      snd ` set (numbered (base_pid (is_pidref (r_stream r))) (pmt_pids P0))"
proof -
  let ?ref = "is_pidref (r_stream r)"
  let ?b = "base_pid ?ref"
  let ?r1 = "(snd (pidref_add ?ref (pm_pcr_pid P0) ?b))\<lparr> base_pid := ?b + 1 \<rparr>"
  obtain r2 ps where rs: "rewrite_streams (pm_pcr_pid P0) ?b ?r1 (pm_streams P0) = (r2, ps)" by fastforce
  have f: "pmt_rewritten (r_stream (input_rewrite_pmt L r)) = Some (pmt_regen L (P0\<lparr>
        pm_pid := pidref_get_new_pid ?ref (pmt_pid (r_stream r)),
        pm_ts_id_number := word_of_int (service_id (r_channel r)), pm_pcr_pid := ?b, pm_streams := ps \<rparr>))"
    "output_pcr_pid (input_rewrite_pmt L r) = ?b" "is_pidref (r_stream (input_rewrite_pmt L r)) = r2"
    using rs by (simp_all add: input_rewrite_pmt_def assms(2) Let_def)
  from rewrite_streams_adds [OF rs] have
    a: "r2 = (adds pidref_add ?ref (numbered ?b (pmt_pids P0)))\<lparr> base_pid := ?b + of_nat (length (pmt_pids P0)) \<rparr>"
    and l: "list_all2 (stream_pid (pm_pcr_pid P0) ?b (numbered ?b (pmt_pids P0))) (pm_streams P0) ps"
    by (auto simp: pmt_pids_def adds_base algebra_simps intro: stream_pid_mono)
  from rewrite_streams_set [OF rs] have s: "insert ?b (set ps) = snd ` set (numbered ?b (pmt_pids P0))"
    by (auto simp: pmt_pids_def)
  show ?thesis using f a l s assms(1) by (simp add: regen_ok_def)
qed

section \<open>An instance of the libraries\<close>

text \<open>Tables that are always complete; the PMT announces a PCR on PID 257 and a stream on 258.\<close>

definition demo_pat :: pat_tab where
  "demo_pat = \<lparr> pa_init = True, pa_programs = [\<lparr> pp_program = 7, pp_pid = 256 \<rparr>],
     pa_packets = \<lparr> pt_num = 1, pt_data = replicate 188 0, pt_continuity = 0 \<rparr> \<rparr>"

definition demo_pmt :: pmt_tab where
  "demo_pmt = \<lparr> pm_init = True, pm_pid = 256, pm_ts_id_number = 7, pm_pcr_pid = 257, pm_streams = [257, 258],
     pm_packets = \<lparr> pt_num = 1, pt_data = replicate 188 0, pt_continuity = 0 \<rparr> \<rparr>"

definition demo_eit :: eit_tab where
  "demo_eit = \<lparr> ei_init = True, ei_ts_id_number = 7, ei_transport_stream_id = 1,
     ei_packets = \<lparr> pt_num = 1, pt_data = replicate 188 0, pt_continuity = 0 \<rparr> \<rparr>"

definition demo_lib :: "queue input_env" where
  "demo_lib = \<lparr> il_ts = iso_ts, il_cb = queue_ops, pat_alloc = demo_pat\<lparr> pa_init := False \<rparr>,
     pmt_alloc = demo_pmt\<lparr> pm_init := False \<rparr>, eit_alloc = demo_eit\<lparr> ei_init := False \<rparr>,
     pat_push = (\<lambda>_ _. demo_pat), pmt_push = (\<lambda>_ _. demo_pmt), eit_push = (\<lambda>_ _. demo_eit),
     pat_same = (\<lambda>a b. pa_programs a = pa_programs b), pmt_same = (\<lambda>a b. pm_streams a = pm_streams b),
     pat_copy = Some, pmt_copy = Some, eit_copy = Some,
     pat_regen = id, pmt_regen = (\<lambda>t. t\<lparr> pm_packets := pm_packets demo_pmt \<rparr>),
     eit_regen = (\<lambda>t. t\<lparr> ei_packets := ei_packets demo_eit \<rparr>), il_ts_id = 1 \<rparr>"

definition demo_channel :: "psi_table channel" where
  "demo_channel = the (channel_new 7 0 ''a'' ''A'' 1 ''udp://239.0.0.1:5000'' 3 0 0)"

definition demo_stream :: input_stream where
  "demo_stream = \<lparr> is_pidref = pidref_init 64 96, nit_pid = 0x10, pmt_pid = 256, pcr_pid = 257,
     is_pat = demo_pat, is_pmt = demo_pmt, is_eit = demo_eit, input_pcr = 5, is_pat_cont = 0, is_pmt_cont = 0,
     is_eit_cont = 0, pat_rewritten = None, pmt_rewritten = None, eit_rewritten = None,
     last_pat = demo_pat, last_pmt = demo_pmt\<lparr> pm_streams := [300] \<rparr> \<rparr>"

definition demo_input :: "bytes \<Rightarrow> queue input" where
  "demo_input xs = \<lparr> in_buf = \<lparr> q_bytes = xs, q_out = 0, q_cap = 1000 \<rparr>, output_pcr_pid = 0, output_last_pcr = 0,
     output_pcr = 0, output_pcr_packets_needed = 0, outputed_packets = 0, input_ready = 1,
     r_channel = demo_channel, r_stream = demo_stream, reconnect = False, working = True, r_dienow = False,
     freechannel = False, cookie = 0, ifd = 0, disabled = True, ifile = [] \<rparr>"

lemmas demo_defs = demo_pat_def demo_pmt_def demo_eit_def demo_lib_def demo_stream_def demo_input_def

lemma demo_channel_base: "c_base_pid demo_channel = 96"
  by (simp add: demo_channel_def channel_new_def chansrc_add_def MAX_CHANNEL_SOURCES_def)

section \<open>Properties\<close>

text \<open>
  C38. The rewritten PMT tells the truth: the PID it announces for each stream, and for the PCR,
  is the PID the rewrite table gives to the packets of that stream, provided the original
  PIDs are different, not yet in the table, and the table has room.
\<close>

theorem pmt_announces_new_pids:
  assumes "regen_ok L" and "pmt_copy L (is_pmt (r_stream r)) = Some P0" and "pidref_ok (is_pidref (r_stream r))"
    and "distinct (pmt_pids P0)" and "0 \<notin> set (pmt_pids P0)"
    and "\<forall>p \<in> set (pmt_pids P0). pid_map (is_pidref (r_stream r)) p = None"
    and "length (pmt_pids P0) \<le> pid_free (is_pidref (r_stream r))"
  shows "\<exists>P. pmt_rewritten (r_stream (input_rewrite_pmt L r)) = Some P \<and>
    pm_streams P = map (pidref_get_new_pid (is_pidref (r_stream (input_rewrite_pmt L r)))) (pm_streams P0) \<and>
    pm_pcr_pid P = pidref_get_new_pid (is_pidref (r_stream (input_rewrite_pmt L r))) (pm_pcr_pid P0) \<and>
    output_pcr_pid (input_rewrite_pmt L r) = pm_pcr_pid P"
proof -
  let ?ref = "is_pidref (r_stream r)"
  let ?ref' = "is_pidref (r_stream (input_rewrite_pmt L r))"
  let ?pns = "numbered (base_pid ?ref) (pmt_pids P0)"
  obtain P where P: "pmt_rewritten (r_stream (input_rewrite_pmt L r)) = Some P" "pm_pcr_pid P = base_pid ?ref"
    "output_pcr_pid (input_rewrite_pmt L r) = pm_pcr_pid P"
    and ref': "?ref' = (adds pidref_add ?ref ?pns)\<lparr> base_pid := base_pid ?ref + of_nat (length (pmt_pids P0)) \<rparr>"
    and st: "list_all2 (stream_pid (pm_pcr_pid P0) (pm_pcr_pid P) ?pns) (pm_streams P0) (pm_streams P)"
    using input_rewrite_pmt_adds [OF assms(1,2)] by blast
  have get: "pidref_get_new_pid ?ref' p = n" if "(p, n) \<in> set ?pns" for p n
    unfolding ref' pidref_base_irrelevant
    by (rule pids.adds_get [OF assms(3)]) (use assms(4-7) that in \<open>simp_all\<close>)
  have pcr: "pidref_get_new_pid ?ref' (pm_pcr_pid P0) = pm_pcr_pid P"
    by (rule get) (simp add: P(2) pmt_pids_def)
  have "list_all2 (\<lambda>p n. pidref_get_new_pid ?ref' p = n) (pm_streams P0) (pm_streams P)"
    using st by (rule list_all2_mono) (auto simp: stream_pid_def pcr intro: get split: if_splits)
  then have "map (pidref_get_new_pid ?ref') (pm_streams P0) = pm_streams P"
    by (simp add: list_all2_conv_all_nth list_eq_iff_nth_eq)
  with P pcr show ?thesis by simp
qed

theorem pmt_announces_new_pids_witness:
  "\<exists>P. pmt_rewritten (r_stream (input_rewrite_pmt demo_lib (demo_input []))) = Some P \<and>
    pm_streams P = map (pidref_get_new_pid (is_pidref (r_stream (input_rewrite_pmt demo_lib (demo_input []))))) [257, 258]"
  using pmt_announces_new_pids [of demo_lib "demo_input []" demo_pmt]
  by (simp add: demo_defs regen_ok_def pmt_pids_def pidref_init_ok pidref_init_map pidref_init_free) blast

text \<open>
  C39. A channel's PIDs run out after 32: from a fresh table, the PIDs of the rewritten PMT
  stay in the channel's own range exactly when the programs of the PAT, the PCR and the other
  streams are at most 32 in all. Nothing checks that; the next PID is the next channel's PMT.
\<close>

theorem pids_within_channel:
  assumes "regen_ok L" and "pat_copy L (is_pat (r_stream r)) = Some A" and "pmt_copy L (is_pmt (r_stream r)) = Some P0"
    and "is_pidref (r_stream r) = pidref_init 64 (word_of_int (c_base_pid (r_channel r)))"
    and "c_base_pid (r_channel r) = 32 * ix" "0 < ix" "ix < 256"
    and "k = length (filter (\<lambda>q. pp_program q \<noteq> 0) (pa_programs A))" and "k + length (pmt_pids P0) \<le> 1024"
  shows "\<exists>P. pmt_rewritten (r_stream (input_rewrite_pmt L (input_rewrite_pat L r))) = Some P \<and>
    ((\<forall>p \<in> insert (pm_pcr_pid P) (set (pm_streams P)). uint p \<in> pid_range (r_channel r)) \<longleftrightarrow>
     k + length (pmt_pids P0) \<le> 32)"
proof -
  let ?r1 = "input_rewrite_pat L r"
  let ?b = "word_of_int (32 * ix) :: u16"
  obtain r2 ps where rp: "rewrite_programs (word_of_int (service_id (r_channel r))) (is_pidref (r_stream r)) (pa_programs A) = (r2, ps)"
    by fastforce
  have "is_pidref (r_stream ?r1) = r2" by (simp add: input_rewrite_pat_def assms(2) Let_def rp)
  moreover have "base_pid (is_pidref (r_stream r)) = ?b" by (simp add: assms(4,5) pidref_init_def)
  ultimately have "base_pid (is_pidref (r_stream ?r1)) = ?b + of_nat k"
    using rewrite_programs_adds [OF rp] by (simp add: assms(8))
  moreover have "is_pmt (r_stream ?r1) = is_pmt (r_stream r)"
    by (simp add: input_rewrite_pat_def assms(2) rp Let_def)
  ultimately obtain P where P: "pmt_rewritten (r_stream (input_rewrite_pmt L ?r1)) = Some P"
    "insert (pm_pcr_pid P) (set (pm_streams P)) = snd ` set (numbered (?b + of_nat k) (pmt_pids P0))"
    using input_rewrite_pmt_adds [OF assms(1), of ?r1 P0] assms(3) by auto
  have u: "uint (?b + of_nat k + of_nat j) = 32 * ix + int (k + j)" if "j < length (pmt_pids P0)" for j
  proof -
    have "?b + of_nat k + of_nat j = word_of_int (32 * ix + int (k + j))"
      by simp
    then have "uint (?b + of_nat k + of_nat j) = (32 * ix + int (k + j)) mod 2 ^ 16"
      by (simp only: uint_word_of_int) simp
    moreover have "0 \<le> 32 * ix + int (k + j) \<and> 32 * ix + int (k + j) < 2 ^ 16" using that assms(6,7,9) by simp
    ultimately show ?thesis by simp
  qed
  have m: "uint (?b + of_nat k + of_nat j) \<in> pid_range (r_channel r) \<longleftrightarrow> k + j < 32" if "j < length (pmt_pids P0)" for j
    unfolding u [OF that] pid_range_def assms(5) by auto
  have "(\<forall>p \<in> insert (pm_pcr_pid P) (set (pm_streams P)). uint p \<in> pid_range (r_channel r)) \<longleftrightarrow>
    (\<forall>j < length (pmt_pids P0). k + j < 32)"
    unfolding P(2) set_numbered using m by blast
  also have "\<dots> \<longleftrightarrow> k + length (pmt_pids P0) \<le> 32"
  proof -
    have n: "0 < length (pmt_pids P0)" by (simp add: pmt_pids_def)
    show ?thesis using n by (auto dest!: spec [of _ "length (pmt_pids P0) - 1"])
  qed
  finally show ?thesis using P(1) by blast
qed

theorem pids_within_channel_witness:
  "\<exists>P. pmt_rewritten (r_stream (input_rewrite_pmt demo_lib (input_rewrite_pat demo_lib (demo_input [])))) = Some P \<and>
    (\<forall>p \<in> insert (pm_pcr_pid P) (set (pm_streams P)). uint p \<in> pid_range demo_channel)"
  using pids_within_channel [of demo_lib "demo_input []" demo_pat demo_pmt 3 1]
  by (simp add: demo_defs regen_ok_def pmt_pids_def demo_channel_base)

section \<open>What a packet does\<close>

lemma process_pat_pid: "pid \<noteq> 0 \<Longrightarrow> process_pat L r pid pkt = (0, r, pkt)"
  by (simp add: process_pat_def)

text \<open>The check for several programs never fires: the scan stops at the first one.\<close>

lemma scan_programs_count: "snd (snd (scan_programs prgs (a, b, n))) \<le> n + 1"
  by (induction prgs "(a, b, n)" arbitrary: a b n rule: scan_programs.induct) auto

lemma input_process_pat_ok: "fst (input_process_pat r) = 1"
  using scan_programs_count [of "pa_programs (is_pat (r_stream r))" "0x10" "pmt_pid (r_stream r)" 0]
  by (auto simp: input_process_pat_def Let_def split: prod.splits)

lemma find_pmt_pid_ok: "\<exists>r'. find_pmt_pid r = (1, r') \<and> in_buf r' = in_buf r"
  using input_process_pat_ok [of r]
  by (cases "input_process_pat r") (auto simp: find_pmt_pid_def input_process_pat_def Let_def split: prod.splits)

text \<open>Only the senders of PMT and EIT touch the buffer.\<close>

lemma table_frames [simp]:
  "in_buf (input_rewrite_pat L r) = in_buf r" "in_buf (input_rewrite_pmt L r) = in_buf r"
  "in_buf (input_rewrite_eit L r) = in_buf r" "in_buf (send_pat L r) = in_buf r"
  by (simp_all add: input_rewrite_pat_def input_rewrite_pmt_def input_rewrite_eit_def send_pat_def Let_def
      split: prod.split option.split)

lemma once_frames [simp]:
  "in_buf (rewrite_pat_once L r) = in_buf r" "in_buf (rewrite_pmt_once L r) = in_buf r"
  "in_buf (rewrite_eit_once L r) = in_buf r"
  by (simp_all add: rewrite_pat_once_def rewrite_pmt_once_def rewrite_eit_once_def split: option.split)

text \<open>When a PAT or a PMT asks for a reconnect: the table has changed.\<close>

definition pat_differs :: "'b input_env \<Rightarrow> input_stream \<Rightarrow> bytes \<Rightarrow> bool" where
  "pat_differs L s pkt \<longleftrightarrow> pa_init (last_pat s) \<and> pa_init (pat_push L (is_pat s) pkt) \<and>
     \<not> pat_same L (pat_push L (is_pat s) pkt) (last_pat s)"

definition pmt_differs :: "'b input_env \<Rightarrow> input_stream \<Rightarrow> bytes \<Rightarrow> bool" where
  "pmt_differs L s pkt \<longleftrightarrow> pm_init (last_pmt s) \<and> pm_init (pmt_push L (is_pmt s) pkt) \<and>
     \<not> pmt_same L (pmt_push L (is_pmt s) pkt) (last_pmt s)"

lemma process_pat_result:
  obtains r' where "process_pat L r 0 pkt =
    (if pat_differs L (r_stream r) pkt then (-2, r', pkt)
     else if pa_init (last_pat (r_stream r)) \<and> \<not> pa_init (pat_push L (is_pat (r_stream r)) pkt) then (-1, r', pkt)
     else (1, r', pad_packet))" and "in_buf r' = in_buf r"
proof -
  let ?s = "r_stream r"
  let ?p = "pat_push L (is_pat ?s) pkt"
  let ?r2 = "r\<lparr> r_stream := ?s\<lparr> is_pat := ?p, last_pat := pat_push L (if pa_init (last_pat ?s) then pat_alloc L else last_pat ?s) pkt \<rparr> \<rparr>"
  obtain r3 where r3: "find_pmt_pid ?r2 = (1, r3)" "in_buf r3 = in_buf r" using find_pmt_pid_ok [of ?r2] by auto
  show ?thesis
    by (rule that [of "if pa_init (last_pat ?s) \<and> (\<not> pa_init ?p \<or> \<not> pat_same L ?p (last_pat ?s))
          then r\<lparr> r_stream := ?s\<lparr> is_pat := ?p \<rparr> \<rparr>
          else if pa_init ?p then send_pat L (rewrite_pat_once L r3) else ?r2"])
      (auto simp: process_pat_def Let_def pat_differs_def r3)
qed













lemma process_pmt_code:
  assumes "process_pmt L r pid pkt = (res, r')"
  shows "res = (if pid = 0 \<or> pid \<noteq> pmt_pid (r_stream r) then 0
      else if pmt_differs L (r_stream r) pkt then -2
      else if pm_init (last_pmt (r_stream r)) \<or> pm_init (pmt_push L (is_pmt (r_stream r)) pkt) then -1 else 1)"
  using assms by (auto simp: process_pmt_def Let_def pmt_differs_def split: if_splits)








text \<open>
  A packet makes the input reconnect exactly when it completes a PAT or a PMT that differs
  from the last complete one. A PAT with several programs never does: the check for it is dead.
\<close>

theorem reconnect_on_table_change:
  "fst (packet_step L r pkt) = PktReconnect \<longleftrightarrow>
   \<not> r_dienow r \<and>
   (if ts_get_pid (il_ts L) pkt = 0 then pat_differs L (r_stream r) pkt
    else ts_get_pid (il_ts L) pkt = pmt_pid (r_stream r) \<and> pmt_differs L (r_stream r) pkt)"
proof (cases "ts_get_pid (il_ts L) pkt = 0")
  case True
  obtain r1 where r1: "process_pat L r 0 pkt =
    (if pat_differs L (r_stream r) pkt then (-2, r1, pkt)
     else if pa_init (last_pat (r_stream r)) \<and> \<not> pa_init (pat_push L (is_pat (r_stream r)) pkt) then (-1, r1, pkt)
     else (1, r1, pad_packet))" "in_buf r1 = in_buf r"
    by (rule process_pat_result)
  show ?thesis by (simp add: packet_step_def Let_def True r1(1) process_pmt_def)
next
  case False
  obtain res2 r2 where r2: "process_pmt L r (ts_get_pid (il_ts L) pkt) pkt = (res2, r2)" by fastforce
  show ?thesis
    using process_pmt_code [OF r2] False r2
    by (simp add: packet_step_def Let_def process_pat_pid)
qed

text \<open>
  The input buffer takes a piece of data whole or not at all: nothing while the input is
  disabled and more than half of the buffer is taken; otherwise what fits. A piece that does
  not fit disables the input, one that fits finds it enabled.
\<close>

theorem input_buffer_hysteresis:
  assumes "cbuf_ok (il_cb L) cont" and "cb_size (il_cb L) (in_buf r) = n" and "0 < n" "n \<le> 2 ^ 40"
    and "length (cont (in_buf r)) \<le> n" and "\<not> r_dienow r"
  shows "let r' = input_buffer_add L r data; fits = fst (cb_fill (il_cb L) (in_buf r) data) = 0;
             shut = (disabled r \<and> n < 2 * length (cont (in_buf r)))
         in (disabled r' \<longleftrightarrow> shut \<or> \<not> fits) \<and>
            cont (in_buf r') = (if shut \<or> \<not> fits then cont (in_buf r) else cont (in_buf r) @ data)"
proof -
  have "buffull (length (cont (in_buf r))) n \<le> 50 \<longleftrightarrow> \<not> n < 2 * length (cont (in_buf r))"
    using buffull_half [OF assms(3,4,5)] by auto
  then have "disabled (input_buffer_add L r data) \<longleftrightarrow>
      (disabled r \<and> n < 2 * length (cont (in_buf r))) \<or> fst (cb_fill (il_cb L) (in_buf r) data) \<noteq> 0"
    using assms(2,6) by (auto simp: input_buffer_add_def Let_def cbuf_counters [OF assms(1)] split: prod.split)
  then show ?thesis
    using assms(6) by (simp add: Let_def input_buffer_add_cont [OF assms(1)])
qed

theorem input_buffer_hysteresis_witness:
  "disabled (input_buffer_add demo_lib (demo_input (replicate 600 0)) [1, 2]) \<and>
   q_bytes (in_buf (input_buffer_add demo_lib (demo_input (replicate 600 0)) [1, 2])) = replicate 600 0"
  using input_buffer_hysteresis [of demo_lib q_bytes "demo_input (replicate 600 0)" 1000 "[1, 2]"]
  by (simp add: Let_def demo_input_def demo_lib_def queue_ops_ok) (simp add: queue_ops_def)

text \<open>
  The work time: inside a day, from the start second up to the second before the end. Over
  midnight the boundaries are the other way round: the start second still rests, the end
  second still works.
\<close>

theorem worktime_boundaries:
  assumes "0 \<le> a" "a < b"
  shows "(in_worktime now a b \<longleftrightarrow> a \<le> now \<and> now < b) \<and> (in_worktime now b a \<longleftrightarrow> now \<le> a \<or> b < now)"
  using assms by (auto simp: in_worktime_def)

theorem worktime_boundaries_witness:
  "\<not> in_worktime 72000 72000 21600 \<and> in_worktime 21600 72000 21600 \<and> in_worktime 0 72000 21600"
  using worktime_boundaries [of 21600 72000 72000] worktime_boundaries [of 21600 72000 21600]
    worktime_boundaries [of 21600 72000 0] by simp

end
