(* ===== verification/Steps.thy ===== *)
theory Steps
  imports Prelude
begin

text \<open>
  What the state machines of the development share: an invariant that every step keeps, a
  simulation of one step relation by another, and events that, when they are in order, succeed and
  keep an invariant. The output threads are the first, the whole program over them the second,
  the changes of the configuration and its inputs the third.
\<close>

section \<open>Invariants of steps\<close>

locale kept_by =
  fixes step :: "'s \<Rightarrow> 's \<Rightarrow> bool"
    and inv :: "'s \<Rightarrow> bool"
  assumes keep: "step s s' \<Longrightarrow> inv s \<Longrightarrow> inv s'"
begin

lemma always: "step\<^sup>*\<^sup>* s s' \<Longrightarrow> inv s \<Longrightarrow> inv s'"
  by (induction rule: rtranclp_induct) (auto intro: keep)

lemma never: "step\<^sup>*\<^sup>* s s' \<Longrightarrow> inv s \<Longrightarrow> (inv s' \<Longrightarrow> \<not> bad s') \<Longrightarrow> \<not> bad s'"
  using always by blast

end

section \<open>Simulation\<close>

text \<open>A detailed step is, through \<open>abs\<close>, a step of the abstract relation as long as an invariant holds.\<close>

locale simulation =
  fixes cstep :: "'s \<Rightarrow> 's \<Rightarrow> bool"
    and astep :: "'t \<Rightarrow> 't \<Rightarrow> bool"
    and abs :: "'s \<Rightarrow> 't"
    and inv :: "'s \<Rightarrow> bool"
  assumes sim: "cstep s s' \<Longrightarrow> inv s \<Longrightarrow> astep (abs s) (abs s') \<and> inv s'"

sublocale simulation \<subseteq> sim_inv: kept_by cstep inv
  by unfold_locales (use sim in blast)

context simulation
begin

lemma run: "cstep\<^sup>*\<^sup>* s s' \<Longrightarrow> inv s \<Longrightarrow> astep\<^sup>*\<^sup>* (abs s) (abs s')"
proof (induction rule: rtranclp_induct)
  case (step y z)
  with sim [OF step(2) sim_inv.always [OF step(1,4)]] show ?case by (meson rtranclp.rtrancl_into_rtrancl)
qed simp

end

section \<open>Events that can't fail\<close>

locale safe_events =
  fixes allowed :: "'a \<Rightarrow> 's \<Rightarrow> bool"
    and run :: "'a \<Rightarrow> 's \<Rightarrow> 's option"
    and inv :: "'s \<Rightarrow> bool"
  assumes safe: "inv s \<Longrightarrow> allowed a s \<Longrightarrow> \<exists>s'. run a s = Some s' \<and> inv s'"
begin

lemma never_fails: "inv s \<Longrightarrow> allowed a s \<Longrightarrow> run a s \<noteq> None"
  using safe by fastforce

lemma keeps: "inv s \<Longrightarrow> allowed a s \<Longrightarrow> run a s = Some s' \<Longrightarrow> inv s'"
  using safe by fastforce

end

sublocale safe_events \<subseteq> events: kept_by "\<lambda>s s'. \<exists>a. allowed a s \<and> run a s = Some s'" inv
  by unfold_locales (auto intro: keeps)

context safe_events
begin

lemma next_event_succeeds:
  "(\<lambda>s s'. \<exists>a. allowed a s \<and> run a s = Some s')\<^sup>*\<^sup>* s s' \<Longrightarrow> inv s \<Longrightarrow> allowed a s' \<Longrightarrow> run a s' \<noteq> None"
  by (rule never_fails [OF events.always])

end

end
