(* ===== verification/Pipeline.thy ===== *)
theory Pipeline
  imports Mix Writer Steps
begin

text \<open>
  The output as a whole: the mixing, the writing and the PSI thread and the main program
  (\<^verbatim>\<open>src/output_mix.c\<close>, \<^verbatim>\<open>src/output_write.c\<close>,
  \<^verbatim>\<open>src/output_psi.c\<close>, \<^verbatim>\<open>kill_threads\<close> in \<^verbatim>\<open>src/mptsd.c\<close>)
  as a step relation over the shared state: the two output buffers with their status and
  the counter \<^verbatim>\<open>dienow\<close>. The threads take no lock on these; what keeps them
  apart is the status of the buffers.
\<close>

section \<open>State\<close>

text \<open>
  Where a thread is. \<open>Head\<close> is the test of its outer loop, \<open>Waiting\<close> the loop on the
  buffer's status, \<open>Working\<close> the time it owns the buffer; after the outer loop
  \<^verbatim>\<open>dienow++\<close> is a load (\<open>Leaving\<close> to \<open>Adding\<close>) and a store.
\<close>

datatype thread_pc = Head | Waiting | Working | Leaving | Adding int | Stopped

text \<open>
  \<open>p_made\<close> and \<open>p_sent\<close> record what happened: for each buffer filled the mixing state before
  and after and the bytes, for each buffer written the output's state and the datagrams.
\<close>

record ('b, 'z) pipe =
  p_bufs :: "obuf list"
  p_mix :: "('b, 'z) mix_state"
  p_out :: woutput
  p_die :: int
  mix_pc :: thread_pc
  mix_buf :: nat
  wr_pc :: thread_pc
  wr_buf :: nat
  wr_aborted :: bool
  psi_pc :: thread_pc
  killed :: bool
  inputs_die :: bool
  p_made :: "(('b, 'z) mix_state \<times> ('b, 'z) mix_state \<times> bytes) list"
  p_sent :: "(woutput \<times> bytes list) list"

text \<open>\<^verbatim>\<open>buf_in_use = buf_in_use ? 0 : 1\<close>.\<close>

definition switch_buf :: "nat \<Rightarrow> nat" where
  "switch_buf b = (if b \<noteq> 0 then 0 else 1)"

abbreviation set_status :: "('b, 'z) pipe \<Rightarrow> nat \<Rightarrow> obuf_status \<Rightarrow> obuf list" where
  "set_status s b x \<equiv> (p_bufs s)[b := (p_bufs s ! b)\<lparr> ob_status := x \<rparr>]"

section \<open>Steps\<close>

text \<open>
  A fill and a write are one step each, between a step that takes the buffer and the switch
  to the other buffer: in between only the owner touches the buffer, which is what the
  invariant below shows. They may see a stop request only when there is one.
\<close>

inductive thread_step :: "'b mix_env \<Rightarrow> ('b, 'z) pipe \<Rightarrow> ('b, 'z) pipe \<Rightarrow> bool"
  for E where
  mix_loop_test: "mix_pc s = Head \<Longrightarrow>
    thread_step E s (s\<lparr> mix_pc := (if p_die s = 0 then Waiting else Leaving) \<rparr>)"
| mix_take: "mix_pc s = Waiting \<Longrightarrow> ob_status (p_bufs s ! mix_buf s) = obuf_empty \<Longrightarrow>
    thread_step E s (s\<lparr> mix_pc := Working, p_bufs := set_status s (mix_buf s) obuf_filling \<rparr>)"
| mix_leave: "mix_pc s = Waiting \<Longrightarrow> ob_status (p_bufs s ! mix_buf s) \<noteq> obuf_empty \<Longrightarrow> p_die s \<noteq> 0 \<Longrightarrow>
    thread_step E s (s\<lparr> mix_pc := Leaving \<rparr>)"
| mix_done: "mix_pc s = Working \<Longrightarrow> (p_die s = 0 \<Longrightarrow> (\<And>t. \<not> die t)) \<Longrightarrow>
    mix_fill E die (p_mix s) (p_bufs s ! mix_buf s) = Some (st', ob') \<Longrightarrow>
    thread_step E s (s\<lparr> mix_pc := Head, mix_buf := switch_buf (mix_buf s), p_mix := st',
      p_bufs := (p_bufs s)[mix_buf s := ob'], p_made := p_made s @ [(p_mix s, st', ob_buf ob')] \<rparr>)"
| mix_load: "mix_pc s = Leaving \<Longrightarrow> thread_step E s (s\<lparr> mix_pc := Adding (p_die s) \<rparr>)"
| mix_store: "mix_pc s = Adding v \<Longrightarrow>
    thread_step E s (s\<lparr> mix_pc := Stopped, p_die := v + 1, inputs_die := True \<rparr>)"
| wr_loop_test: "wr_pc s = Head \<Longrightarrow>
    thread_step E s (s\<lparr> wr_pc := (if p_die s = 0 then Waiting else Leaving) \<rparr>)"
| wr_take: "wr_pc s = Waiting \<Longrightarrow> ob_status (p_bufs s ! wr_buf s) = obuf_full \<Longrightarrow>
    thread_step E s (s\<lparr> wr_pc := Working, p_bufs := set_status s (wr_buf s) obuf_emptying \<rparr>)"
| wr_leave: "wr_pc s = Waiting \<Longrightarrow> ob_status (p_bufs s ! wr_buf s) \<noteq> obuf_full \<Longrightarrow> p_die s \<noteq> 0 \<Longrightarrow>
    thread_step E s (s\<lparr> wr_pc := Leaving \<rparr>)"
| wr_done: "wr_pc s = Working \<Longrightarrow>
    write_buffer (me_ts E) (me_pcr_mode E) si so io die (p_out s) (p_bufs s ! wr_buf s) = (False, rc, out', ob', ds) \<Longrightarrow>
    thread_step E s (s\<lparr> wr_pc := Head, wr_buf := switch_buf (wr_buf s), p_out := out',
      p_bufs := (p_bufs s)[wr_buf s := ob'], p_sent := p_sent s @ [(show_stats si so (p_out s), ds)] \<rparr>)"
| wr_abort: "wr_pc s = Working \<Longrightarrow> p_die s \<noteq> 0 \<Longrightarrow>
    write_buffer (me_ts E) (me_pcr_mode E) si so io die (p_out s) (p_bufs s ! wr_buf s) = (True, rc, out', ob', ds) \<Longrightarrow>
    thread_step E s (s\<lparr> wr_pc := Leaving, wr_aborted := True, p_out := out', p_bufs := (p_bufs s)[wr_buf s := ob'] \<rparr>)"
| wr_load: "wr_pc s = Leaving \<Longrightarrow> thread_step E s (s\<lparr> wr_pc := Adding (p_die s) \<rparr>)"
| wr_store: "wr_pc s = Adding v \<Longrightarrow> thread_step E s (s\<lparr> wr_pc := Stopped, p_die := v + 1 \<rparr>)"
| psi_loop_test: "psi_pc s = Head \<Longrightarrow> p_die s \<noteq> 0 \<Longrightarrow> thread_step E s (s\<lparr> psi_pc := Leaving \<rparr>)"
| psi_load: "psi_pc s = Leaving \<Longrightarrow> thread_step E s (s\<lparr> psi_pc := Adding (p_die s) \<rparr>)"
| psi_store: "psi_pc s = Adding v \<Longrightarrow> thread_step E s (s\<lparr> psi_pc := Stopped, p_die := v + 1 \<rparr>)"
| kill: "\<not> killed s \<Longrightarrow> thread_step E s (s\<lparr> killed := True, p_die := 1 \<rparr>)"

inductive_cases thread_stepE: "thread_step E s s'"

text \<open>\<open>feed\<close> is any change other threads make to the queues of packets.\<close>

inductive pipe_step :: "'b mix_env \<Rightarrow> ('b \<Rightarrow> bytes) \<Rightarrow> ('b, 'z) pipe \<Rightarrow> ('b, 'z) pipe \<Rightarrow> bool"
  for E cont where
  feed: "st_ok cont m \<Longrightarrow> pipe_step E cont s (s\<lparr> p_mix := m \<rparr>)"
| own: "thread_step E s s' \<Longrightarrow> pipe_step E cont s s'"

inductive_cases pipe_stepE: "pipe_step E cont s s'"

text \<open>The start: both buffers as \<^verbatim>\<open>output_buffer_alloc\<close> leaves them.\<close>

definition pipe_start :: "'b mix_env \<Rightarrow> ('b \<Rightarrow> bytes) \<Rightarrow> ('b, 'z) pipe \<Rightarrow> bool" where
  "pipe_start E cont s \<longleftrightarrow>
     (\<exists>n ob0 ob1. p_bufs s = [ob0, ob1] \<and> me_max E = n div TS_PACKET_SIZE \<and>
        (\<forall>ob \<in> {ob0, ob1}. obuf_ok ob \<and> all_null ob \<and> ob_size ob = n \<and> ob_written ob = 0 \<and> ob_status ob = obuf_empty)) \<and>
     st_ok cont (p_mix s) \<and> p_die s = 0 \<and> mix_pc s = Head \<and> wr_pc s = Head \<and> psi_pc s = Head \<and>
     mix_buf s = 0 \<and> wr_buf s = 0 \<and> \<not> wr_aborted s \<and> \<not> killed s \<and> \<not> inputs_die s \<and> p_made s = [] \<and> p_sent s = []"

abbreviation pipe_reach :: "'b mix_env \<Rightarrow> ('b \<Rightarrow> bytes) \<Rightarrow> ('b, 'z) pipe \<Rightarrow> ('b, 'z) pipe \<Rightarrow> bool" where
  "pipe_reach E cont \<equiv> (pipe_step E cont)\<^sup>*\<^sup>*"

lemmas own_kill = pipe_step.own [OF thread_step.kill]
lemmas own_mix_load = pipe_step.own [OF thread_step.mix_load]
lemmas own_mix_loop_test = pipe_step.own [OF thread_step.mix_loop_test]
lemmas own_mix_store = pipe_step.own [OF thread_step.mix_store]
lemmas own_mix_take = pipe_step.own [OF thread_step.mix_take]
lemmas own_psi_load = pipe_step.own [OF thread_step.psi_load]
lemmas own_psi_loop_test = pipe_step.own [OF thread_step.psi_loop_test]
lemmas own_psi_store = pipe_step.own [OF thread_step.psi_store]
lemmas own_wr_load = pipe_step.own [OF thread_step.wr_load]
lemmas own_wr_loop_test = pipe_step.own [OF thread_step.wr_loop_test]
lemmas own_wr_store = pipe_step.own [OF thread_step.wr_store]
lemmas own_wr_take = pipe_step.own [OF thread_step.wr_take]

lemmas reach_refl = rtranclp.rtrancl_refl [of "pipe_step E cont" for E cont]
lemmas reach_step = rtranclp.rtrancl_into_rtrancl [of "pipe_step E cont" for E cont]

text \<open>
  \<^verbatim>\<open>kill_threads\<close>: after the stop request it polls, at most 62 times, until the inputs are gone and
  \<^verbatim>\<open>dienow\<close> has reached 4. True: they did; False: it gives up and exits the program.
\<close>

function kill_wait :: "(nat \<Rightarrow> bool) \<Rightarrow> (nat \<Rightarrow> int) \<Rightarrow> nat \<Rightarrow> bool" where
  "kill_wait items dienow loops =
     (if items loops \<or> dienow loops < 4 then
        (if loops > 60 then False else kill_wait items dienow (loops + 1))
      else True)"
  by pat_completeness auto
termination by (relation "measure (\<lambda>(_, _, loops). 61 - loops)") auto

declare kill_wait.simps [simp del]

section \<open>A write that is not stopped\<close>

text \<open>A write that ends without a stop has seen none, and an interrupted one leaves the status alone.\<close>

lemma write_loop_unstopped:
  "write_loop T mode io die k w out ob sent = (False, w', out', ob', ds) \<Longrightarrow>
   write_loop T mode io (\<lambda>_. False) k w out ob sent = (False, w', out', ob', ds)"
proof (induction T mode io die k w out ob sent rule: write_loop.induct)
  case (1 T mode io die k w out ob sent)
  show ?case
  proof (cases "ob_written ob < ob_size ob")
    case False
    with 1(2) show ?thesis by (simp add: write_loop.simps)
  next
    case True
    with 1(2) have d: "\<not> die k" by (subst (asm) write_loop.simps) (simp split: if_splits)
    obtain o1 f1 where p: "ts_frame_process T mode out (bslice (ob_buf ob) (ob_written ob) FRAME_PACKET_SIZE) = (o1, f1)"
      by fastforce
    obtain w1 o2 d1 where s: "frame_send o1 f1 (io k) = (w1, o2, d1)" by (metis prod_cases3)
    from 1(1) [OF True d p [symmetric] s [symmetric] refl] 1(2) True d p s
    show ?thesis by (subst write_loop.simps) (subst (asm) (2) write_loop.simps, simp)
  qed
qed

lemma write_loop_status:
  "write_loop T mode io die k w out ob sent = (st, w', out', ob', ds) \<Longrightarrow> ob_status ob' = ob_status ob"
proof (induction T mode io die k w out ob sent rule: write_loop.induct)
  case (1 T mode io die k w out ob sent)
  show ?case
  proof (cases "ob_written ob < ob_size ob \<and> \<not> die k")
    case False
    with 1(2) show ?thesis by (subst (asm) write_loop.simps) (auto split: if_splits)
  next
    case True
    obtain o1 f1 where p: "ts_frame_process T mode out (bslice (ob_buf ob) (ob_written ob) FRAME_PACKET_SIZE) = (o1, f1)"
      by fastforce
    obtain w1 o2 d1 where s: "frame_send o1 f1 (io k) = (w1, o2, d1)" by (metis prod_cases3)
    from 1(1) [OF conjunct1 [OF True] conjunct2 [OF True] p [symmetric] s [symmetric] refl] 1(2) True p s
    show ?thesis by (subst (asm) (2) write_loop.simps) simp
  qed
qed

lemma write_buffer_done:
  assumes "write_buffer T mode si so io die out ob = (False, rc, out', ob', ds)"
    and "ts_ops_ok T" "obuf_ok ob" "ob_written ob = 0"
  shows "obuf_ok ob' \<and> all_null ob' \<and> ob_status ob' = obuf_empty \<and> ob_written ob' = 0 \<and> ob_size ob' = ob_size ob \<and>
    length ds = ob_size ob div FRAME_PACKET_SIZE \<and> sends T mode (show_stats si so out) (ob_buf ob) 0 ds"
proof -
  have "write_buffer T mode si so io (\<lambda>_. False) out ob = (False, rc, out', ob', ds)"
    using assms(1) by (auto simp: write_buffer_def Let_def dest: write_loop_unstopped split: prod.splits if_splits)
  with write_buffer_sends [OF assms(2) _ assms(3,4), of "\<lambda>_. False" mode si so io out] show ?thesis by auto
qed

lemma write_buffer_abort:
  "write_buffer T mode si so io die out ob = (True, rc, out', ob', ds) \<Longrightarrow> ob_status ob' = obuf_emptying"
  by (auto simp: write_buffer_def Let_def dest: write_loop_status split: prod.splits if_splits)

section \<open>The invariant of the buffers\<close>

text \<open>
  With \<open>M\<close> buffers filled and \<open>S\<close> written so far, the \<open>k\<close>-th buffer in time is buffer
  \<open>k mod 2\<close>: from \<open>S\<close> to \<open>M\<close> they hold what was filled, from \<open>M\<close> to \<open>S + 2\<close> they are padding.
\<close>

abbreviation n_made :: "('b, 'z) pipe \<Rightarrow> nat" where "n_made s \<equiv> length (p_made s)"
abbreviation n_sent :: "('b, 'z) pipe \<Rightarrow> nat" where "n_sent s \<equiv> length (p_sent s)"
abbreviation nth_buf :: "('b, 'z) pipe \<Rightarrow> nat \<Rightarrow> obuf" where "nth_buf s k \<equiv> p_bufs s ! (k mod 2)"

definition buf_free :: "nat \<Rightarrow> obuf_status \<Rightarrow> obuf \<Rightarrow> bool" where
  "buf_free n x ob \<longleftrightarrow> obuf_ok ob \<and> ob_size ob = n \<and> ob_written ob = 0 \<and> all_null ob \<and> ob_status ob = x"

definition buf_full :: "nat \<Rightarrow> obuf_status \<Rightarrow> bytes \<Rightarrow> obuf \<Rightarrow> bool" where
  "buf_full n x b ob \<longleftrightarrow> obuf_ok ob \<and> ob_size ob = n \<and> ob_written ob = 0 \<and> ob_buf ob = b \<and> ob_status ob = x"

abbreviation free_at :: "nat \<Rightarrow> ('b, 'z) pipe \<Rightarrow> nat \<Rightarrow> bool" where
  "free_at n s k \<equiv> buf_free n (if mix_pc s = Working \<and> k = n_made s then obuf_filling else obuf_empty) (nth_buf s k)"

abbreviation full_at :: "nat \<Rightarrow> ('b, 'z) pipe \<Rightarrow> nat \<Rightarrow> bool" where
  "full_at n s k \<equiv>
     buf_full n (if wr_pc s = Working \<and> k = n_sent s then obuf_emptying else obuf_full) (snd (snd (p_made s ! k))) (nth_buf s k)"

definition window_free :: "nat \<Rightarrow> ('b, 'z) pipe \<Rightarrow> bool" where
  "window_free n s \<longleftrightarrow> (\<forall>k. n_made s \<le> k \<and> k < n_sent s + 2 \<longrightarrow> free_at n s k)"

definition window_full :: "nat \<Rightarrow> ('b, 'z) pipe \<Rightarrow> bool" where
  "window_full n s \<longleftrightarrow>
     (\<forall>k. n_sent s \<le> k \<and> k < n_made s \<and> \<not> (wr_aborted s \<and> k = n_sent s) \<longrightarrow> full_at n s k)"

definition pipe_inv :: "'b mix_env \<Rightarrow> ('b \<Rightarrow> bytes) \<Rightarrow> nat \<Rightarrow> ('b, 'z) pipe \<Rightarrow> bool" where
  "pipe_inv E cont n s \<longleftrightarrow>
     length (p_bufs s) = 2 \<and> me_max E = n div TS_PACKET_SIZE \<and> st_ok cont (p_mix s) \<and>
     mix_buf s = n_made s mod 2 \<and> wr_buf s = n_sent s mod 2 \<and> n_sent s \<le> n_made s \<and> n_made s \<le> n_sent s + 2 \<and>
     (mix_pc s = Working \<longrightarrow> n_made s < n_sent s + 2) \<and>
     (wr_pc s = Working \<or> wr_aborted s \<longrightarrow> n_sent s < n_made s) \<and>
     (wr_aborted s \<longrightarrow> wr_pc s \<notin> {Head, Waiting, Working} \<and> ob_status (nth_buf s (n_sent s)) = obuf_emptying) \<and>
     window_free n s \<and> window_full n s"

text \<open>What was recorded: fills conserve packets, and writes send the frames of the fills in order.\<close>

definition pipe_log :: "'b mix_env \<Rightarrow> ('b \<Rightarrow> bytes) \<Rightarrow> nat \<Rightarrow> ('b, 'z) pipe \<Rightarrow> bool" where
  "pipe_log E cont n s \<longleftrightarrow>
     (\<forall>k < n_made s. \<exists>ob pos ps. ob_buf ob = snd (snd (p_made s ! k)) \<and>
        filled E cont (fst (p_made s ! k)) (fst (snd (p_made s ! k))) ob pos ps) \<and>
     (\<forall>k < n_sent s. length (snd (p_sent s ! k)) = n div FRAME_PACKET_SIZE \<and>
        sends (me_ts E) (me_pcr_mode E) (fst (p_sent s ! k)) (snd (snd (p_made s ! k))) 0 (snd (p_sent s ! k)))"

lemma switch_buf_mod [simp]: "switch_buf (m mod 2) = Suc m mod 2"
  by (simp add: switch_buf_def) presburger

text \<open>Within a window of two, the time decides the buffer.\<close>

lemma window_mod: "s \<le> k \<Longrightarrow> k < s + 2 \<Longrightarrow> s \<le> j \<Longrightarrow> j < s + 2 \<Longrightarrow> (k mod 2 = j mod 2) = (k = (j :: nat))"
proof -
  assume "s \<le> k" "k < s + 2" "s \<le> j" "j < s + 2"
  then have "k = s \<or> k = Suc s" "j = s \<or> j = Suc s" by linarith+
  then show ?thesis by (auto simp: mod_Suc split: if_splits)
qed

text \<open>The parts of the invariant, and putting it together.\<close>

lemma pipe_invD:
  assumes "pipe_inv E cont n s"
  shows "length (p_bufs s) = 2" "me_max E = n div TS_PACKET_SIZE" "st_ok cont (p_mix s)"
    "mix_buf s = n_made s mod 2" "wr_buf s = n_sent s mod 2" "n_sent s \<le> n_made s" "n_made s \<le> n_sent s + 2"
    "mix_pc s = Working \<Longrightarrow> n_made s < n_sent s + 2"
    "wr_pc s = Working \<or> wr_aborted s \<Longrightarrow> n_sent s < n_made s"
    "wr_aborted s \<Longrightarrow> wr_pc s \<notin> {Head, Waiting, Working} \<and> ob_status (nth_buf s (n_sent s)) = obuf_emptying"
    "n_made s \<le> k \<Longrightarrow> k < n_sent s + 2 \<Longrightarrow> free_at n s k"
    "n_sent s \<le> k \<Longrightarrow> k < n_made s \<Longrightarrow> \<not> (wr_aborted s \<and> k = n_sent s) \<Longrightarrow> full_at n s k"
proof -
  have "window_free n s" "window_full n s" using assms unfolding pipe_inv_def by blast+
  note w = this [unfolded window_free_def window_full_def]
  show "free_at n s k" if "n_made s \<le> k" "k < n_sent s + 2"
    by (rule w(1) [rule_format, OF conjI [OF that]])
  show "full_at n s k" if "n_sent s \<le> k" "k < n_made s" "\<not> (wr_aborted s \<and> k = n_sent s)"
    by (rule w(2) [rule_format, OF conjI [OF that(1) conjI [OF that(2,3)]]])
qed (use assms in \<open>unfold pipe_inv_def, blast+\<close>)

lemma pipe_invI:
  assumes "\<And>k. n_made s \<le> k \<Longrightarrow> k < n_sent s + 2 \<Longrightarrow> free_at n s k"
    "\<And>k. n_sent s \<le> k \<Longrightarrow> k < n_made s \<Longrightarrow> \<not> (wr_aborted s \<and> k = n_sent s) \<Longrightarrow> full_at n s k"
    "length (p_bufs s) = 2" "me_max E = n div TS_PACKET_SIZE" "st_ok cont (p_mix s)"
    "mix_buf s = n_made s mod 2" "wr_buf s = n_sent s mod 2" "n_sent s \<le> n_made s" "n_made s \<le> n_sent s + 2"
    "mix_pc s = Working \<Longrightarrow> n_made s < n_sent s + 2"
    "wr_pc s = Working \<or> wr_aborted s \<Longrightarrow> n_sent s < n_made s"
    "wr_aborted s \<Longrightarrow> wr_pc s \<notin> {Head, Waiting, Working} \<and> ob_status (nth_buf s (n_sent s)) = obuf_emptying"
  shows "pipe_inv E cont n s"
proof -
  have "window_free n s" "window_full n s" using assms(1,2) by (auto simp only: window_free_def window_full_def)
  with assms(3-12) show ?thesis unfolding pipe_inv_def by blast
qed

lemma pipe_start_inv:
  assumes "pipe_start E cont s"
  defines "n \<equiv> ob_size (p_bufs s ! 0)"
  shows "pipe_inv E cont n s \<and> pipe_log E cont n s"
proof -
  obtain ob0 ob1 where b: "p_bufs s = [ob0, ob1]" "me_max E = n div TS_PACKET_SIZE"
    "buf_free n obuf_empty ob0" "buf_free n obuf_empty ob1"
    using assms by (auto simp: pipe_start_def buf_free_def)
  have "nth_buf s k \<in> {ob0, ob1}" for k
    by (cases "k mod 2 = 0") (auto simp: b(1))
  then have f: "buf_free n obuf_empty (nth_buf s k)" for k using b(3,4) by (metis insertE singletonD)
  have "pipe_inv E cont n s"
  proof (rule pipe_invI)
    show "free_at n s k" for k using f [of k] assms by (simp only: pipe_start_def) simp
  qed (use assms b(1,2) in \<open>auto simp: pipe_start_def\<close>)
  moreover have "pipe_log E cont n s" using assms by (simp add: pipe_start_def pipe_log_def)
  ultimately show ?thesis by blast
qed

text \<open>Which buffer the status of the current ones shows.\<close>

lemma empty_is_free:
  assumes "pipe_inv E cont n s" "ob_status (p_bufs s ! mix_buf s) = obuf_empty"
  shows "n_made s < n_sent s + 2"
proof (rule ccontr)
  assume "\<not> n_made s < n_sent s + 2"
  with pipe_invD(7) [OF assms(1)] have e: "n_made s = n_sent s + 2" by simp
  then have m: "nth_buf s (n_made s) = nth_buf s (n_sent s)" by simp
  have "ob_status (nth_buf s (n_sent s)) \<noteq> obuf_empty"
    using pipe_invD(10) [OF assms(1)] pipe_invD(12) [OF assms(1), of "n_sent s"] e
    by (cases "wr_aborted s") (auto simp: buf_full_def split: if_splits)
  with assms(2) m show False by (simp add: pipe_invD(4) [OF assms(1)])
qed

lemma full_is_made:
  assumes "pipe_inv E cont n s" "ob_status (p_bufs s ! wr_buf s) = obuf_full"
  shows "n_sent s < n_made s"
proof (rule ccontr)
  assume "\<not> n_sent s < n_made s"
  with pipe_invD(6) [OF assms(1)] have e: "n_made s = n_sent s" by simp
  with pipe_invD(11) [OF assms(1), of "n_sent s"] have "ob_status (nth_buf s (n_sent s)) \<noteq> obuf_full"
    by (auto simp: buf_free_def split: if_splits)
  with assms(2) show False by (simp add: pipe_invD(5) [OF assms(1)])
qed

text \<open>Changing the \<open>j\<close>-th buffer leaves the others of the window.\<close>

lemma nth_buf_update:
  assumes "length bs = 2" "s \<le> k" "k < s + 2" "s \<le> j" "j < s + 2"
  shows "bs[j mod 2 := x] ! (k mod 2) = (if k = j then x else bs ! (k mod 2))"
  using assms window_mod [OF assms(2-5)] by (auto simp: nth_list_update)

lemma mix_take_inv:
  assumes I: "pipe_inv E cont n s" and w: "mix_pc s = Waiting" and e: "ob_status (p_bufs s ! mix_buf s) = obuf_empty"
    and s': "s' = s\<lparr> mix_pc := Working, p_bufs := set_status s (mix_buf s) obuf_filling \<rparr>"
  shows "pipe_inv E cont n s'"
proof -
  note D = pipe_invD [OF I]
  have lt: "n_made s < n_sent s + 2" by (rule empty_is_free [OF I e])
  have u: "nth_buf s' k = (if k = n_made s then (nth_buf s k)\<lparr> ob_status := obuf_filling \<rparr> else nth_buf s k)"
    if "n_sent s \<le> k" "k < n_sent s + 2" for k
    using nth_buf_update [OF D(1) that, of "n_made s"] D(4,6) lt by (simp add: s')
  have fr: "buf_free n obuf_filling ((nth_buf s (n_made s))\<lparr> ob_status := obuf_filling \<rparr>)"
    using D(11) [OF le_refl lt] w by (auto simp: buf_free_def obuf_ok_def all_null_def)
  show ?thesis
  proof (rule pipe_invI)
    fix k
    assume "n_made s' \<le> k" "k < n_sent s' + 2"
    then have k: "n_made s \<le> k" "k < n_sent s + 2" by (simp_all add: s')
    from u [of k] D(6) D(11) [OF k] fr w k show "free_at n s' k" by (cases "k = n_made s") (simp_all add: s')
  next
    fix k
    assume "n_sent s' \<le> k" "k < n_made s'" "\<not> (wr_aborted s' \<and> k = n_sent s')"
    then have k: "n_sent s \<le> k" "k < n_made s" "\<not> (wr_aborted s \<and> k = n_sent s)" by (simp_all add: s')
    from u [of k] D(7) D(12) [OF k] k show "full_at n s' k" by (simp add: s')
  next
    assume a: "wr_aborted s'"
    then have "n_sent s < n_made s" "wr_aborted s" using D(9) by (simp_all add: s')
    with u [of "n_sent s"] D(10) show "wr_pc s' \<notin> {Head, Waiting, Working} \<and> ob_status (nth_buf s' (n_sent s')) = obuf_emptying"
      by (simp add: s')
  qed (use D(1-9) lt in \<open>simp_all add: s'\<close>)
qed

lemma mix_done_inv:
  assumes I: "pipe_inv E cont n s" and L: "pipe_log E cont n s" and C: "cbuf_ok (me_cb E) cont"
    and w: "mix_pc s = Working" and f: "mix_fill E die (p_mix s) (p_bufs s ! mix_buf s) = Some (st', ob')"
    and s': "s' = s\<lparr> mix_pc := Head, mix_buf := switch_buf (mix_buf s), p_mix := st',
      p_bufs := (p_bufs s)[mix_buf s := ob'], p_made := p_made s @ [(p_mix s, st', ob_buf ob')] \<rparr>"
  shows "pipe_inv E cont n s' \<and> pipe_log E cont n s'"
proof -
  note D = pipe_invD [OF I]
  have lt: "n_made s < n_sent s + 2" using D(8) w by simp
  have fr: "buf_free n obuf_filling (nth_buf s (n_made s))" using D(11) [OF le_refl lt] w by simp
  then have ob: "obuf_ok (p_bufs s ! mix_buf s)" "all_null (p_bufs s ! mix_buf s)"
    "me_max E = ob_size (p_bufs s ! mix_buf s) div TS_PACKET_SIZE"
    using D(2,4) by (auto simp: buf_free_def)
  from mix_fill_filled [OF C D(3) ob f] fr D(4) obtain pos ps where F: "st_ok cont st'"
    "buf_full n obuf_full (ob_buf ob') ob'" "filled E cont (p_mix s) st' ob' pos ps"
    by (auto simp: buf_free_def buf_full_def)
  have u: "nth_buf s' k = (if k = n_made s then ob' else nth_buf s k)" if "n_sent s \<le> k" "k < n_sent s + 2" for k
    using nth_buf_update [OF D(1) that, of "n_made s"] D(4,6) lt by (simp add: s')
  have "pipe_inv E cont n s'"
  proof (rule pipe_invI)
    fix k
    assume "n_made s' \<le> k" "k < n_sent s' + 2"
    then have k: "n_made s < k" "k < n_sent s + 2" by (simp_all add: s')
    from u [of k] D(6) D(11) [of k] k show "free_at n s' k" by (simp add: s')
  next
    fix k
    assume "n_sent s' \<le> k" "k < n_made s'" "\<not> (wr_aborted s' \<and> k = n_sent s')"
    then have k: "n_sent s \<le> k" "k < Suc (n_made s)" "\<not> (wr_aborted s \<and> k = n_sent s)" by (simp_all add: s')
    show "full_at n s' k"
    proof (cases "k = n_made s")
      case True
      with u [of k] k lt F(2) D(9) show ?thesis by (auto simp: s' nth_append)
    next
      case False
      with u [of k] k lt D(12) [of k] show ?thesis by (simp add: s' nth_append)
    qed
  next
    assume a: "wr_aborted s'"
    then have "n_sent s < n_made s" "wr_aborted s" using D(9) by (simp_all add: s')
    with u [of "n_sent s"] D(10) show "wr_pc s' \<notin> {Head, Waiting, Working} \<and> ob_status (nth_buf s' (n_sent s')) = obuf_emptying"
      by (simp add: s')
  qed (use D(1-9) lt F(1) in \<open>auto simp: s'\<close>)
  moreover have "pipe_log E cont n s'"
    using L F(3) D(6) by (auto simp: pipe_log_def s' nth_append less_Suc_eq)
  ultimately show ?thesis by simp
qed

lemma wr_take_inv:
  assumes I: "pipe_inv E cont n s" and w: "wr_pc s = Waiting" and e: "ob_status (p_bufs s ! wr_buf s) = obuf_full"
    and s': "s' = s\<lparr> wr_pc := Working, p_bufs := set_status s (wr_buf s) obuf_emptying \<rparr>"
  shows "pipe_inv E cont n s'"
proof -
  note D = pipe_invD [OF I]
  have lt: "n_sent s < n_made s" by (rule full_is_made [OF I e])
  have na: "\<not> wr_aborted s" using D(10) w by auto
  have u: "nth_buf s' k = (if k = n_sent s then (nth_buf s k)\<lparr> ob_status := obuf_emptying \<rparr> else nth_buf s k)"
    if "n_sent s \<le> k" "k < n_sent s + 2" for k
    using nth_buf_update [OF D(1) that, of "n_sent s"] D(5) by (simp add: s')
  have fu: "buf_full n obuf_emptying (snd (snd (p_made s ! n_sent s))) ((nth_buf s (n_sent s))\<lparr> ob_status := obuf_emptying \<rparr>)"
    using D(12) [OF le_refl lt] w na by (auto simp: buf_full_def obuf_ok_def)
  show ?thesis
  proof (rule pipe_invI)
    fix k
    assume "n_made s' \<le> k" "k < n_sent s' + 2"
    then have k: "n_made s \<le> k" "k < n_sent s + 2" by (simp_all add: s')
    from u [of k] lt D(11) [OF k] k show "free_at n s' k" by (simp add: s')
  next
    fix k
    assume "n_sent s' \<le> k" "k < n_made s'" "\<not> (wr_aborted s' \<and> k = n_sent s')"
    then have k: "n_sent s \<le> k" "k < n_made s" "\<not> (wr_aborted s \<and> k = n_sent s)" by (simp_all add: s')
    from u [of k] D(7) D(12) [OF k] k w fu show "full_at n s' k" by (cases "k = n_sent s") (simp_all add: s')
  qed (use D(1-9) lt na in \<open>simp_all add: s'\<close>)
qed

lemma wr_done_inv:
  assumes I: "pipe_inv E cont n s" and L: "pipe_log E cont n s" and T: "ts_ops_ok (me_ts E)"
    and w: "wr_pc s = Working"
    and f: "write_buffer (me_ts E) (me_pcr_mode E) si so io die (p_out s) (p_bufs s ! wr_buf s) = (False, rc, out', ob', ds)"
    and s': "s' = s\<lparr> wr_pc := Head, wr_buf := switch_buf (wr_buf s), p_out := out',
      p_bufs := (p_bufs s)[wr_buf s := ob'], p_sent := p_sent s @ [(show_stats si so (p_out s), ds)] \<rparr>"
  shows "pipe_inv E cont n s' \<and> pipe_log E cont n s'"
proof -
  note D = pipe_invD [OF I]
  have lt: "n_sent s < n_made s" using D(9) w by simp
  have na: "\<not> wr_aborted s" using D(10) w by auto
  have fu: "buf_full n obuf_emptying (snd (snd (p_made s ! n_sent s))) (p_bufs s ! wr_buf s)"
    using D(12) [OF le_refl lt] w na D(5) by simp
  then have ob: "obuf_ok (p_bufs s ! wr_buf s)" "ob_written (p_bufs s ! wr_buf s) = 0"
    "ob_size (p_bufs s ! wr_buf s) = n" "ob_buf (p_bufs s ! wr_buf s) = snd (snd (p_made s ! n_sent s))"
    by (auto simp: buf_full_def)
  note W = write_buffer_done [OF f T ob(1,2)]
  then have fr: "buf_free n obuf_empty ob'" using ob by (simp add: buf_free_def)
  have u: "nth_buf s' k = (if k = n_sent s + 2 then ob' else nth_buf s k)" if "n_sent s < k" "k < n_sent s + 3" for k
  proof (cases "k = n_sent s + 2")
    case True
    then have "k mod 2 = n_sent s mod 2" by simp
    with True D(1,5) show ?thesis by (simp add: s')
  next
    case False
    with that nth_buf_update [OF D(1), of "n_sent s" k "n_sent s"] D(5) show ?thesis by (simp add: s')
  qed
  have "pipe_inv E cont n s'"
  proof (rule pipe_invI)
    fix k
    assume "n_made s' \<le> k" "k < n_sent s' + 2"
    then have k: "n_made s \<le> k" "k < n_sent s + 3" by (simp_all add: s')
    show "free_at n s' k"
    proof (cases "k = n_sent s + 2")
      case True
      with u [of k] k lt D(8) fr show ?thesis by (auto simp: s')
    next
      case False
      with u [of k] k lt D(11) [of k] show ?thesis by (simp add: s')
    qed
  next
    fix k
    assume "n_sent s' \<le> k" "k < n_made s'" "\<not> (wr_aborted s' \<and> k = n_sent s')"
    then have k: "n_sent s < k" "k < n_made s" by (simp_all add: s')
    from u [of k] k D(7) D(12) [of k] show "full_at n s' k" by (simp add: s')
  qed (use D(1-9) lt na in \<open>auto simp: s'\<close>)
  moreover have "pipe_log E cont n s'"
    using L W ob lt by (auto simp: pipe_log_def s' nth_append less_Suc_eq)
  ultimately show ?thesis by simp
qed

lemma wr_abort_inv:
  assumes I: "pipe_inv E cont n s" and w: "wr_pc s = Working" and st: "ob_status ob' = obuf_emptying"
    and s': "s' = s\<lparr> wr_pc := Leaving, wr_aborted := True, p_out := out', p_bufs := (p_bufs s)[wr_buf s := ob'] \<rparr>"
  shows "pipe_inv E cont n s'"
proof -
  note D = pipe_invD [OF I]
  have lt: "n_sent s < n_made s" using D(9) w by simp
  have u: "nth_buf s' k = (if k = n_sent s then ob' else nth_buf s k)" if "n_sent s \<le> k" "k < n_sent s + 2" for k
    using nth_buf_update [OF D(1) that, of "n_sent s"] D(5) by (simp add: s')
  show ?thesis
  proof (rule pipe_invI)
    fix k
    assume "n_made s' \<le> k" "k < n_sent s' + 2"
    then have k: "n_made s \<le> k" "k < n_sent s + 2" by (simp_all add: s')
    from u [of k] lt D(11) [OF k] k show "free_at n s' k" by (simp add: s')
  next
    fix k
    assume "n_sent s' \<le> k" "k < n_made s'" "\<not> (wr_aborted s' \<and> k = n_sent s')"
    then have k: "n_sent s < k" "k < n_made s" by (auto simp: s')
    from u [of k] k D(7) D(12) [of k] show "full_at n s' k" by (simp add: s')
  next
    show "wr_pc s' \<notin> {Head, Waiting, Working} \<and> ob_status (nth_buf s' (n_sent s')) = obuf_emptying"
      using u [of "n_sent s"] st by (simp add: s')
  qed (use D(1-9) lt in \<open>simp_all add: s'\<close>)
qed

text \<open>Every step keeps the invariant and the record; most do not touch the buffers.\<close>

lemma pipe_log_cong: "p_made s' = p_made s \<Longrightarrow> p_sent s' = p_sent s \<Longrightarrow> pipe_log E cont n s' = pipe_log E cont n s"
  by (simp add: pipe_log_def)

lemma pipe_inv_cong:
  assumes "pipe_inv E cont n s" "p_made s' = p_made s" "p_sent s' = p_sent s" "p_bufs s' = p_bufs s"
    "mix_buf s' = mix_buf s" "wr_buf s' = wr_buf s" "wr_aborted s' = wr_aborted s" "st_ok cont (p_mix s')"
    "(mix_pc s' = Working) = (mix_pc s = Working)" "(wr_pc s' = Working) = (wr_pc s = Working)"
    "wr_aborted s \<Longrightarrow> wr_pc s' \<notin> {Head, Waiting}"
  shows "pipe_inv E cont n s'"
proof -
  have "window_free n s' = window_free n s" "window_full n s' = window_full n s"
    unfolding window_free_def window_full_def by (simp_all only: assms(2-7,9,10))
  with assms show ?thesis unfolding pipe_inv_def by auto
qed

lemma pipe_step_inv:
  assumes "pipe_step E cont s s'" "cbuf_ok (me_cb E) cont" "ts_ops_ok (me_ts E)"
    "pipe_inv E cont n s" "pipe_log E cont n s"
  shows "pipe_inv E cont n s' \<and> pipe_log E cont n s'"
proof -
  have frame: ?thesis if "p_made s' = p_made s" "p_sent s' = p_sent s" "p_bufs s' = p_bufs s"
    "mix_buf s' = mix_buf s" "wr_buf s' = wr_buf s" "wr_aborted s' = wr_aborted s" "st_ok cont (p_mix s')"
    "(mix_pc s' = Working) = (mix_pc s = Working)" "(wr_pc s' = Working) = (wr_pc s = Working)"
    "wr_aborted s \<Longrightarrow> wr_pc s' \<notin> {Head, Waiting}"
    using pipe_inv_cong [OF assms(4) that] pipe_log_cong [OF that(1,2)] assms(5) by blast
  from assms(1) show ?thesis
  proof cases
    case (feed m)
    then show ?thesis by (intro frame) (use pipe_invD(10) [OF assms(4)] in auto)
  next
    case own
    then show ?thesis
  proof cases
  case (mix_take)
  from mix_take_inv [OF assms(4) this(2,3,1)] this(1) assms(5) show ?thesis by (simp add: pipe_log_def)
next
  case (mix_done die st' ob')
  from mix_done_inv [OF assms(4,5,2) this(2,4,1)] show ?thesis .
next
  case (wr_take)
  from wr_take_inv [OF assms(4) this(2,3,1)] this(1) assms(5) show ?thesis by (simp add: pipe_log_def)
next
  case (wr_done si so io die rc out' ob' ds)
  from wr_done_inv [OF assms(4,5,3) this(2,3,1)] show ?thesis .
next
  case (wr_abort si so io die rc out' ob' ds)
  from wr_abort_inv [OF assms(4) this(2) write_buffer_abort [OF this(4)] this(1)] this(1) assms(5) show ?thesis
    by (simp add: pipe_log_def)
qed ((rule frame; use pipe_invD(3,10) [OF assms(4)] in \<open>auto split: if_splits\<close>)+)
  qed
qed

interpretation pipe_run: kept_by "pipe_step E cont"
    "\<lambda>s. cbuf_ok (me_cb E) cont \<and> ts_ops_ok (me_ts E) \<and> pipe_inv E cont n s \<and> pipe_log E cont n s"
  for E cont n
  by unfold_locales (use pipe_step_inv in blast)

lemma pipe_reach_inv:
  assumes "pipe_reach E cont s0 s" "cbuf_ok (me_cb E) cont" "ts_ops_ok (me_ts E)" "pipe_start E cont s0"
  shows "pipe_inv E cont (ob_size (p_bufs s0 ! 0)) s \<and> pipe_log E cont (ob_size (p_bufs s0 ! 0)) s"
  using pipe_run.always [OF assms(1)] pipe_start_inv [OF assms(4)] assms(2,3) by blast

section \<open>Stopping\<close>

text \<open>\<^verbatim>\<open>dienow\<close> counts at most the stop request and the threads that have stopped.\<close>

definition n_stopped :: "('b, 'z) pipe \<Rightarrow> nat" where
  "n_stopped s = (if mix_pc s = Stopped then 1 else 0) + (if wr_pc s = Stopped then 1 else 0) +
     (if psi_pc s = Stopped then 1 else 0)"

fun loaded :: "thread_pc \<Rightarrow> int" where
  "loaded (Adding v) = v" | "loaded _ = 0"

definition running :: "thread_pc \<Rightarrow> bool" where
  "running p \<longleftrightarrow> p = Head \<or> p = Waiting \<or> p = Working"

lemma running_simps [simp]: "running Head" "running Waiting" "running Working" "\<not> running Leaving"
  "\<not> running (Adding v)" "\<not> running Stopped"
  by (simp_all add: running_def)

definition die_inv :: "('b, 'z) pipe \<Rightarrow> bool" where
  "die_inv s \<longleftrightarrow> p_die s \<le> 1 + int (n_stopped s) \<and>
     (\<not> killed s \<longrightarrow> p_die s = 0 \<and> running (mix_pc s) \<and> running (wr_pc s) \<and> running (psi_pc s)) \<and>
     loaded (mix_pc s) \<le> 1 + int (n_stopped s) \<and> loaded (wr_pc s) \<le> 1 + int (n_stopped s) \<and>
     loaded (psi_pc s) \<le> 1 + int (n_stopped s)"

lemma die_inv_step: "pipe_step E cont s s' \<Longrightarrow> die_inv s \<Longrightarrow> die_inv s'"
  by (erule pipe_stepE; (erule thread_stepE)?) (auto simp: die_inv_def n_stopped_def)

interpretation pipe_die: kept_by "pipe_step E cont" die_inv for E cont
  by unfold_locales (rule die_inv_step)

lemma die_inv_reach: "pipe_reach E cont s0 s \<Longrightarrow> pipe_start E cont s0 \<Longrightarrow> die_inv s"
  by (erule pipe_die.always) (simp add: die_inv_def pipe_start_def n_stopped_def)

lemma kill_wait_true:
  "kill_wait items dienow k \<Longrightarrow> k \<le> 61 \<Longrightarrow> \<exists>j \<ge> k. j \<le> 61 \<and> \<not> items j \<and> 4 \<le> dienow j"
proof (induction items dienow k rule: kill_wait.induct)
  case (1 items dienow k)
  show ?case
  proof (cases "items k \<or> dienow k < 4")
    case False
    with 1(3) show ?thesis by (intro exI [of _ k]) auto
  next
    case True
    with 1(2) have "\<not> k > 60" "kill_wait items dienow (k + 1)" by (subst (asm) kill_wait.simps, simp split: if_splits)+
    with 1(1) True obtain j where "k + 1 \<le> j" "j \<le> 61 \<and> \<not> items j \<and> 4 \<le> dienow j" by auto
    then show ?thesis by (intro exI [of _ j]) simp
  qed
qed

lemma kill_wait_false: "(\<And>j. items j \<or> dienow j < 4) \<Longrightarrow> \<not> kill_wait items dienow k"
proof (induction items dienow k rule: kill_wait.induct)
  case (1 items dienow k)
  then show ?case by (subst kill_wait.simps) simp
qed

text \<open>Each thread alone: one load and one store.\<close>

lemma thread_exits:
  "mix_pc s = Leaving \<Longrightarrow> pipe_reach E cont s (s\<lparr> mix_pc := Stopped, p_die := p_die s + 1, inputs_die := True \<rparr>)"
  "wr_pc s = Leaving \<Longrightarrow> pipe_reach E cont s (s\<lparr> wr_pc := Stopped, p_die := p_die s + 1 \<rparr>)"
  "psi_pc s = Leaving \<Longrightarrow> pipe_reach E cont s (s\<lparr> psi_pc := Stopped, p_die := p_die s + 1 \<rparr>)"
proof -
  show "pipe_reach E cont s (s\<lparr> mix_pc := Stopped, p_die := p_die s + 1, inputs_die := True \<rparr>)" if "mix_pc s = Leaving"
    using reach_step [OF reach_step [OF reach_refl own_mix_load [OF that]] own_mix_store] by simp
  show "pipe_reach E cont s (s\<lparr> wr_pc := Stopped, p_die := p_die s + 1 \<rparr>)" if "wr_pc s = Leaving"
    using reach_step [OF reach_step [OF reach_refl own_wr_load [OF that]] own_wr_store] by simp
  show "pipe_reach E cont s (s\<lparr> psi_pc := Stopped, p_die := p_die s + 1 \<rparr>)" if "psi_pc s = Leaving"
    using reach_step [OF reach_step [OF reach_refl own_psi_load [OF that]] own_psi_store] by simp
qed

lemma kill_run:
  assumes "pipe_start E cont s0"
  shows "pipe_reach E cont s0 (s0\<lparr> killed := True, p_die := 1, mix_pc := Leaving, wr_pc := Leaving, psi_pc := Leaving \<rparr>)"
proof -
  have h: "mix_pc s0 = Head" "wr_pc s0 = Head" "psi_pc s0 = Head" "\<not> killed s0"
    using assms by (auto simp: pipe_start_def)
  define s1 where "s1 = s0\<lparr> killed := True, p_die := 1 \<rparr>"
  have 1: "pipe_reach E cont s0 s1" unfolding s1_def by (rule reach_step [OF reach_refl own_kill [OF h(4)]])
  have m: "pipe_step E cont s1 (s1\<lparr> mix_pc := Leaving \<rparr>)"
    using own_mix_loop_test [of s1 E cont] h by (simp add: s1_def)
  have w: "pipe_step E cont (s1\<lparr> mix_pc := Leaving \<rparr>) (s1\<lparr> mix_pc := Leaving, wr_pc := Leaving \<rparr>)"
    using own_wr_loop_test [of "s1\<lparr> mix_pc := Leaving \<rparr>" E cont] h by (simp add: s1_def)
  have p: "pipe_step E cont (s1\<lparr> mix_pc := Leaving, wr_pc := Leaving \<rparr>)
      (s1\<lparr> mix_pc := Leaving, wr_pc := Leaving, psi_pc := Leaving \<rparr>)"
    using own_psi_loop_test [of "s1\<lparr> mix_pc := Leaving, wr_pc := Leaving \<rparr>" E cont] h by (simp add: s1_def)
  from reach_step [OF reach_step [OF reach_step [OF 1 m] w] p] show ?thesis by (simp add: s1_def)
qed

text \<open>One after the other they count to 4.\<close>

lemma clean_stop_run:
  assumes "pipe_start E cont s0"
  shows "\<exists>s. pipe_reach E cont s0 s \<and> p_die s = 4"
proof -
  let ?a = "s0\<lparr> killed := True, p_die := 1, mix_pc := Leaving, wr_pc := Leaving, psi_pc := Leaving \<rparr>"
  let ?b = "?a\<lparr> mix_pc := Stopped, p_die := 2, inputs_die := True \<rparr>"
  let ?c = "?b\<lparr> wr_pc := Stopped, p_die := 3 \<rparr>"
  have "pipe_reach E cont ?a ?b" using thread_exits(1) [of ?a E cont] by simp
  moreover have "pipe_reach E cont ?b ?c" using thread_exits(2) [of ?b E cont] by simp
  moreover have "pipe_reach E cont ?c (?c\<lparr> psi_pc := Stopped, p_die := 4 \<rparr>)" using thread_exits(3) [of ?c E cont] by simp
  ultimately have "pipe_reach E cont s0 (?c\<lparr> psi_pc := Stopped, p_die := 4 \<rparr>)"
    using kill_run [OF assms] by (meson rtranclp_trans)
  note r = this
  show ?thesis by (rule exI, rule conjI [OF r]) simp
qed

text \<open>After the stop request every thread is on its way out, and two of them load the counter before either stores.\<close>

lemma lost_update_run:
  assumes "pipe_start E cont s0"
  shows "\<exists>s. pipe_reach E cont s0 s \<and> mix_pc s = Stopped \<and> wr_pc s = Stopped \<and> psi_pc s = Stopped \<and> p_die s = 3"
proof -
  define s2 where "s2 = s0\<lparr> killed := True, p_die := 1, mix_pc := Leaving, wr_pc := Leaving, psi_pc := Leaving \<rparr>"
  define s3 where "s3 = s2\<lparr> mix_pc := Adding 1, wr_pc := Adding 1 \<rparr>"
  define s4 where "s4 = s3\<lparr> mix_pc := Stopped, inputs_die := True, wr_pc := Stopped, p_die := 2 \<rparr>"
  have a: "pipe_step E cont s2 (s2\<lparr> mix_pc := Adding 1 \<rparr>)"
    using own_mix_load [of s2 E cont] by (simp add: s2_def)
  have b: "pipe_step E cont (s2\<lparr> mix_pc := Adding 1 \<rparr>) s3"
    using own_wr_load [of "s2\<lparr> mix_pc := Adding 1 \<rparr>" E cont] by (simp add: s2_def s3_def)
  have c: "pipe_step E cont s3 (s3\<lparr> mix_pc := Stopped, p_die := 2, inputs_die := True \<rparr>)"
    using own_mix_store [of s3 1 E cont] by (simp add: s3_def)
  have d: "pipe_step E cont (s3\<lparr> mix_pc := Stopped, p_die := 2, inputs_die := True \<rparr>) s4"
    using own_wr_store [of "s3\<lparr> mix_pc := Stopped, p_die := 2, inputs_die := True \<rparr>" 1 E cont]
    by (simp add: s3_def s4_def)
  have "pipe_reach E cont s0 s4"
    by (rule reach_step [OF reach_step [OF reach_step [OF reach_step [OF kill_run [OF assms, folded s2_def] a] b] c] d])
  from rtranclp_trans [OF this thread_exits(3)] have "pipe_reach E cont s0 (s4\<lparr> psi_pc := Stopped, p_die := 3 \<rparr>)"
    by (simp add: s4_def s3_def s2_def)
  note r = this
  show ?thesis by (rule exI, rule conjI [OF r]) (simp add: s4_def)
qed

section \<open>Properties\<close>

text \<open>A start state.\<close>

definition demo_pipe :: "(queue, unit) pipe" where
  "demo_pipe = \<lparr> p_bufs = [demo_obuf, demo_obuf], p_mix = demo_state [] [demo_packet 0 33], p_out = demo_out 0 0, p_die = 0,
     mix_pc = Head, mix_buf = 0, wr_pc = Head, wr_buf = 0, wr_aborted = False, psi_pc = Head, killed = False,
     inputs_die = False, p_made = [], p_sent = [] \<rparr>"

lemma demo_pipe_start: "pipe_start (demo_env 0) q_bytes demo_pipe"
proof -
  have "st_ok q_bytes (demo_state [] [demo_packet 0 33])"
    by (simp add: st_ok_def demo_state_def demo_in_def demo_packet_def aligned_def ts_sizes)
  moreover have "ob_written demo_obuf = 0" "ob_status demo_obuf = obuf_empty" by (simp_all add: demo_obuf_def)
  ultimately show ?thesis
    by (simp add: pipe_start_def demo_pipe_def demo_obuf_ok) (simp add: demo_env_def ts_sizes)
qed

lemma demo_env_ok: "cbuf_ok (me_cb (demo_env 0)) q_bytes" "ts_ops_ok (me_ts (demo_env 0))"
  by (simp_all add: demo_env_def queue_ops_ok iso_ts_ok)

text \<open>
  C3. In no interleaving of the threads do the mixing and the writing thread own the same buffer;
  the status of a buffer says who owns it; and a buffer being filled started as all padding.
\<close>

theorem output_buffers_owned:
  assumes "pipe_reach E cont s0 s" "cbuf_ok (me_cb E) cont" "ts_ops_ok (me_ts E)" "pipe_start E cont s0"
  shows "\<not> (mix_pc s = Working \<and> wr_pc s = Working \<and> mix_buf s = wr_buf s) \<and>
    (mix_pc s = Working \<longrightarrow> ob_status (p_bufs s ! mix_buf s) = obuf_filling \<and> all_null (p_bufs s ! mix_buf s)) \<and>
    (wr_pc s = Working \<longrightarrow> ob_status (p_bufs s ! wr_buf s) = obuf_emptying)"
proof -
  note D = pipe_invD [OF conjunct1 [OF pipe_reach_inv [OF assms]]]
  have m: "ob_status (p_bufs s ! mix_buf s) = obuf_filling \<and> all_null (p_bufs s ! mix_buf s)" if "mix_pc s = Working"
    using D(11) [OF le_refl D(8) [OF that]] that by (simp add: D(4) buf_free_def)
  have w: "ob_status (p_bufs s ! wr_buf s) = obuf_emptying" if "wr_pc s = Working"
    using D(12) [OF le_refl D(9)] D(10) that by (auto simp: D(5) buf_full_def)
  from m w show ?thesis by auto
qed

theorem output_buffers_owned_witness:
  "\<not> (mix_pc demo_pipe = Working \<and> wr_pc demo_pipe = Working \<and> mix_buf demo_pipe = wr_buf demo_pipe)"
  using output_buffers_owned [OF reach_refl demo_env_ok demo_pipe_start] by blast

text \<open>
  The two buffers are a queue: what is written is what was filled, each buffer once, in
  order, whatever the interleaving, and the writer is at most two buffers behind. Every
  filled buffer conserves the packets taken, and every datagram sent is a frame of one.
\<close>

theorem pipeline_fifo:
  assumes "pipe_reach E cont s0 s" "cbuf_ok (me_cb E) cont" "ts_ops_ok (me_ts E)" "pipe_start E cont s0"
  shows "n_sent s \<le> n_made s \<and> n_made s \<le> n_sent s + 2 \<and>
    (\<forall>k < n_made s. \<exists>ob pos ps. ob_buf ob = snd (snd (p_made s ! k)) \<and>
       filled E cont (fst (p_made s ! k)) (fst (snd (p_made s ! k))) ob pos ps) \<and>
    (\<forall>k < n_sent s. length (snd (p_sent s ! k)) = ob_size (p_bufs s0 ! 0) div FRAME_PACKET_SIZE \<and>
       sends (me_ts E) (me_pcr_mode E) (fst (p_sent s ! k)) (snd (snd (p_made s ! k))) 0 (snd (p_sent s ! k)))"
  using pipe_reach_inv [OF assms] pipe_invD(6,7) [OF conjunct1 [OF pipe_reach_inv [OF assms]]]
  unfolding pipe_log_def by blast

theorem pipeline_fifo_witness: "n_made demo_pipe \<le> n_sent demo_pipe + 2"
  using pipeline_fifo [OF reach_refl demo_env_ok demo_pipe_start] by blast

text \<open>
  C15. The threads never block each other: when both wait for a buffer, at least one of them
  can take its buffer at once.
\<close>

theorem pipeline_no_deadlock:
  assumes "pipe_reach E cont s0 s" "cbuf_ok (me_cb E) cont" "ts_ops_ok (me_ts E)" "pipe_start E cont s0"
    and "mix_pc s = Waiting" "wr_pc s = Waiting"
  shows "\<exists>s'. pipe_step E cont s s' \<and> (mix_pc s' = Working \<or> wr_pc s' = Working)"
proof -
  note D = pipe_invD [OF conjunct1 [OF pipe_reach_inv [OF assms(1-4)]]]
  have na: "\<not> wr_aborted s" using D(10) assms(6) by auto
  show ?thesis
  proof (cases "n_sent s < n_made s")
    case True
    have "ob_status (p_bufs s ! wr_buf s) = obuf_full"
      using D(12) [OF le_refl True] na assms(6) by (simp add: D(5) buf_full_def)
    from own_wr_take [OF assms(6) this, of E cont] show ?thesis by (auto intro!: exI)
  next
    case False
    then have "n_made s < n_sent s + 2" using D(6) by simp
    from D(11) [OF le_refl this] have "ob_status (p_bufs s ! mix_buf s) = obuf_empty"
      using assms(5) by (simp add: D(4) buf_free_def)
    from own_mix_take [OF assms(5) this, of E cont] show ?thesis by (auto intro!: exI)
  qed
qed

theorem pipeline_no_deadlock_witness:
  "\<exists>s'. pipe_step (demo_env 0) q_bytes (demo_pipe\<lparr> mix_pc := Waiting, wr_pc := Waiting \<rparr>) s' \<and>
     (mix_pc s' = Working \<or> wr_pc s' = Working)"
proof -
  have "pipe_step (demo_env 0) q_bytes demo_pipe (demo_pipe\<lparr> mix_pc := Waiting \<rparr>)"
    using own_mix_loop_test [of demo_pipe "demo_env 0" q_bytes] by (simp add: demo_pipe_def)
  moreover have "pipe_step (demo_env 0) q_bytes (demo_pipe\<lparr> mix_pc := Waiting \<rparr>) (demo_pipe\<lparr> mix_pc := Waiting, wr_pc := Waiting \<rparr>)"
    using own_wr_loop_test [of "demo_pipe\<lparr> mix_pc := Waiting \<rparr>" "demo_env 0" q_bytes] by (simp add: demo_pipe_def)
  ultimately have "pipe_reach (demo_env 0) q_bytes demo_pipe (demo_pipe\<lparr> mix_pc := Waiting, wr_pc := Waiting \<rparr>)"
    by (meson rtranclp.intros)
  from pipeline_no_deadlock [OF this demo_env_ok demo_pipe_start] show ?thesis by simp
qed

text \<open>
  C12. When \<^verbatim>\<open>kill_threads\<close> returns, it saw, within its 62 polls, that no input was left and that
  the mixing, the writing and the PSI thread had stopped: the buffers it frees next are unused.
\<close>

theorem kill_threads_safe:
  assumes "\<And>j. pipe_reach E cont s0 (st j)" and "pipe_start E cont s0"
    and "kill_wait items (\<lambda>j. p_die (st j)) 0"
  shows "\<exists>j \<le> 61. \<not> items j \<and> mix_pc (st j) = Stopped \<and> wr_pc (st j) = Stopped \<and> psi_pc (st j) = Stopped"
proof -
  obtain j where j: "j \<le> 61" "\<not> items j" "4 \<le> p_die (st j)" using kill_wait_true [OF assms(3)] by auto
  from die_inv_reach [OF assms(1,2), of j] j(3)
  have "mix_pc (st j) = Stopped \<and> wr_pc (st j) = Stopped \<and> psi_pc (st j) = Stopped"
    by (auto simp: die_inv_def n_stopped_def split: if_splits)
  with j show ?thesis by blast
qed

theorem kill_threads_safe_witness:
  "\<exists>s. pipe_reach (demo_env 0) q_bytes demo_pipe s \<and> kill_wait (\<lambda>_. False) (\<lambda>_. p_die s) 0 \<and>
     mix_pc s = Stopped \<and> wr_pc s = Stopped \<and> psi_pc s = Stopped"
proof -
  obtain s where s: "pipe_reach (demo_env 0) q_bytes demo_pipe s" "p_die s = 4"
    using clean_stop_run [OF demo_pipe_start] by blast
  have k: "kill_wait (\<lambda>_. False) (\<lambda>_. p_die s) 0" using s(2) by (subst kill_wait.simps) simp
  from kill_threads_safe [OF s(1) demo_pipe_start k] s(1) k show ?thesis by blast
qed

text \<open>
  C18. The three threads increment \<^verbatim>\<open>dienow\<close> without a lock: two of them may load it before either
  stores, the count ends at 3, and \<^verbatim>\<open>kill_threads\<close> gives up although every thread has stopped.
\<close>

theorem dienow_lost_update:
  assumes "pipe_start E cont s0"
  shows "\<exists>s. pipe_reach E cont s0 s \<and> mix_pc s = Stopped \<and> wr_pc s = Stopped \<and> psi_pc s = Stopped \<and>
    \<not> kill_wait items (\<lambda>_. p_die s) 0"
proof -
  obtain s where s: "pipe_reach E cont s0 s" "mix_pc s = Stopped" "wr_pc s = Stopped" "psi_pc s = Stopped" "p_die s = 3"
    using lost_update_run [OF assms] by blast
  from s(5) have "\<not> kill_wait items (\<lambda>_. p_die s) 0" by (intro kill_wait_false) simp
  with s show ?thesis by blast
qed

theorem dienow_lost_update_witness:
  "\<exists>s. pipe_reach (demo_env 0) q_bytes demo_pipe s \<and> mix_pc s = Stopped \<and> \<not> kill_wait (\<lambda>_. False) (\<lambda>_. p_die s) 0"
  using dienow_lost_update [OF demo_pipe_start] by blast

end
