(* ===== verification/Options.thy ===== *)
theory Options
  imports Clib Obuf
begin

text \<open>
  The command line: \<^verbatim>\<open>config_load\<close> of \<^verbatim>\<open>src/config.c\<close> up to the
  configuration files, with \<^verbatim>\<open>calibrate_sleep\<close> of \<^verbatim>\<open>src/sleep.c\<close> and
  \<^verbatim>\<open>output_open_file\<close> of \<^verbatim>\<open>src/data.c\<close>. The result of
  \<^verbatim>\<open>getopt\<close> is a list of option characters with their arguments. What the
  operating system answers is a parameter.
\<close>

section \<open>Outcomes\<close>

text \<open>The program may exit with a code, or do what C leaves undefined.\<close>

datatype stop = Exit int | Undef

definition and_then :: "'e + 'a \<Rightarrow> ('a \<Rightarrow> 'e + 'b) \<Rightarrow> 'e + 'b" where
  "and_then m f = (case m of Inl e \<Rightarrow> Inl e | Inr x \<Rightarrow> f x)"

lemma and_then_simps [simp]: "and_then (Inl e) f = Inl e" "and_then (Inr x) f = f x"
  by (simp_all add: and_then_def)

lemma and_then_Inr: "and_then m f = Inr y \<longleftrightarrow> (\<exists>x. m = Inr x \<and> f x = Inr y)"
  by (cases m) auto

text \<open>What \<^verbatim>\<open>atof\<close> may return: also the infinities and NaN.\<close>

datatype dval = DFin rat | DInf | DNegInf | DNan

fun dval_lt :: "dval \<Rightarrow> rat \<Rightarrow> bool" where
  "dval_lt (DFin x) q = (x < q)"
| "dval_lt DNegInf q = True"
| "dval_lt _ q = False"

fun dval_gt :: "dval \<Rightarrow> rat \<Rightarrow> bool" where
  "dval_gt (DFin x) q = (x > q)"
| "dval_gt DInf q = True"
| "dval_gt _ q = False"

text \<open>\<^verbatim>\<open>strtoul(s, NULL, 10)\<close>: the sign negates modulo \<open>2 ^ 64\<close>, overflow gives the maximum.\<close>

definition strtoul :: "string \<Rightarrow> u64" where
  "strtoul s =
     (let (neg, s1) = take_sign (dropWhile isspace s); v = eat_digits 10 0 s1
      in if v \<ge> 2 ^ 64 then - 1 else if neg then - of_nat v else of_nat v)"

section \<open>State\<close>

text \<open>The part of \<^verbatim>\<open>CONFIG\<close> and \<^verbatim>\<open>OUTPUT\<close> the options set.\<close>

record options =
  o_ident :: "string option"
  o_logident :: "string option"
  o_pidfile :: "string option"
  o_loghost :: "string option"
  o_syslog_active :: bool
  o_logport :: int
  o_server_addr :: "string option"
  o_server_port :: int
  o_server_socket :: int
  o_multicast_ttl :: int
  o_output_intf :: u32
  o_global_conf :: "string option"
  o_channels_conf :: "string option"
  o_nit_conf :: "string option"
  o_epg_conf :: "string option"
  o_debug :: bool
  o_quiet :: bool
  o_write_input_file :: bool
  o_write_output_network :: bool
  o_write_output_file :: bool
  o_output_filename :: "string option"
  o_pcr_mode :: int
  o_use_lcn :: bool
  o_bitrate :: dval
  o_out_host :: u32
  o_out_port :: int
  o_rtp_ssrc :: u32
  o_rtp_sequence_number :: u16
  o_ofd :: int

text \<open>
  After \<^verbatim>\<open>config_alloc\<close> (all zero) and the assignments at the start of
  \<^verbatim>\<open>config_load\<close>.
\<close>

definition options_init :: options where
  "options_init =
     \<lparr> o_ident = None, o_logident = None, o_pidfile = None, o_loghost = None, o_syslog_active = False,
       o_logport = 514, o_server_addr = None, o_server_port = 0, o_server_socket = - 1, o_multicast_ttl = 1,
       o_output_intf = 0, o_global_conf = None, o_channels_conf = None, o_nit_conf = None, o_epg_conf = None,
       o_debug = False, o_quiet = False, o_write_input_file = False, o_write_output_network = True,
       o_write_output_file = False, o_output_filename = None, o_pcr_mode = 0, o_use_lcn = False,
       o_bitrate = DFin 38, o_out_host = 0, o_out_port = 5000, o_rtp_ssrc = 0, o_rtp_sequence_number = 1, o_ofd = 0 \<rparr>"

text \<open>
  The operating system: \<^verbatim>\<open>inet_aton\<close> (None: invalid), \<^verbatim>\<open>atof\<close>,
  \<^verbatim>\<open>open\<close>, \<^verbatim>\<open>init_server_socket\<close> of libfuncs, the microseconds
  \<^verbatim>\<open>timeval_diff_usec\<close> measures for each \<^verbatim>\<open>usleep(1)\<close>, the contents of
  fresh memory, and whether the calibration thread could be created.
\<close>

record options_env =
  oe_aton :: "string \<Rightarrow> u32 option"
  oe_atof :: "string \<Rightarrow> dval"
  oe_open :: "string \<Rightarrow> int"
  oe_server :: "string option \<Rightarrow> int \<Rightarrow> int"
  oe_gap :: "u64 \<Rightarrow> u64"
  oe_fresh :: "nat \<Rightarrow> bytes"
  oe_thread :: bool

section \<open>The options\<close>

definition dash_slashes :: "string \<Rightarrow> string" where
  "dash_slashes s = map (\<lambda>c. if c = CHR ''/'' then CHR ''-'' else c) s"

definition set_option :: "options_env \<Rightarrow> char \<times> string \<Rightarrow> options \<Rightarrow> stop + options" where
  "set_option E jo s =
     (case jo of (j, optarg) \<Rightarrow>
        if j = CHR ''i'' then Inr (s\<lparr> o_ident := Some optarg, o_logident := Some (dash_slashes optarg) \<rparr>)
        else if j = CHR ''b'' then Inr (s\<lparr> o_server_addr := Some optarg \<rparr>)
        else if j = CHR ''p'' then Inr (s\<lparr> o_server_port := atoi optarg \<rparr>)
        else if j = CHR ''d'' then Inr (s\<lparr> o_pidfile := Some optarg \<rparr>)
        else if j = CHR ''g'' then Inr (s\<lparr> o_global_conf := Some optarg \<rparr>)
        else if j = CHR ''c'' then Inr (s\<lparr> o_channels_conf := Some optarg \<rparr>)
        else if j = CHR ''n'' then Inr (s\<lparr> o_nit_conf := Some optarg \<rparr>)
        else if j = CHR ''e'' then Inr (s\<lparr> o_epg_conf := Some optarg \<rparr>)
        else if j = CHR ''o'' then
          (case oe_aton E optarg of None \<Rightarrow> Inl (Exit 1) | Some a \<Rightarrow> Inr (s\<lparr> o_output_intf := a \<rparr>))
        else if j = CHR ''O'' then
          (case oe_aton E optarg of None \<Rightarrow> Inl (Exit 1) | Some a \<Rightarrow> Inr (s\<lparr> o_out_host := a \<rparr>))
        else if j = CHR ''P'' then
          (let p = atoi optarg in
           if p = 0 \<or> p < 1024 then Inl (Exit 1) else Inr (s\<lparr> o_out_port := p \<rparr>))
        else if j = CHR ''s'' then Inr (s\<lparr> o_rtp_ssrc := ucast (strtoul optarg) \<rparr>)
        else if j = CHR ''m'' then
          (let m = atoi optarg in Inr (s\<lparr> o_pcr_mode := (if m < 0 \<or> m > 4 then 0 else m) \<rparr>))
        else if j = CHR ''t'' then
          (let ttl = atoi optarg in Inr (s\<lparr> o_multicast_ttl := (if ttl \<noteq> 0 \<and> ttl < 127 then ttl else 1) \<rparr>))
        else if j = CHR ''l'' then Inr (s\<lparr> o_loghost := Some optarg, o_syslog_active := True \<rparr>)
        else if j = CHR ''L'' then Inr (s\<lparr> o_logport := atoi optarg \<rparr>)
        else if j = CHR ''B'' then
          (let b = oe_atof E optarg in
           if dval_lt b 2 \<or> dval_gt b 75 then Inl (Exit 1) else Inr (s\<lparr> o_bitrate := b \<rparr>))
        else if j = CHR ''N'' then Inr (s\<lparr> o_write_output_network := False \<rparr>)
        else if j = CHR ''W'' then Inr (s\<lparr> o_write_output_file := True \<rparr>)
        else if j = CHR ''E'' then Inr (s\<lparr> o_write_input_file := True \<rparr>)
        else if j = CHR ''f'' then Inr (s\<lparr> o_output_filename := Some optarg \<rparr>)
        else if j = CHR ''9'' then Inr (s\<lparr> o_use_lcn := True \<rparr>)
        else if j = CHR ''D'' then Inr (s\<lparr> o_debug := True \<rparr>)
        else if j = CHR ''q'' then Inr (s\<lparr> o_quiet := True \<rparr>)
        else if j = CHR ''H'' \<or> j = CHR ''h'' then Inl (Exit 0)
        else Inr s)"

fun set_options :: "options_env \<Rightarrow> (char \<times> string) list \<Rightarrow> options \<Rightarrow> stop + options" where
  "set_options E [] s = Inr s"
| "set_options E (jo # jos) s = and_then (set_option E jo s) (set_options E jos)"

definition or_default :: "string option \<Rightarrow> string \<Rightarrow> string option" where
  "or_default p d = (case p of None \<Rightarrow> Some d | Some s \<Rightarrow> Some s)"

text \<open>Without an identity both names are set, also over a given one for the log.\<close>

definition set_defaults :: "options \<Rightarrow> options" where
  "set_defaults s =
     (let s1 = (if o_ident s = None then s\<lparr> o_ident := Some ''ux/mptsd'', o_logident := Some ''ux-mptsd'' \<rparr> else s)
      in s1\<lparr> o_global_conf := or_default (o_global_conf s1) ''mptsd.conf'',
             o_channels_conf := or_default (o_channels_conf s1) ''mptsd_channels.conf'',
             o_nit_conf := or_default (o_nit_conf s1) ''mptsd_nit.conf'',
             o_epg_conf := or_default (o_epg_conf s1) ''mptsd_epg.conf'',
             o_output_filename := or_default (o_output_filename s1) ''mptsd-output.ts'' \<rparr>)"

section \<open>The bit rate\<close>

text \<open>
  The rate in Mbps becomes a whole number of frames of 1316 bytes per second: that number,
  the rate in bits per second and the microseconds between two frames.
\<close>

record rate =
  packets_per_sec :: int
  bitrate :: rat
  tmout :: int
  usleep_overhead :: int

definition align_bitrate :: "rat \<Rightarrow> rate" where
  "align_bitrate mbps =
     (let bits = dbl (mbps * 1000000); pps = c_ceil (dbl (bits / 10528))
      in \<lparr> packets_per_sec = pps, bitrate = dbl (of_int (pps * 10528)), tmout = 1000000 div pps, usleep_overhead = 0 \<rparr>)"

section \<open>Calibrating the sleep\<close>

text \<open>
  3001 measurements, added up modulo \<open>2 ^ 64\<close>. Counting wraps around too, so the loop ends
  from any count.
\<close>

function calibrate_loop :: "(u64 \<Rightarrow> u64) \<Rightarrow> u64 \<Rightarrow> u64 \<Rightarrow> u64 \<times> u64" where
  "calibrate_loop gap diff loops =
     (let diff' = diff + (gap loops - 1)
      in if loops \<noteq> 3000 then calibrate_loop gap diff' (loops + 1) else (diff', loops + 1))"
  by pat_completeness auto
termination
proof (relation "measure (\<lambda>(gap, diff, loops). unat (3000 - loops))")
  fix gap :: "u64 \<Rightarrow> u64" and diff diff' loops :: u64
  assume "loops \<noteq> 3000"
  moreover define w where "w = 3000 - loops"
  ultimately have w: "w \<noteq> 0" "3000 - (loops + 1) = w - 1" by auto
  have "unat (w - 1) < unat w" using w(1) by (simp add: unat_minus_one unat_gt_0)
  then show "((gap, diff', loops + 1), gap, diff, loops) \<in> measure (\<lambda>(gap, diff, loops). unat (3000 - loops))"
    using w by (simp add: w_def)
qed simp

declare calibrate_loop.simps [simp del]

definition calibrate_sleep :: "(u64 \<Rightarrow> u64) \<Rightarrow> rate \<Rightarrow> rate" where
  "calibrate_sleep gap r =
     (case calibrate_loop gap 0 0 of (diff, loops) \<Rightarrow>
        (let overhead = sint (diff div loops); t = tmout r - overhead
         in r\<lparr> usleep_overhead := overhead, tmout := (if t < 0 then 0 else t) \<rparr>))"

section \<open>The start of \<^verbatim>\<open>config_load\<close>\<close>

definition output_open_file :: "options_env \<Rightarrow> options \<Rightarrow> stop + options" where
  "output_open_file E s =
     (let name = the (o_output_filename s); fd = (if name = ''-'' then 1 else oe_open E name)
      in if fd = - 1 then Inl (Exit 1) else Inr (s\<lparr> o_ofd := fd \<rparr>))"

text \<open>Converting NaN to \<^verbatim>\<open>long\<close> is undefined.\<close>

definition load_options ::
  "options_env \<Rightarrow> (char \<times> string) list \<Rightarrow> stop + (options \<times> rate \<times> obuf \<times> obuf)"
where
  "load_options E jos =
     and_then (set_options E jos options_init) (\<lambda>s0.
       if o_write_output_network s0 \<and> o_out_host s0 = 0 then Inl (Exit 1)
       else
         (let s = set_defaults s0 in
          case o_bitrate s of
            DFin mbps \<Rightarrow>
              (let r = align_bitrate mbps in
               and_then (if o_write_output_file s then output_open_file E s else Inr s) (\<lambda>s1.
                 let s2 = (if o_server_port s1 \<noteq> 0
                           then s1\<lparr> o_server_socket := oe_server E (o_server_addr s1) (o_server_port s1) \<rparr> else s1) in
                 if \<not> oe_thread E then Inl (Exit 1)
                 else
                   (let r' = calibrate_sleep (oe_gap E) r in
                    if tmout r' = 0 then Inl (Exit 1)
                    else (case output_buffer_alloc (oe_fresh E) 100 (bitrate r') of
                            None \<Rightarrow> Inl (Exit 1)
                          | Some (ob0, ob1) \<Rightarrow> Inr (s2, r', ob0, ob1)))))
          | _ \<Rightarrow> Inl Undef))"

section \<open>The aligned rate\<close>

lemma align_bitrate_bounds:
  assumes "2 \<le> b" and "b \<le> 75"
  shows "190 \<le> packets_per_sec (align_bitrate b)" and "packets_per_sec (align_bitrate b) \<le> 7124"
    and "bitrate (align_bitrate b) = of_int (packets_per_sec (align_bitrate b) * 10528)"
    and "tmout (align_bitrate b) = 1000000 div packets_per_sec (align_bitrate b)"
    and "b * 1000000 - 1 \<le> bitrate (align_bitrate b)" and "bitrate (align_bitrate b) < b * 1000000 + 10529"
proof -
  define x where "x = dbl (b * 1000000)"
  define y where "y = dbl (x / 10528)"
  define p where "p = c_ceil y"
  have p: "packets_per_sec (align_bitrate b) = p" "bitrate (align_bitrate b) = dbl (of_int (p * 10528))"
    "tmout (align_bitrate b) = 1000000 div p"
    by (simp_all add: align_bitrate_def x_def y_def p_def Let_def)
  have "\<bar>b * 1000000\<bar> / 2 ^ 53 \<le> 1 / 1000000" using assms by simp
  with dbl_err [of "b * 1000000"] have x: "\<bar>x - b * 1000000\<bar> \<le> 1 / 1000000" by (simp add: x_def)
  then have xb: "1999999 \<le> x" "x \<le> 75000001" using assms unfolding abs_le_iff by linarith+
  then have "\<bar>x / 10528\<bar> / 2 ^ 53 \<le> 1 / 100000" by simp
  with dbl_err [of "x / 10528"] have y: "\<bar>y - x / 10528\<bar> \<le> 1 / 100000" by (simp add: y_def)
  have ylo: "y > 189" and yhi: "y \<le> 7124" using y xb unfolding abs_le_iff by linarith+
  have c: "of_int p - 1 < y" "y \<le> of_int p" using ceiling_correct [of y] by (simp_all add: p_def c_ceil_def)
  have p190: "190 \<le> p" using ylo by (simp add: p_def c_ceil_def le_ceiling_iff)
  have p7124: "p \<le> 7124" using yhi by (simp add: p_def c_ceil_def ceiling_le_iff)
  have r: "dbl (of_int (p * 10528)) = of_int (p * 10528)" by (rule dbl_int) (use p190 p7124 in simp)
  have ym: "\<bar>y * 10528 - x\<bar> \<le> 1 / 2" using y unfolding abs_le_iff by (auto simp: field_simps)
  show "190 \<le> packets_per_sec (align_bitrate b)" "packets_per_sec (align_bitrate b) \<le> 7124"
    "bitrate (align_bitrate b) = of_int (packets_per_sec (align_bitrate b) * 10528)"
    "tmout (align_bitrate b) = 1000000 div packets_per_sec (align_bitrate b)"
    using p190 p7124 r by (simp_all add: p)
  show "b * 1000000 - 1 \<le> bitrate (align_bitrate b)" "bitrate (align_bitrate b) < b * 1000000 + 10529"
    using c ym x unfolding p r abs_le_iff by auto
qed

section \<open>The calibration\<close>

lemma calibrate_loop_sum:
  "k \<le> 3000 \<Longrightarrow>
   calibrate_loop gap d (of_nat k) = (d + (\<Sum>j = k..3000. gap (of_nat j) - 1), 3001)"
proof (induction "3000 - k" arbitrary: k d)
  case 0
  then have "k = 3000" by simp
  then show ?case by (subst calibrate_loop.simps) simp
next
  case (Suc n)
  then have k: "k < 3000" "n = 3000 - Suc k" by auto
  have ne: "(of_nat k :: u64) \<noteq> 3000"
  proof
    assume "(of_nat k :: u64) = 3000"
    then have "unat (of_nat k :: u64) = 3000" by simp
    then show False using k(1) by (simp add: unat_of_nat)
  qed
  have "calibrate_loop gap d (of_nat k) = calibrate_loop gap (d + (gap (of_nat k) - 1)) (of_nat (Suc k))"
    using ne by (subst calibrate_loop.simps) (simp add: Let_def add.commute)
  also have "\<dots> = (d + (gap (of_nat k) - 1) + (\<Sum>j = Suc k..3000. gap (of_nat j) - 1), 3001)"
    using Suc.hyps(1) [OF k(2)] k(1) by simp
  also have "\<dots> = (d + (\<Sum>j = k..3000. gap (of_nat j) - 1), 3001)"
    using k(1) by (simp add: sum.atLeast_Suc_atMost [of k 3000] add.assoc)
  finally show ?case .
qed

lemma calibrate_sleep_eq:
  "calibrate_sleep gap r =
     (let v = uint (\<Sum>j = 0..3000. gap (of_nat j) - 1) div 3001
      in r\<lparr> usleep_overhead := v, tmout := max 0 (tmout r - v) \<rparr>)"
proof -
  define D where "D = (\<Sum>j = 0..3000. gap (of_nat j) - 1)"
  have "uint (D div 3001) = uint D div 3001" by (simp add: uint_div)
  moreover have "uint D < 2 ^ 64" using uint_lt2p [of D] by simp
  then have "uint D div 3001 < 2 ^ 63" by simp
  moreover have "- (2 ^ 63) \<le> uint D div 3001" using pos_imp_zdiv_nonneg_iff [of 3001 "uint D"] by simp
  ultimately have "sint (D div 3001) = uint D div 3001"
    unfolding sint_uint by (simp only:) (rule signed_take_bit_int_eq_self, simp_all)
  then show ?thesis
    using calibrate_loop_sum [of 0 gap 0]
    by (auto simp: calibrate_sleep_def Let_def D_def max_def)
qed


lemma calibrate_sleep_frame [frame_simps]:
  "packets_per_sec (calibrate_sleep gap r) = packets_per_sec r" "bitrate (calibrate_sleep gap r) = bitrate r"
  by (simp_all add: calibrate_sleep_eq Let_def)

lemma calibrate_sleep_bounds:
  assumes "0 \<le> tmout r"
  shows "0 \<le> tmout (calibrate_sleep gap r)" and "tmout (calibrate_sleep gap r) \<le> tmout r"
    and "0 \<le> usleep_overhead (calibrate_sleep gap r)"
proof -
  have "0 \<le> uint (\<Sum>j = 0..3000. gap (of_nat j) - 1) div 3001"
    by (intro pos_imp_zdiv_nonneg_iff [THEN iffD2]) auto
  then show "0 \<le> tmout (calibrate_sleep gap r)" "tmout (calibrate_sleep gap r) \<le> tmout r"
    "0 \<le> usleep_overhead (calibrate_sleep gap r)"
    unfolding calibrate_sleep_eq Let_def using assms by auto
qed

section \<open>Well-formed options\<close>

text \<open>
  The ranges of the usage text: PCR modes 0 to 3, a TTL from 1 to 126, a port that is not
  privileged and has 16 bits.
\<close>

definition options_ok :: "options \<Rightarrow> bool" where
  "options_ok s \<longleftrightarrow> o_pcr_mode s \<in> {0..3} \<and> o_multicast_ttl s \<in> {1..126} \<and> o_out_port s \<in> {1024..65535}"

text \<open>The arguments outside these ranges that the checks of the code accept all the same.\<close>

definition let_through :: "char \<times> string \<Rightarrow> bool" where
  "let_through jo \<longleftrightarrow>
     (fst jo = CHR ''m'' \<and> atoi (snd jo) = 4) \<or> (fst jo = CHR ''t'' \<and> atoi (snd jo) < 0) \<or>
     (fst jo = CHR ''P'' \<and> 65535 < atoi (snd jo))"

text \<open>What the bit rate is checked for, NaN included.\<close>

definition bitrate_ok :: "options \<Rightarrow> bool" where
  "bitrate_ok s \<longleftrightarrow> (case o_bitrate s of DFin b \<Rightarrow> 2 \<le> b \<and> b \<le> 75 | DNan \<Rightarrow> True | _ \<Rightarrow> False)"

lemma options_init_ok [inv_intros]: "options_ok options_init" "bitrate_ok options_init"
  by (simp_all add: options_ok_def bitrate_ok_def options_init_def)

lemma set_option_ok [inv_intros]:
  assumes "set_option E jo s = Inr s'"
  shows "options_ok s \<Longrightarrow> \<not> let_through jo \<Longrightarrow> options_ok s'" and "bitrate_ok s \<Longrightarrow> bitrate_ok s'"
proof -
  obtain j a where jo: "jo = (j, a)" by fastforce
  show "options_ok s'" if "options_ok s" "\<not> let_through jo"
    using assms that by (auto simp: set_option_def options_ok_def let_through_def jo Let_def split: if_splits option.splits)
  have b: "case b of DFin q \<Rightarrow> 2 \<le> q \<and> q \<le> 75 | DNan \<Rightarrow> True | _ \<Rightarrow> False" if "\<not> dval_lt b 2" "\<not> dval_gt b 75" for b
    using that by (cases b) auto
  show "bitrate_ok s'" if "bitrate_ok s"
    using assms that b [of "oe_atof E a"]
    by (auto simp: set_option_def bitrate_ok_def jo Let_def split: if_splits option.splits)
qed

lemma set_options_ok [inv_intros]:
  assumes "set_options E jos s = Inr s'"
  shows "options_ok s \<Longrightarrow> \<forall>jo \<in> set jos. \<not> let_through jo \<Longrightarrow> options_ok s'" and "bitrate_ok s \<Longrightarrow> bitrate_ok s'"
  using assms by (induction jos arbitrary: s) (auto simp: and_then_Inr dest: set_option_ok)

lemma later_steps_ok [simp]:
  "options_ok (set_defaults s) = options_ok s"
  "options_ok (s\<lparr> o_server_socket := k \<rparr>) = options_ok s"
  "options_ok (s\<lparr> o_ofd := k \<rparr>) = options_ok s"
  by (auto simp: options_ok_def set_defaults_def Let_def)

lemma set_defaults_names:
  "o_ident (set_defaults s) \<noteq> None" "o_global_conf (set_defaults s) \<noteq> None"
  "o_channels_conf (set_defaults s) \<noteq> None" "o_nit_conf (set_defaults s) \<noteq> None"
  "o_epg_conf (set_defaults s) \<noteq> None" "o_output_filename (set_defaults s) \<noteq> None"
  by (auto simp: set_defaults_def Let_def or_default_def split: option.splits)

lemma output_open_file_Inr: "output_open_file E s = Inr s' \<longleftrightarrow> (\<exists>fd. fd \<noteq> - 1 \<and> s' = s\<lparr> o_ofd := fd \<rparr> \<and>
    fd = (if the (o_output_filename s) = ''-'' then 1 else oe_open E (the (o_output_filename s))))"
  by (auto simp: output_open_file_def Let_def)

text \<open>What a successful start went through.\<close>

lemma load_options_Inr:
  assumes "load_options E jos = Inr (s, r, ob0, ob1)"
  obtains s0 mbps fd sock where "set_options E jos options_init = Inr s0" "o_bitrate s0 = DFin mbps"
    "s = (set_defaults s0)\<lparr> o_ofd := fd, o_server_socket := sock \<rparr>"
    "o_write_output_network s0 \<longrightarrow> o_out_host s0 \<noteq> 0"
    "r = calibrate_sleep (oe_gap E) (align_bitrate mbps)" "tmout r \<noteq> 0"
    "output_buffer_alloc (oe_fresh E) 100 (bitrate r) = Some (ob0, ob1)"
proof -
  obtain s0 where s0: "set_options E jos options_init = Inr s0"
    and net: "o_write_output_network s0 \<longrightarrow> o_out_host s0 \<noteq> 0"
    using assms by (auto simp: load_options_def and_then_Inr split: if_splits)
  have br: "o_bitrate (set_defaults s0) = o_bitrate s0" by (simp add: set_defaults_def Let_def)
  obtain mbps where b: "o_bitrate s0 = DFin mbps"
    using assms net by (auto simp: load_options_def s0 br Let_def split: dval.splits)
  define r' where "r' = calibrate_sleep (oe_gap E) (align_bitrate mbps)"
  obtain s1 where s1: "(if o_write_output_file (set_defaults s0) then output_open_file E (set_defaults s0) else Inr (set_defaults s0)) = Inr s1"
    and rest: "tmout r' \<noteq> 0" "output_buffer_alloc (oe_fresh E) 100 (bitrate r') = Some (ob0, ob1)" "r = r'"
      "s = (if o_server_port s1 \<noteq> 0 then s1\<lparr> o_server_socket := oe_server E (o_server_addr s1) (o_server_port s1) \<rparr> else s1)"
    using assms net unfolding load_options_def s0 and_then_simps br b Let_def r'_def
    by (auto simp: and_then_Inr split: if_splits option.splits prod.splits)
  obtain fd where fd: "s1 = (set_defaults s0)\<lparr> o_ofd := fd \<rparr>"
  proof (cases "o_write_output_file (set_defaults s0)")
    case True
    then show thesis using s1 that by (auto simp: output_open_file_Inr)
  next
    case False
    then show thesis using s1 that [of "o_ofd (set_defaults s0)"] by simp
  qed
  obtain sock where "s = (set_defaults s0)\<lparr> o_ofd := fd, o_server_socket := sock \<rparr>"
  proof (cases "o_server_port s1 \<noteq> 0")
    case True
    then show thesis using rest(4) that by (simp add: fd)
  next
    case False
    then show thesis using rest(4) that [of "o_server_socket (set_defaults s0)"] by (simp add: fd)
  qed
  from that [OF s0 b this net] rest show thesis by (simp add: r'_def)
qed

section \<open>Properties\<close>

text \<open>The rate and the two buffers after the options.\<close>

lemma load_options_buffers:
  assumes "load_options E jos = Inr (s, r, ob0, ob1)" and "\<And>n. length (oe_fresh E n) = n"
  shows "190 \<le> packets_per_sec r \<and> packets_per_sec r \<le> 7124 \<and> bitrate r = of_int (packets_per_sec r * 10528)"
    and "0 < tmout r \<and> tmout r \<le> 1000000 div packets_per_sec r"
    and "int (ob_size ob0) = ((packets_per_sec r + 9) div 10) * 1316 \<and> ob_size ob1 = ob_size ob0"
    and "obuf_ok ob0 \<and> obuf_ok ob1 \<and> all_null ob0 \<and> all_null ob1 \<and> ob_status ob0 = obuf_empty \<and> ob_status ob1 = obuf_empty"
proof -
  obtain s0 mbps fd sock where s0: "set_options E jos options_init = Inr s0" "o_bitrate s0 = DFin mbps"
    "s = (set_defaults s0)\<lparr> o_ofd := fd, o_server_socket := sock \<rparr>"
    "o_write_output_network s0 \<longrightarrow> o_out_host s0 \<noteq> 0"
    "r = calibrate_sleep (oe_gap E) (align_bitrate mbps)" "tmout r \<noteq> 0"
    "output_buffer_alloc (oe_fresh E) 100 (bitrate r) = Some (ob0, ob1)"
    using load_options_Inr [OF assms(1)] .
  have "2 \<le> mbps" "mbps \<le> 75" using set_options_ok(2) [OF s0(1) options_init_ok(2)] s0(2) by (auto simp: bitrate_ok_def)
  note A = align_bitrate_bounds [OF this]
  have t0: "0 \<le> tmout (align_bitrate mbps)" using A(1) unfolding A(4) by (intro pos_imp_zdiv_nonneg_iff [THEN iffD2]) auto
  have r: "packets_per_sec r = packets_per_sec (align_bitrate mbps)" "bitrate r = bitrate (align_bitrate mbps)"
    "0 < tmout r" "tmout r \<le> tmout (align_bitrate mbps)"
    using s0(6) calibrate_sleep_bounds [of "align_bitrate mbps" "oe_gap E"] t0
    unfolding s0(5) by (simp_all add: calibrate_sleep_frame)
  define n where "n = nat (packets_per_sec r)"
  have n: "packets_per_sec r = int n" "0 < n" "n \<le> 7124" using A(1,2) by (auto simp: n_def r(1))
  have bits: "bitrate r = of_nat (n * 10528)" using A(3) r(1,2) n(1) by simp
  have "case output_buffer_alloc (oe_fresh E) 100 (of_nat (n * 10528)) of
     Some (ob0, ob1) \<Rightarrow> ob_size ob0 = ((n + 9) div 10) * 1316 \<and> ob_size ob1 = ob_size ob0 \<and>
       obuf_ok ob0 \<and> obuf_ok ob1 \<and> all_null ob0 \<and> all_null ob1 \<and>
       ob_status ob0 = obuf_empty \<and> ob_status ob1 = obuf_empty | None \<Rightarrow> False"
    using buffers_tenth [OF assms(2), of n] n by simp
  then have B: "ob_size ob0 = ((n + 9) div 10) * 1316" "ob_size ob1 = ob_size ob0" "obuf_ok ob0 \<and> obuf_ok ob1 \<and>
    all_null ob0 \<and> all_null ob1 \<and> ob_status ob0 = obuf_empty \<and> ob_status ob1 = obuf_empty"
    using s0(7) unfolding bits by simp_all
  show "190 \<le> packets_per_sec r \<and> packets_per_sec r \<le> 7124 \<and> bitrate r = of_int (packets_per_sec r * 10528)"
    "0 < tmout r \<and> tmout r \<le> 1000000 div packets_per_sec r"
    using A(1-4) r by simp_all
  show "int (ob_size ob0) = ((packets_per_sec r + 9) div 10) * 1316 \<and> ob_size ob1 = ob_size ob0"
    using B(1,2) by (simp add: n(1) zdiv_int)
  show "obuf_ok ob0 \<and> obuf_ok ob1 \<and> all_null ob0 \<and> all_null ob1 \<and> ob_status ob0 = obuf_empty \<and> ob_status ob1 = obuf_empty"
    using B(3) .
qed

text \<open>
  C11. A start that gets past its command line has every file name set, a bit rate of 2 to 75 Mbit/s, an
  address when the network is written, a whole number of frames per second, a positive frame time
  not above 1000000 divided by that number, and two free output buffers of a tenth of a second
  full of padding. The PCR mode, the TTL and the port are in the ranges of the usage text unless
  the arguments hold one of the three values the checks let through: mode 4, a TTL below zero, a
  port above 65535.
\<close>

theorem load_options_well_formed:
  assumes "load_options E jos = Inr (s, r, ob0, ob1)" and "\<And>n. length (oe_fresh E n) = n"
  shows "((\<forall>jo \<in> set jos. \<not> let_through jo) \<longrightarrow> options_ok s) \<and> (\<exists>b. o_bitrate s = DFin b \<and> 2 \<le> b \<and> b \<le> 75) \<and>
    o_ident s \<noteq> None \<and> o_global_conf s \<noteq> None \<and> o_channels_conf s \<noteq> None \<and>
    o_nit_conf s \<noteq> None \<and> o_epg_conf s \<noteq> None \<and> (o_write_output_network s \<longrightarrow> o_out_host s \<noteq> 0) \<and>
    190 \<le> packets_per_sec r \<and> packets_per_sec r \<le> 7124 \<and> bitrate r = of_int (packets_per_sec r * 10528) \<and>
    0 < tmout r \<and> tmout r \<le> 1000000 div packets_per_sec r \<and>
    int (ob_size ob0) = ((packets_per_sec r + 9) div 10) * 1316 \<and> ob_size ob1 = ob_size ob0 \<and>
    obuf_ok ob0 \<and> obuf_ok ob1 \<and> all_null ob0 \<and> all_null ob1 \<and>
    ob_status ob0 = obuf_empty \<and> ob_status ob1 = obuf_empty"
proof -
  obtain s0 mbps fd sock where s0: "set_options E jos options_init = Inr s0" "o_bitrate s0 = DFin mbps"
    "s = (set_defaults s0)\<lparr> o_ofd := fd, o_server_socket := sock \<rparr>" "o_write_output_network s0 \<longrightarrow> o_out_host s0 \<noteq> 0"
    using load_options_Inr [OF assms(1)] by metis
  have "o_write_output_network s \<longrightarrow> o_out_host s \<noteq> 0" using s0(4) by (simp add: s0(3) set_defaults_def Let_def)
  moreover have "o_bitrate s = DFin mbps" using s0(2) by (simp add: s0(3) set_defaults_def Let_def)
  moreover have "2 \<le> mbps \<and> mbps \<le> 75" using set_options_ok(2) [OF s0(1) options_init_ok(2)] s0(2) by (simp add: bitrate_ok_def)
  moreover have "(\<forall>jo \<in> set jos. \<not> let_through jo) \<longrightarrow> options_ok s"
    using set_options_ok(1) [OF s0(1) options_init_ok(1)] by (simp add: s0(3))
  ultimately show ?thesis using set_defaults_names [of s0] load_options_buffers [OF assms] by (simp add: s0(3))
qed


lemma atoi_3: "atoi ''3'' = 3"
  by (simp add: atoi_def strtol_def take_sign_def isspace_def char_code_def strtol_base_def digit_val_def isdigit_def
      clamp_long_def to_int32_id)

text \<open>An example: one option, sleeping takes exactly as long as asked.\<close>

definition demo_oenv :: options_env where
  "demo_oenv = \<lparr> oe_aton = (\<lambda>_. Some 7), oe_atof = (\<lambda>s. if s = ''nan'' then DNan else DFin 38), oe_open = (\<lambda>_. 3),
     oe_server = (\<lambda>_ _. 4), oe_gap = (\<lambda>_. 1), oe_fresh = (\<lambda>n. replicate n 0), oe_thread = True \<rparr>"

lemma demo_load: "\<exists>s r ob0 ob1. load_options demo_oenv [(CHR ''O'', ''x''), (CHR ''m'', ''3'')] = Inr (s, r, ob0, ob1)"
proof -
  have t: "tmout (calibrate_sleep (\<lambda>_. 1) (align_bitrate 38)) = tmout (align_bitrate 38)"
    using align_bitrate_bounds(1,2,4) [of 38]
    by (simp add: calibrate_sleep_eq Let_def max_def pos_imp_zdiv_neg_iff not_le)
  have "tmout (align_bitrate 38) > 0"
    using align_bitrate_bounds(1,2,4) [of 38] by (simp add: pos_imp_zdiv_pos_iff)
  then have "tmout (calibrate_sleep (\<lambda>_. 1) (align_bitrate 38)) \<noteq> 0" by (simp add: t)
  moreover have "bitrate (align_bitrate 38) \<noteq> 0"
    using align_bitrate_bounds(1,3) [of 38] by simp
  ultimately show ?thesis
    by (simp add: load_options_def demo_oenv_def set_option_def options_init_def set_defaults_def or_default_def Let_def
        output_buffer_alloc_def calibrate_sleep_frame)
qed

theorem load_options_well_formed_witness:
  "\<exists>s r ob0 ob1. load_options demo_oenv [(CHR ''O'', ''x''), (CHR ''m'', ''3'')] = Inr (s, r, ob0, ob1) \<and>
     options_ok s \<and> 190 \<le> packets_per_sec r \<and> all_null ob1"
proof -
  obtain s r ob0 ob1 where l: "load_options demo_oenv [(CHR ''O'', ''x''), (CHR ''m'', ''3'')] = Inr (s, r, ob0, ob1)"
    using demo_load by blast
  have "length (oe_fresh demo_oenv n) = n" for n by (simp add: demo_oenv_def)
  from load_options_well_formed [OF l this] have r: "options_ok s" "190 \<le> packets_per_sec r" "all_null ob1"
    by (simp_all add: let_through_def atoi_3)
  with l show ?thesis by blast
qed

text \<open>
  The configured bit rate is the requested one rounded up to whole frames per second: it
  differs by less than a frame per second, up to one bit of double rounding.
\<close>

theorem bitrate_rounds_up:
  assumes "2 \<le> mbps" and "mbps \<le> 75"
  shows "\<exists>n. bitrate (align_bitrate mbps) = of_int (n * 10528) \<and> packets_per_sec (align_bitrate mbps) = n \<and>
    mbps * 1000000 - 1 \<le> bitrate (align_bitrate mbps) \<and> bitrate (align_bitrate mbps) < mbps * 1000000 + 10529"
  using align_bitrate_bounds [OF assms] by blast

theorem bitrate_rounds_up_witness: "bitrate (align_bitrate 38) < 38010529"
  using bitrate_rounds_up [of 38] by auto

text \<open>
  The overhead of a sleep is the mean of what 3001 sleeps of one microsecond took beyond it,
  whatever the sum does modulo \<open>2 ^ 64\<close> on the way, when each took at least one and at most
  \<open>2 ^ 40\<close> microseconds; the frame time is reduced by it, not below zero.
\<close>

theorem calibrate_sleep_mean:
  assumes "\<And>k. k \<le> 3000 \<Longrightarrow> 1 \<le> g k \<and> g k \<le> 2 ^ 40" and "\<And>k. k \<le> 3000 \<Longrightarrow> gap (of_nat k) = of_nat (g k)"
  shows "usleep_overhead (calibrate_sleep gap r) = int ((\<Sum>k = 0..3000. g k - 1) div 3001) \<and>
    tmout (calibrate_sleep gap r) = max 0 (tmout r - int ((\<Sum>k = 0..3000. g k - 1) div 3001))"
proof -
  define S where "S = (\<Sum>k = 0..3000. g k - 1)"
  have "(\<Sum>j = 0..3000. gap (of_nat j) - 1) = (\<Sum>j = 0..3000. of_nat (g j - 1) :: u64)"
  proof (rule sum.cong)
    fix j :: nat assume "j \<in> {0..3000}"
    then have "1 \<le> g j" "gap (of_nat j) = of_nat (g j)" using assms by auto
    then show "gap (of_nat j) - 1 = of_nat (g j - 1)" by (simp add: of_nat_diff)
  qed simp
  then have s: "(\<Sum>j = 0..3000. gap (of_nat j) - 1) = of_nat S" by (simp add: S_def)
  have "S \<le> (\<Sum>k = 0..(3000::nat). 2 ^ 40)" unfolding S_def by (rule sum_mono) (use assms(1) in force)
  then have "S < 2 ^ 64" by simp
  then have "uint (of_nat S :: u64) = int S" by (simp add: unsigned_of_nat take_bit_nat_eq_self)
  then show ?thesis
    unfolding calibrate_sleep_eq s S_def [symmetric] by (simp add: zdiv_int Let_def)
qed

theorem calibrate_sleep_mean_witness:
  "usleep_overhead (calibrate_sleep (\<lambda>_. 3) (align_bitrate 38)) = 2"
  using calibrate_sleep_mean [of "\<lambda>_. 3" "\<lambda>_. 3"] by simp

text \<open>The rejected values, and the ones that get through.\<close>

lemma set_option_rejects:
  "oe_atof E a = DFin q \<Longrightarrow> q < 2 \<or> 75 < q \<Longrightarrow> set_option E (CHR ''B'', a) s = Inl (Exit 1)"
  "atoi a < 1024 \<Longrightarrow> set_option E (CHR ''P'', a) s = Inl (Exit 1)"
  "oe_aton E a = None \<Longrightarrow> set_option E (CHR ''O'', a) s = Inl (Exit 1)"
  by (auto simp: set_option_def Let_def)

text \<open>
  The range check of the bit rate lets NaN through, and the conversion that follows is
  undefined; a port above 65535, a negative TTL and PCR mode 4 are accepted too.
\<close>

theorem option_checks_incomplete:
  "load_options demo_oenv [(CHR ''N'', ''''), (CHR ''B'', ''nan'')] = Inl Undef \<and>
   (\<exists>s. set_option E (CHR ''P'', ''70000'') options_init = Inr s \<and> o_out_port s = 70000) \<and>
   (\<exists>s. set_option E (CHR ''t'', ''-5'') options_init = Inr s \<and> o_multicast_ttl s = - 5) \<and>
   (\<exists>s. set_option E (CHR ''m'', ''4'') options_init = Inr s \<and> o_pcr_mode s = 4)"
proof -
  have at: "atoi ''70000'' = 70000" "atoi ''-5'' = - 5" "atoi ''4'' = 4" 
    by (simp_all add: atoi_def strtol_def take_sign_def isspace_def char_code_def strtol_base_def digit_val_def isdigit_def
        clamp_long_def to_int32_id)
  have "set_options demo_oenv [(CHR ''N'', ''''), (CHR ''B'', ''nan'')] options_init =
      Inr (options_init\<lparr> o_write_output_network := False, o_bitrate := DNan \<rparr>)"
    by (simp add: set_option_def demo_oenv_def)
  then have "load_options demo_oenv [(CHR ''N'', ''''), (CHR ''B'', ''nan'')] = Inl Undef"
    by (simp only: load_options_def and_then_simps) (simp add: set_defaults_def options_init_def Let_def)
  moreover have "\<exists>s. set_option E (CHR ''P'', ''70000'') options_init = Inr s \<and> o_out_port s = 70000"
    "\<exists>s. set_option E (CHR ''t'', ''-5'') options_init = Inr s \<and> o_multicast_ttl s = - 5"
    "\<exists>s. set_option E (CHR ''m'', ''4'') options_init = Inr s \<and> o_pcr_mode s = 4"
    by (simp_all add: set_option_def at)
  ultimately show ?thesis by blast
qed

end
