(* ===== verification/Config.thy ===== *)
theory Config
  imports Iniparser Channel Options "HOL-Library.Monad_Syntax"
begin

text \<open>
  The configuration files, \<^verbatim>\<open>src/config.c\<close>: the global, the NIT, the channels
  and the EPG file, read through the ini parser, and what a new channels file does to the
  inputs that are running. The channel objects are shared between the configuration and the
  inputs, which keep pointers to them: they live in a store, and a pointer is an address.
  Lists of libfuncs are HOL lists in the order of the additions. The result \<open>None\<close> stands for
  what C leaves undefined: a NULL pointer or a freed object is used.
\<close>

section \<open>State\<close>

record conf_timeouts =
  ct_pat :: u32
  ct_pmt :: u32
  ct_sdt :: u32
  ct_nit :: u32
  ct_eit :: u32
  ct_tdt :: u32
  ct_tot :: u32
  ct_stats :: u32

text \<open>The fields of \<^verbatim>\<open>INPUT\<close> the configuration uses; \<open>in_chan\<close> is the pointer \<^verbatim>\<open>channel\<close>.\<close>

record in_ref =
  in_name :: string
  in_chan :: nat
  in_cookie :: int
  in_reconnect :: bool
  in_dienow :: bool
  in_freechannel :: bool

type_synonym 'e chan_store = "nat \<Rightarrow> 'e channel option"

text \<open>\<open>cf_brk\<close> is the next address \<^verbatim>\<open>calloc\<close> returns; addresses are not used again.\<close>

record 'e config =
  cf_network_id :: u16
  cf_ts_id :: u16
  cf_network_name :: "string option"
  cf_provider_name :: "string option"
  cf_timeouts :: conf_timeouts
  cf_nit :: "nit list"
  cf_epg_mtime :: int
  cf_channels :: "nat list"
  cf_inputs :: "in_ref list"
  cf_store :: "'e chan_store"
  cf_brk :: nat

section \<open>Reading a file\<close>

text \<open>
  NULL for a file that can't be read or parsed. The two memory errors of the loader are
  undefined behaviour.
\<close>

definition load_ini :: "(nat \<Rightarrow> bool) \<Rightarrow> char \<Rightarrow> string option \<Rightarrow> dictionary option option" where
  "load_ini can below file =
     (case iniparser_load can below file of
        Inr d \<Rightarrow> Some (Some d)
      | Inl LoadOob \<Rightarrow> None
      | Inl LoadOverflow \<Rightarrow> None
      | Inl _ \<Rightarrow> Some None)"

definition str_of :: "sptr \<Rightarrow> string option" where
  "str_of p = (case p of SStr s \<Rightarrow> Some s | _ \<Rightarrow> None)"

abbreviation str_at :: "dictionary \<Rightarrow> string \<Rightarrow> string option" where
  "str_at d k \<equiv> str_of (ini_get_string (Some d) SNull k)"

text \<open>\<^verbatim>\<open>"Channel%d:..."\<close> and the like.\<close>

definition num_key :: "string \<Rightarrow> nat \<Rightarrow> string \<Rightarrow> string" where
  "num_key pre i suf = pre @ show_nat i @ suf"

section \<open>The global file\<close>

definition load_timeouts :: "dictionary \<Rightarrow> conf_timeouts option" where
  "load_timeouts d = do {
     tpat \<leftarrow> ini_get_int (Some d) 100 ''Timeouts:pat'';
     tpmt \<leftarrow> ini_get_int (Some d) 200 ''Timeouts:pmt'';
     tsdt \<leftarrow> ini_get_int (Some d) 500 ''Timeouts:sdt'';
     tnit \<leftarrow> ini_get_int (Some d) 2000 ''Timeouts:nit'';
     teit \<leftarrow> ini_get_int (Some d) 1000 ''Timeouts:eit'';
     ttdt \<leftarrow> ini_get_int (Some d) 7500 ''Timeouts:tdt'';
     ttot \<leftarrow> ini_get_int (Some d) 1500 ''Timeouts:tot'';
     tstats \<leftarrow> ini_get_int (Some d) 0 ''Timeouts:stats'';
     Some \<lparr> ct_pat = word_of_int tpat, ct_pmt = word_of_int tpmt, ct_sdt = word_of_int tsdt,
            ct_nit = word_of_int tnit, ct_eit = word_of_int teit, ct_tdt = word_of_int ttdt,
            ct_tot = word_of_int ttot, ct_stats = word_of_int tstats \<rparr> }"

text \<open>The loaders give their return value and the new configuration.\<close>

definition config_load_global ::
  "(nat \<Rightarrow> bool) \<Rightarrow> char \<Rightarrow> string option \<Rightarrow> 'e config \<Rightarrow> (int \<times> 'e config) option"
where
  "config_load_global can below file cf = do {
     ini \<leftarrow> load_ini can below file;
     (case ini of
        None \<Rightarrow> Some (0, cf)
      | Some d \<Rightarrow> do {
          nid \<leftarrow> ini_get_int (Some d) 0 ''Global:network_id'';
          ts \<leftarrow> load_timeouts d;
          Some (1, cf\<lparr> cf_network_id := word_of_int nid, cf_timeouts := ts \<rparr>) }) }"

section \<open>The NIT file\<close>

text \<open>
  A transponder whose fields are all there and have the right lengths is added; the
  transport stream id is cut to 16 bits before the test.
\<close>

definition load_transponder :: "dictionary \<Rightarrow> nat \<Rightarrow> nit list \<Rightarrow> nit list option" where
  "load_transponder d i nits = do {
     ts \<leftarrow> ini_get_int (Some d) 0 (num_key ''Transponder'' i '':transport_stream_id'');
     (let ts_id = to_u16 ts in
      case (str_at d (num_key ''Transponder'' i '':frequency''),
            str_at d (num_key ''Transponder'' i '':modulation''),
            str_at d (num_key ''Transponder'' i '':symbol_rate'')) of
        (Some freq, Some md, Some sr) \<Rightarrow>
          if ts_id \<noteq> 0 \<and> length freq = 9 \<and> length sr = 8 then
            (case nit_new ts_id freq md sr of
               NitOk n \<Rightarrow> Some (nits @ [n])
             | NitUnterminated \<Rightarrow> None
             | NitNull \<Rightarrow> Some nits)
          else Some nits
      | _ \<Rightarrow> Some nits) }"

fun load_transponders :: "dictionary \<Rightarrow> nat list \<Rightarrow> nit list \<Rightarrow> nit list option" where
  "load_transponders d [] nits = Some nits"
| "load_transponders d (i # is) nits = do { nits' \<leftarrow> load_transponder d i nits; load_transponders d is nits' }"

definition config_load_nit ::
  "(nat \<Rightarrow> bool) \<Rightarrow> char \<Rightarrow> string option \<Rightarrow> 'e config \<Rightarrow> (int \<times> 'e config) option"
where
  "config_load_nit can below file cf = do {
     ini \<leftarrow> load_ini can below file;
     (case ini of
        None \<Rightarrow> Some (0, cf)
      | Some d \<Rightarrow> do {
          nits \<leftarrow> load_transponders d [1..<32] (cf_nit cf);
          Some (1, cf\<lparr> cf_network_name := str_of (ini_get_string_copy (Some d) SNull ''Global:network_name''),
                       cf_nit := nits \<rparr>) }) }"

section \<open>The channels file\<close>

text \<open>Source \<open>j\<close>; the first may also be called \<^verbatim>\<open>source\<close> without a number.\<close>

definition source_at :: "dictionary \<Rightarrow> nat \<Rightarrow> nat \<Rightarrow> string option" where
  "source_at d i j =
     (let s = str_at d (num_key ''Channel'' i ('':source'' @ show_nat j)) in
      if j = 1 \<and> s = None then str_at d (num_key ''Channel'' i '':source'') else s)"

text \<open>The first valid source makes the channel, the others are added to it; invalid ones are skipped.\<close>

definition add_source :: "(string \<Rightarrow> 'e channel option) \<Rightarrow> string option \<Rightarrow> 'e channel option \<Rightarrow> 'e channel option" where
  "add_source new src c =
     (case src of
        None \<Rightarrow> c
      | Some url \<Rightarrow>
          if \<not> is_valid_url url then c
          else (case c of None \<Rightarrow> new url | Some ch \<Rightarrow> Some (chansrc_add ch url)))"

definition fmt_worktime :: "scan_item list" where
  "fmt_worktime = [SInt 2, SLit CHR '':'', SInt 2, SLit CHR ''-'', SInt 2, SLit CHR '':'', SInt 2]"

text \<open>A work time is stored through the channel pointer, which is NULL when no source was valid.\<close>

definition set_worktime :: "string option \<Rightarrow> 'e channel option \<Rightarrow> 'e channel option option" where
  "set_worktime worktime c =
     (case worktime of
        None \<Rightarrow> Some c
      | Some w \<Rightarrow>
          (case sscanf fmt_worktime w of
             [FNum sh, FNum sm, FNum eh, FNum em] \<Rightarrow>
               (case c of
                  None \<Rightarrow> None
                | Some ch \<Rightarrow> Some (Some (ch\<lparr> worktime_start := sh * 3600 + sm * 60, worktime_end := eh * 3600 + em * 60 \<rparr>)))
           | _ \<Rightarrow> Some c))"

text \<open>Channel \<open>i\<close> of the file, if it is there.\<close>

definition load_channel :: "dictionary \<Rightarrow> nat \<Rightarrow> 'e channel option option" where
  "load_channel d i = do {
     sid \<leftarrow> ini_get_int (Some d) 0 (num_key ''Channel'' i '':service_id'');
     if sid = 0 then Some None
     else do {
       is_radio \<leftarrow> ini_get_bool (Some d) 0 (num_key ''Channel'' i '':radio'');
       clcn \<leftarrow> ini_get_int (Some d) 0 (num_key ''Channel'' i '':lcn'');
       visible \<leftarrow> ini_get_bool (Some d) 0 (num_key ''Channel'' i '':lcn_visible'');
       (case str_at d (num_key ''Channel'' i '':id'') of
          None \<Rightarrow> Some None
        | Some cid \<Rightarrow>
            (case str_at d (num_key ''Channel'' i '':name'') of
               None \<Rightarrow> Some None
             | Some nm \<Rightarrow> do {
                 eit \<leftarrow> ini_get_int (Some d) 0 (num_key ''Channel'' i '':eit_mode'');
                 set_worktime (str_at d (num_key ''Channel'' i '':worktime''))
                   (fold (\<lambda>j. add_source (\<lambda>url. channel_new sid is_radio cid nm eit url (int i) clcn visible) (source_at d i j))
                      [1..<8] None) })) } }"

fun load_channel_list :: "dictionary \<Rightarrow> nat list \<Rightarrow> 'e channel list option" where
  "load_channel_list d [] = Some []"
| "load_channel_list d (i # is) = do {
     c \<leftarrow> load_channel d i;
     cs \<leftarrow> load_channel_list d is;
     Some (case c of None \<Rightarrow> cs | Some ch \<Rightarrow> ch # cs) }"

section \<open>New channels and running inputs\<close>

text \<open>New objects at fresh addresses.\<close>

fun alloc_channels :: "'e channel list \<Rightarrow> 'e chan_store \<Rightarrow> nat \<Rightarrow> 'e chan_store" where
  "alloc_channels [] h b = h"
| "alloc_channels (c # cs) h b = alloc_channels cs (h(b \<mapsto> c)) (b + 1)"

text \<open>The last source of the channel that is the given one; \<open>-1\<close> when there is none.\<close>

definition find_source :: "'e channel \<Rightarrow> string \<Rightarrow> int" where
  "find_source c old = fold (\<lambda>i found. if sources c ! i = Some old then int i else found) [0..<num_src c] (- 1)"

text \<open>
  An input of the same name is given the new channel: with its present source when that is
  still configured, else with the last source and a request to reconnect, which moves on to
  the first one.
\<close>

definition take_over :: "int \<Rightarrow> nat \<Rightarrow> 'e channel \<Rightarrow> string \<Rightarrow> in_ref \<Rightarrow> 'e channel \<times> in_ref" where
  "take_over ck a c old r =
     (let r1 = r\<lparr> in_cookie := ck, in_chan := a \<rparr>; found = find_source c old in
      if found > - 1 then (chansrc_set c found, r1)
      else (chansrc_set c (int (num_src c) - 1), r1\<lparr> in_reconnect := True \<rparr>))"

text \<open>The first input with the channel's name.\<close>

fun rewrite_input :: "int \<Rightarrow> nat \<Rightarrow> 'e channel \<Rightarrow> 'e chan_store \<Rightarrow> in_ref list \<Rightarrow> ('e chan_store \<times> in_ref list) option" where
  "rewrite_input ck a c h [] = Some (h, [])"
| "rewrite_input ck a c h (r # rs) =
     (if c_name c = in_name r then do {
        oc \<leftarrow> h (in_chan r);
        old \<leftarrow> source oc;
        (case take_over ck a c old r of (c', r') \<Rightarrow> Some (h(a \<mapsto> c'), r' # rs)) }
      else do { (h', rs') \<leftarrow> rewrite_input ck a c h rs; Some (h', r # rs') })"

fun rewrite_inputs :: "int \<Rightarrow> nat list \<Rightarrow> 'e chan_store \<Rightarrow> in_ref list \<Rightarrow> ('e chan_store \<times> in_ref list) option" where
  "rewrite_inputs ck [] h rs = Some (h, rs)"
| "rewrite_inputs ck (a # as) h rs = do {
     c \<leftarrow> h a;
     (h', rs') \<leftarrow> rewrite_input ck a c h rs;
     rewrite_inputs ck as h' rs' }"

text \<open>
  Inputs no channel claimed are told to stop. Their channel object is about to be freed, so
  they get a copy of their own, with the present source only, to be freed with them.
\<close>

fun kill_inputs :: "int \<Rightarrow> in_ref list \<Rightarrow> 'e chan_store \<Rightarrow> nat \<Rightarrow> ('e chan_store \<times> nat \<times> in_ref list) option" where
  "kill_inputs ck [] h b = Some (h, b, [])"
| "kill_inputs ck (r # rs) h b =
     (if in_cookie r \<noteq> ck then do {
        c \<leftarrow> h (in_chan r);
        src \<leftarrow> source c;
        copy \<leftarrow> channel_new (service_id c) (radio c) (c_id c) (c_name c) (eit_mode c) src (c_index c) (lcn c) (lcn_visible c);
        (h', b', rs') \<leftarrow> kill_inputs ck rs (h(b \<mapsto> copy)) (b + 1);
        Some (h', b', r\<lparr> in_chan := b, in_freechannel := True, in_dienow := True \<rparr> # rs') }
      else do { (h', b', rs') \<leftarrow> kill_inputs ck rs h b; Some (h', b', r # rs') })"

fun free_channels :: "nat list \<Rightarrow> 'e chan_store \<Rightarrow> 'e chan_store option" where
  "free_channels [] h = Some h"
| "free_channels (a # as) h = (case h a of None \<Rightarrow> None | Some _ \<Rightarrow> free_channels as (h(a := None)))"

text \<open>The second half of the loader: \<open>cs\<close> are the channels of the file, \<open>ck\<close> the random cookie.\<close>

definition switch_channels :: "int \<Rightarrow> 'e channel list \<Rightarrow> 'e config \<Rightarrow> 'e config option" where
  "switch_channels ck cs cf =
     (let new = [cf_brk cf..<cf_brk cf + length cs]; h0 = alloc_channels cs (cf_store cf) (cf_brk cf) in do {
        (h1, rs1) \<leftarrow> rewrite_inputs ck new h0 (cf_inputs cf);
        (h2, b2, rs2) \<leftarrow> kill_inputs ck rs1 h1 (cf_brk cf + length cs);
        h3 \<leftarrow> free_channels (cf_channels cf) h2;
        Some (cf\<lparr> cf_channels := new, cf_inputs := rs2, cf_store := h3, cf_brk := b2 \<rparr>) })"

definition config_load_channels ::
  "(nat \<Rightarrow> bool) \<Rightarrow> char \<Rightarrow> int \<Rightarrow> string option \<Rightarrow> 'e config \<Rightarrow> (int \<times> 'e config) option"
where
  "config_load_channels can below ck file cf = do {
     ini \<leftarrow> load_ini can below file;
     (case ini of
        None \<Rightarrow> Some (0, cf)
      | Some d \<Rightarrow> do {
          ts \<leftarrow> ini_get_int (Some d) 0 ''Global:transport_stream_id'';
          cs \<leftarrow> load_channel_list d [1..<32];
          cf' \<leftarrow> switch_channels ck cs
            (cf\<lparr> cf_provider_name := str_of (ini_get_string_copy (Some d) SNull ''Global:provider_name''),
                 cf_ts_id := to_u16 ts \<rparr>);
          Some (int (length cs), cf') }) }"

section \<open>The EPG file\<close>

text \<open>The libraries: string initialisers, comparison, and the builders of an EIT.\<close>

record 'e epg_env =
  ee_utf8 :: "string option \<Rightarrow> string option"
  ee_iso5 :: "string option \<Rightarrow> string option"
  ee_xstrcmp :: "string option \<Rightarrow> string option \<Rightarrow> int"
  ee_init :: "int \<Rightarrow> u16 \<Rightarrow> u16 \<Rightarrow> int \<Rightarrow> int \<Rightarrow> 'e"
  ee_version :: "'e \<Rightarrow> 5 word \<Rightarrow> 'e"
  ee_short :: "'e \<Rightarrow> u16 \<Rightarrow> int \<Rightarrow> int \<Rightarrow> int \<Rightarrow> string option \<Rightarrow> string option \<Rightarrow> 'e"
  ee_extended :: "'e \<Rightarrow> u16 \<Rightarrow> int \<Rightarrow> int \<Rightarrow> int \<Rightarrow> string option \<Rightarrow> 'e"
  ee_regen :: "'e \<Rightarrow> 'e"

text \<open>The loop bodies run on every channel of the configuration.\<close>

fun on_channels :: "('e channel \<Rightarrow> 'e channel option) \<Rightarrow> nat list \<Rightarrow> 'e chan_store \<Rightarrow> 'e chan_store option" where
  "on_channels f [] h = Some h"
| "on_channels f (a # as) h = do { c \<leftarrow> h a; c' \<leftarrow> f c; on_channels f as (h(a \<mapsto> c')) }"

definition config_reset_channels_epg :: "'e config \<Rightarrow> 'e config option" where
  "config_reset_channels_epg cf = do {
     h \<leftarrow> on_channels (\<lambda>c. Some (channel_free_epg c)) (cf_channels cf) (cf_store cf);
     Some (cf\<lparr> cf_store := h, cf_epg_mtime := 0 \<rparr>) }"

definition config_load_epg_entry :: "'e epg_env \<Rightarrow> dictionary \<Rightarrow> string \<Rightarrow> string \<Rightarrow> epg_entry option option" where
  "config_load_epg_entry E d entry ch =
     (let key = (\<lambda>suf. ch @ ''-'' @ entry @ suf) in do {
        start \<leftarrow> ini_get_int (Some d) 0 (key '':start'');
        duration \<leftarrow> ini_get_int (Some d) 0 (key '':duration'');
        (let event = str_at d (key '':event''); sdesc = str_at d (key '':sdescr''); ldesc = str_at d (key '':descr'');
             enc = str_at d (key '':encoding'')
         in if start \<noteq> 0 \<and> duration \<noteq> 0 \<and> event \<noteq> None
            then Some (epg_new (ee_utf8 E) (ee_iso5 E) start duration enc event sdesc ldesc)
            else Some None) })"

definition build_eit :: "'e epg_env \<Rightarrow> 'e config \<Rightarrow> 'e channel \<Rightarrow> int \<Rightarrow> epg_entry option \<Rightarrow> 'e" where
  "build_eit E cf c section e =
     (let t = ee_version E (ee_init E (service_id c) (cf_ts_id cf) (cf_network_id cf) section 1) (epg_version c);
          t1 = (case e of
                  None \<Rightarrow> t
                | Some x \<Rightarrow>
                    ee_extended E (ee_short E t (event_id x) 1 (epg_start x) (epg_duration x) (epg_event x) (epg_short x))
                      (event_id x) 1 (epg_start x) (epg_duration x) (epg_long x))
      in ee_regen E t1)"

definition config_channel_init_epg ::
  "'e epg_env \<Rightarrow> 'e config \<Rightarrow> 'e channel \<Rightarrow> epg_entry option \<Rightarrow> epg_entry option \<Rightarrow> 'e channel"
where
  "config_channel_init_epg E cf c now nxt =
     (if \<not> epg_changed (ee_xstrcmp E) now (epg_now c) \<and> \<not> epg_changed (ee_xstrcmp E) nxt (epg_next c) then c
      else
        (let c1 = c\<lparr> epg_version := epg_version c + 1 \<rparr>;
             enow = build_eit E cf c1 0 now; enext = build_eit E cf c1 1 nxt;
             c2 = (channel_free_epg c1)\<lparr> epg_now := now, epg_next := nxt \<rparr>
         in if now \<noteq> None \<or> nxt \<noteq> None then c2\<lparr> eit_now := Some enow, eit_next := Some enext \<rparr> else c2))"

text \<open>\<open>mtime\<close> is what \<^verbatim>\<open>stat\<close> found, \<open>None\<close> when it failed.\<close>

definition config_load_epg ::
  "'e epg_env \<Rightarrow> (nat \<Rightarrow> bool) \<Rightarrow> char \<Rightarrow> int option \<Rightarrow> string option \<Rightarrow> 'e config \<Rightarrow> (int \<times> 'e config) option"
where
  "config_load_epg E can below mtime file cf =
     (case mtime of
        None \<Rightarrow> do { cf' \<leftarrow> config_reset_channels_epg cf; Some (0, cf') }
      | Some m \<Rightarrow>
          if m > cf_epg_mtime cf then
            (let cf1 = cf\<lparr> cf_epg_mtime := m \<rparr> in do {
               ini \<leftarrow> load_ini can below file;
               (case ini of
                  None \<Rightarrow> do { cf' \<leftarrow> config_reset_channels_epg cf1; Some (0, cf') }
                | Some d \<Rightarrow> do {
                    h \<leftarrow> on_channels (\<lambda>c. do {
                           now \<leftarrow> config_load_epg_entry E d ''now'' (c_id c);
                           nxt \<leftarrow> config_load_epg_entry E d ''next'' (c_id c);
                           Some (config_channel_init_epg E cf1 c now nxt) }) (cf_channels cf1) (cf_store cf1);
                    Some (1, cf1\<lparr> cf_store := h \<rparr>) }) })
          else Some (0, cf))"

section \<open>Starting up\<close>

text \<open>\<^verbatim>\<open>config_alloc\<close>: everything zero, no channels, no inputs.\<close>

definition config_alloc :: "'e config" where
  "config_alloc =
     \<lparr> cf_network_id = 0, cf_ts_id = 0, cf_network_name = None, cf_provider_name = None,
       cf_timeouts = \<lparr> ct_pat = 0, ct_pmt = 0, ct_sdt = 0, ct_nit = 0, ct_eit = 0, ct_tdt = 0, ct_tot = 0, ct_stats = 0 \<rparr>,
       cf_nit = [], cf_epg_mtime = 0, cf_channels = [], cf_inputs = [], cf_store = (\<lambda>_. None), cf_brk = 0 \<rparr>"

text \<open>The files as the operating system has them: content and, for the EPG, the modification time.\<close>

record files =
  fs_read :: "string \<Rightarrow> string option"
  fs_mtime :: "string \<Rightarrow> int option"

definition ok_or_exit :: "(int \<times> 'a) option \<Rightarrow> stop + 'a" where
  "ok_or_exit x = (case x of None \<Rightarrow> Inl Undef | Some (ret, y) \<Rightarrow> if ret = 0 then Inl (Exit 1) else Inr y)"

definition config_load ::
  "options_env \<Rightarrow> 'e epg_env \<Rightarrow> (nat \<Rightarrow> bool) \<Rightarrow> char \<Rightarrow> int \<Rightarrow> files \<Rightarrow> (char \<times> string) list \<Rightarrow>
   stop + ('e config \<times> options \<times> rate \<times> obuf \<times> obuf)"
where
  "config_load E EE can below ck F jos =
     and_then (load_options E jos) (\<lambda>(s, r, ob0, ob1).
       and_then (ok_or_exit (config_load_global can below (fs_read F (the (o_global_conf s))) config_alloc)) (\<lambda>cf1.
       and_then (ok_or_exit (config_load_nit can below (fs_read F (the (o_nit_conf s))) cf1)) (\<lambda>cf2.
       and_then (ok_or_exit (config_load_channels can below ck (fs_read F (the (o_channels_conf s))) cf2)) (\<lambda>cf3.
         case config_load_epg EE can below (fs_mtime F (the (o_epg_conf s))) (fs_read F (the (o_epg_conf s))) cf3 of
           None \<Rightarrow> Inl Undef
         | Some (_, cf4) \<Rightarrow> Inr (cf4, s, r, ob0, ob1)))))"

section \<open>The channels of a file\<close>

text \<open>A channel as the loader makes it from entry \<open>i\<close>: PIDs from its index, at least one source, all valid.\<close>

definition loaded :: "nat \<Rightarrow> 'e channel \<Rightarrow> bool" where
  "loaded i c \<longleftrightarrow>
     chan_ok c \<and> 0 < num_src c \<and> curr_src c = 0 \<and> service_id c \<noteq> 0 \<and> c_index c = int i \<and>
     c_base_pid c = int i * 32 \<and> c_pmt_pid c = int i * 32 \<and>
     (\<forall>k < num_src c. \<exists>u. sources c ! k = Some u \<and> is_valid_url u) \<and>
     epg_version c = 0 \<and> epg_now c = None \<and> epg_next c = None \<and> eit_now c = None \<and> eit_next c = None"

lemma chansrc_add_frame [frame_simps, simp]:
  "curr_src (chansrc_add c s) = curr_src c" "service_id (chansrc_add c s) = service_id c"
  "c_index (chansrc_add c s) = c_index c" "c_base_pid (chansrc_add c s) = c_base_pid c"
  "c_pmt_pid (chansrc_add c s) = c_pmt_pid c" "epg_version (chansrc_add c s) = epg_version c"
  "epg_now (chansrc_add c s) = epg_now c" "epg_next (chansrc_add c s) = epg_next c"
  "eit_now (chansrc_add c s) = eit_now c" "eit_next (chansrc_add c s) = eit_next c"
  "c_name (chansrc_add c s) = c_name c" "c_id (chansrc_add c s) = c_id c"
  by (simp_all add: chansrc_add_def Let_def)

lemma chansrc_add_sources:
  assumes "chan_ok c" and "k < num_src (chansrc_add c s)"
  shows "sources (chansrc_add c s) ! k = (if k < num_src c then sources c ! k else Some s)"
    and "num_src c \<le> num_src (chansrc_add c s)"
  using assms chan_okD(1,2) [OF assms(1)]
  by (auto simp: chansrc_add_def Let_def MAX_CHANNEL_SOURCES_def nth_list_update split: if_splits)

lemma chansrc_add_grows: "num_src c \<le> num_src (chansrc_add c s)"
  by (simp add: chansrc_add_def Let_def)

lemma chansrc_add_loaded [inv_intros]:
  assumes "loaded i c" and "is_valid_url u"
  shows "loaded i (chansrc_add c u)"
  using assms chansrc_add_ok [of c u] chansrc_add_sources(1) [of c _ u] chansrc_add_grows [of c u]
  unfolding loaded_def by (auto intro: less_le_trans)

lemma channel_new_gives:
  assumes "channel_new sid r i n em s ix l lv = Some c"
  shows "service_id c = sid" "c_index c = ix" "c_base_pid c = ix * 32" "c_pmt_pid c = ix * 32" "curr_src c = 0"
    "num_src c = 1" "sources c ! 0 = Some s" "source c = Some s" "c_name c = n" "c_id c = i" "0 < ix" "ix < 256"
    "epg_version c = 0" "epg_now c = None" "epg_next c = None" "eit_now c = None" "eit_next c = None"
  using assms by (auto simp: channel_new_def chansrc_add_def MAX_CHANNEL_SOURCES_def split: if_splits)

lemma channel_new_loaded [inv_intros]:
  assumes "channel_new sid r cid n em u (int i) l lv = Some c" and "sid \<noteq> 0" and "is_valid_url u"
  shows "loaded i c"
  using channel_new_gives [OF assms(1)] channel_new_ok [OF assms(1)] assms(2,3) by (simp add: loaded_def)

lemma add_sources_loaded:
  assumes "\<And>u c. new u = Some c \<Longrightarrow> is_valid_url u \<Longrightarrow> loaded i c \<and> c_name c = n \<and> c_id c = cid"
    and "\<And>c. x = Some c \<Longrightarrow> loaded i c \<and> c_name c = n \<and> c_id c = cid"
    and "fold (\<lambda>j. add_source new (src j)) js x = Some c"
  shows "loaded i c \<and> c_name c = n \<and> c_id c = cid"
  using assms(2,3)
proof (induction js arbitrary: x)
  case (Cons j js)
  have "loaded i c' \<and> c_name c' = n \<and> c_id c' = cid" if "add_source new (src j) x = Some c'" for c'
    using that assms(1) Cons.prems(1)
    by (auto simp: add_source_def chansrc_add_loaded split: option.splits if_splits)
  with Cons.IH [of "add_source new (src j) x"] Cons.prems(2) show ?case by simp
qed simp

lemma set_worktime_loaded:
  assumes "\<And>c. x = Some c \<Longrightarrow> loaded i c \<and> c_name c = n \<and> c_id c = cid" and "set_worktime w x = Some (Some c)"
  shows "loaded i c \<and> c_name c = n \<and> c_id c = cid"
proof (cases "x = Some c")
  case False
  then obtain c0 a b where "x = Some c0" "c = c0\<lparr> worktime_start := a, worktime_end := b \<rparr>"
    using assms(2) by (auto simp: set_worktime_def split: option.splits list.splits scan_field.splits)
  with assms(1) [of c0] show ?thesis by (simp add: loaded_def chan_ok_def)
qed (use assms(1) in simp)

lemma load_channel_loaded:
  assumes "load_channel d i = Some (Some c)"
  shows "loaded i c"
proof -
  obtain cid where cid: "str_at d (num_key ''Channel'' i '':id'') = Some cid"
    using assms unfolding load_channel_def
    by (cases "str_at d (num_key ''Channel'' i '':id'')") (auto simp: Option.bind_eq_Some_conv split: if_splits)
  obtain nm where nm: "str_at d (num_key ''Channel'' i '':name'') = Some nm"
    using assms unfolding load_channel_def cid
    by (cases "str_at d (num_key ''Channel'' i '':name'')") (auto simp: Option.bind_eq_Some_conv split: if_splits)
  obtain sid is_radio clcn vis eit where sid: "sid \<noteq> 0"
    and w: "set_worktime (str_at d (num_key ''Channel'' i '':worktime''))
        (fold (\<lambda>j. add_source (\<lambda>url. channel_new sid is_radio cid nm eit url (int i) clcn vis) (source_at d i j)) [1..<8] None)
      = Some (Some c)"
    using assms unfolding load_channel_def cid nm option.case
    by (auto simp: Option.bind_eq_Some_conv simp del: One_nat_def split: if_split_asm)
  have new: "loaded i ch \<and> c_name ch = nm \<and> c_id ch = cid"
    if "channel_new sid is_radio cid nm eit u (int i) clcn vis = Some ch" "is_valid_url u" for u ch
    using channel_new_loaded [OF that(1) sid that(2)] channel_new_gives(9,10) [OF that(1)] by simp
  have x: "loaded i ch \<and> c_name ch = nm \<and> c_id ch = cid"
    if "fold (\<lambda>j. add_source (\<lambda>url. channel_new sid is_radio cid nm eit url (int i) clcn vis) (source_at d i j)) [1..<8] None = Some ch" for ch
    by (rule add_sources_loaded [OF new _ that]) simp_all
  from set_worktime_loaded [OF x w] show ?thesis by simp
qed

lemma load_channel_list_loaded:
  "load_channel_list d ks = Some cs \<Longrightarrow> sorted_wrt (<) ks \<Longrightarrow>
   \<exists>js. set js \<subseteq> set ks \<and> sorted_wrt (<) js \<and> list_all2 loaded js cs"
proof (induction ks arbitrary: cs)
  case Nil
  then show ?case by auto
next
  case (Cons i ks)
  then obtain c cs' where c: "load_channel d i = Some c" and cs': "load_channel_list d ks = Some cs'"
    and cs: "cs = (case c of None \<Rightarrow> cs' | Some ch \<Rightarrow> ch # cs')"
    by (auto simp: Option.bind_eq_Some_conv)
  from Cons.IH [OF cs'] Cons.prems(2)
  obtain js where js: "set js \<subseteq> set ks" "sorted_wrt (<) js" "list_all2 loaded js cs'" by auto
  show ?case
  proof (cases c)
    case None
    with js cs show ?thesis by auto
  next
    case (Some ch)
    with load_channel_loaded c have "loaded i ch" by blast
    with js Some cs Cons.prems(2) show ?thesis by (intro exI [of _ "i # js"]) auto
  qed
qed

section \<open>The store under a change of channels\<close>

definition good :: "'e channel \<Rightarrow> bool" where
  "good c \<longleftrightarrow> chan_ok c \<and> 0 < num_src c \<and> 0 < c_index c \<and> c_index c < 256"

definition store_ok :: "'e chan_store \<Rightarrow> bool" where
  "store_ok h \<longleftrightarrow> (\<forall>c \<in> ran h. good c)"

lemma store_okD: "store_ok h \<Longrightarrow> h a = Some c \<Longrightarrow> good c"
  by (auto simp: store_ok_def intro: ranI)

lemma store_ok_upd [inv_intros]: "store_ok h \<Longrightarrow> good c \<Longrightarrow> store_ok (h(a \<mapsto> c))"
  by (auto simp: store_ok_def ran_def)

lemma loaded_good: "loaded i c \<Longrightarrow> 0 < i \<Longrightarrow> i < 256 \<Longrightarrow> good c"
  by (simp add: loaded_def good_def)

lemma good_source: "good c \<Longrightarrow> \<exists>s. source c = Some s"
proof -
  assume g: "good c"
  then have ok: "chan_ok c" and n: "0 < num_src c" by (auto simp: good_def)
  note D = chan_okD [OF ok]
  from D(2) D(3) [of "curr_src c"] D(4) [OF n] have "sources c ! curr_src c \<noteq> None" by linarith
  with D(5) [OF n] show ?thesis by auto
qed

lemma chansrc_set_good [inv_intros]: "good c \<Longrightarrow> good (chansrc_set c k)"
  by (simp add: good_def chansrc_set_ok chansrc_frame) (simp add: chansrc_set_def Let_def)

lemma chansrc_set_names [frame_simps, simp]:
  "c_name (chansrc_set c k) = c_name c" "c_id (chansrc_set c k) = c_id c" "c_index (chansrc_set c k) = c_index c"
  by (simp_all add: chansrc_set_def Let_def)

lemma alloc_channels_eq:
  "alloc_channels cs h b = (\<lambda>a. if b \<le> a \<and> a < b + length cs then Some (cs ! (a - b)) else h a)"
proof (induction cs arbitrary: h b)
  case (Cons c cs)
  show ?case
  proof
    fix a
    show "alloc_channels (c # cs) h b a = (if b \<le> a \<and> a < b + length (c # cs) then Some ((c # cs) ! (a - b)) else h a)"
      by (cases "a \<le> b") (auto simp: Cons.IH nth_Cons' Suc_diff_Suc[symmetric] not_le dest!: less_imp_Suc_add)
  qed
qed (auto simp: fun_eq_iff)

lemma free_channels_eq:
  "distinct as \<Longrightarrow> set as \<subseteq> dom h \<Longrightarrow> free_channels as h = Some (h |` (- set as))"
proof (induction as arbitrary: h)
  case Nil
  then show ?case by (simp add: restrict_map_def)
next
  case (Cons a as)
  then obtain c where c: "h a = Some c" by auto
  have "free_channels as (h(a := None)) = Some (h(a := None) |` (- set as))"
    by (rule Cons.IH) (use Cons.prems in auto)
  with c show ?case by (auto simp: restrict_map_def fun_eq_iff)
qed

text \<open>What the takeover does to one input: nothing, or it is claimed by a channel of its name.\<close>

definition claimed :: "int \<Rightarrow> nat set \<Rightarrow> string set \<Rightarrow> in_ref \<Rightarrow> in_ref \<Rightarrow> bool" where
  "claimed ck A N r r' \<longleftrightarrow>
     r' = r \<or>
     (in_name r \<in> N \<and> in_name r' = in_name r \<and> in_cookie r' = ck \<and> in_chan r' \<in> A \<and>
      in_freechannel r' = in_freechannel r \<and> in_dienow r' = in_dienow r)"

lemma claimed_refl [simp]: "claimed ck A N r r" by (simp add: claimed_def)

lemma claimed_all_refl [simp]: "list_all2 (claimed ck A N) rs rs" by (simp add: list_all2_same)

lemma claimed_mono: "claimed ck A N r r' \<Longrightarrow> A \<subseteq> B \<Longrightarrow> N \<subseteq> M \<Longrightarrow> claimed ck B M r r'"
  by (auto simp: claimed_def)

lemma claimed_trans:
  "claimed ck A N r r' \<Longrightarrow> claimed ck A N r' r'' \<Longrightarrow> claimed ck A N r r''"
  by (auto simp: claimed_def)

lemma claimed_all_trans:
  assumes "list_all2 (claimed ck A N) rs rs'" and "list_all2 (claimed ck B M) rs' rs''" "A \<subseteq> C" "B \<subseteq> C" "N \<subseteq> P" "M \<subseteq> P"
  shows "list_all2 (claimed ck C P) rs rs''"
proof (rule list_all2_trans)
  show "list_all2 (claimed ck C P) rs rs'" "list_all2 (claimed ck C P) rs' rs''"
    using assms by (auto elim!: list_all2_mono intro: claimed_mono)
qed (rule claimed_trans)

lemma take_over_frame:
  assumes "take_over ck a c old r = (c', r')"
  shows "claimed ck {a} {in_name r} r r'" and "good c \<Longrightarrow> good c'" and "c_name c' = c_name c"
  using assms by (auto simp: take_over_def claimed_def Let_def chansrc_set_good split: if_splits)

lemma take_over_cookie: "take_over ck a c old r = (c', r') \<Longrightarrow> in_cookie r' = ck \<and> in_chan r' = a"
  by (auto simp: take_over_def Let_def split: if_splits)

lemma claimed_dom: "list_all2 (claimed ck A N) rs rs' \<Longrightarrow> in_chan ` set rs \<subseteq> D \<Longrightarrow> A \<subseteq> D \<Longrightarrow> in_chan ` set rs' \<subseteq> D"
  by (induction rule: list_all2_induct) (auto simp: claimed_def)

text \<open>The takeover never fails on a good store, frees nothing and renames nothing.\<close>

definition name_at :: "'e chan_store \<Rightarrow> nat \<Rightarrow> string option" where
  "name_at h a = map_option c_name (h a)"

lemma name_at_upd: "name_at h a = Some (c_name c) \<Longrightarrow> name_at (h(a \<mapsto> c)) = name_at h"
  by (auto simp: name_at_def fun_eq_iff)

lemma rewrite_input_total:
  assumes "store_ok h" and "a \<in> dom h" and "good c" and "in_chan ` set rs \<subseteq> dom h"
    and "name_at h a = Some (c_name c)"
  shows "\<exists>h' rs'. rewrite_input ck a c h rs = Some (h', rs') \<and> store_ok h' \<and> dom h' = dom h \<and>
    name_at h' = name_at h \<and> list_all2 (claimed ck {a} {c_name c}) rs rs'"
  using assms(4)
proof (induction rs)
  case Nil
  then show ?case using assms by simp
next
  case (Cons r rs)
  show ?case
  proof (cases "c_name c = in_name r")
    case False
    with Cons show ?thesis by auto
  next
    case True
    from Cons.prems obtain oc where oc: "h (in_chan r) = Some oc" by auto
    with store_okD [OF assms(1)] good_source obtain old where old: "source oc = Some old" by blast
    obtain c' r' where t: "take_over ck a c old r = (c', r')" by fastforce
    note F = take_over_frame [OF t]
    have "name_at (h(a \<mapsto> c')) = name_at h" using assms(5) F(3) by (intro name_at_upd) simp
    then show ?thesis
      using True oc old t F assms(1,2) store_ok_upd [OF assms(1) F(2) [OF assms(3)], of a] by auto
  qed
qed

definition names_at :: "'e chan_store \<Rightarrow> nat set \<Rightarrow> string set" where
  "names_at h A = {n. \<exists>a \<in> A. name_at h a = Some n}"

lemma rewrite_inputs_total:
  assumes "store_ok h" and "set as \<subseteq> dom h" and "in_chan ` set rs \<subseteq> dom h"
  shows "\<exists>h' rs'. rewrite_inputs ck as h rs = Some (h', rs') \<and> store_ok h' \<and> dom h' = dom h \<and>
    name_at h' = name_at h \<and> list_all2 (claimed ck (set as) (names_at h (set as))) rs rs'"
  using assms
proof (induction as arbitrary: h rs)
  case Nil
  then show ?case by simp
next
  case (Cons a as)
  then obtain c where c: "h a = Some c" by auto
  obtain h1 rs1 where 1: "rewrite_input ck a c h rs = Some (h1, rs1)" "store_ok h1" "dom h1 = dom h"
    "name_at h1 = name_at h" "list_all2 (claimed ck {a} {c_name c}) rs rs1"
    using rewrite_input_total [OF Cons.prems(1), of a c rs ck] c Cons.prems store_okD [OF Cons.prems(1) c]
    by (auto simp: name_at_def)
  have "in_chan ` set rs1 \<subseteq> dom h1" using claimed_dom [OF 1(5), of "dom h1"] Cons.prems 1(3) by auto
  with Cons.IH [OF 1(2), of rs1] Cons.prems(2) 1(3) obtain h2 rs2 where
    2: "rewrite_inputs ck as h1 rs1 = Some (h2, rs2)" "store_ok h2" "dom h2 = dom h"
    "name_at h2 = name_at h1"
    "list_all2 (claimed ck (set as) (names_at h1 (set as))) rs1 rs2" by auto
  have "{c_name c} \<subseteq> names_at h (set (a # as))" "names_at h1 (set as) \<subseteq> names_at h (set (a # as))"
    using c 1(4) by (auto simp: names_at_def) (simp add: name_at_def)
  from claimed_all_trans [OF 1(5) 2(5) _ _ this] 1 2 c show ?case by auto
qed

text \<open>The inputs that are told to stop get their own copies at fresh addresses, one each.\<close>

definition dismissed :: "int \<Rightarrow> in_ref \<Rightarrow> in_ref \<Rightarrow> bool" where
  "dismissed ck r r' \<longleftrightarrow>
     (if in_cookie r \<noteq> ck then r' = r\<lparr> in_chan := in_chan r', in_freechannel := True, in_dienow := True \<rparr> else r' = r)"

lemma kill_inputs_total:
  fixes h :: "'e chan_store"
  assumes "store_ok h" and "in_chan ` set rs \<subseteq> dom h" and "\<forall>x \<ge> b. h x = None"
  shows "\<exists>h' b' rs'. kill_inputs ck rs h b = Some (h', b', rs') \<and> b \<le> b' \<and> store_ok h' \<and>
    dom h' = dom h \<union> {b..<b'} \<and> (\<forall>x < b. h' x = h x) \<and> list_all2 (dismissed ck) rs rs' \<and>
    map in_chan (filter (\<lambda>r. in_cookie r \<noteq> ck) rs') = [b..<b']"
  using assms
proof (induction rs arbitrary: h b)
  case Nil
  then show ?case by simp
next
  case (Cons r rs)
  show ?case
  proof (cases "in_cookie r = ck")
    case True
    from Cons.IH [OF Cons.prems(1) _ Cons.prems(3)] Cons.prems(2) obtain h' b' rs' where
      "kill_inputs ck rs h b = Some (h', b', rs')" "b \<le> b'" "store_ok h'" "dom h' = dom h \<union> {b..<b'}"
      "\<forall>x < b. h' x = h x" "list_all2 (dismissed ck) rs rs'"
      "map in_chan (filter (\<lambda>r. in_cookie r \<noteq> ck) rs') = [b..<b']" by auto
    moreover have "dismissed ck r r" using True by (simp add: dismissed_def)
    ultimately show ?thesis using True by auto
  next
    case False
    from Cons.prems(2) obtain c where c: "h (in_chan r) = Some c" by auto
    have g: "good c" using store_okD [OF Cons.prems(1) c] .
    then obtain src where src: "source c = Some src" using good_source by blast
    have "0 < c_index c" "c_index c < 256" using g by (auto simp: good_def)
    then obtain copy :: "'e channel" where copy: "channel_new (service_id c) (radio c) (c_id c) (c_name c) (eit_mode c) src
        (c_index c) (lcn c) (lcn_visible c) = Some copy"
      by (simp add: channel_new_def)
    have gc: "good copy"
      using channel_new_ok [OF copy] channel_new_gives [OF copy] by (simp add: good_def)
    have n: "\<forall>x \<ge> b + 1. (h(b \<mapsto> copy)) x = None" using Cons.prems(3) by simp
    have i: "in_chan ` set rs \<subseteq> dom (h(b \<mapsto> copy))" using Cons.prems(2) by auto
    obtain h' b' rs' where IH: "kill_inputs ck rs (h(b \<mapsto> copy)) (b + 1) = Some (h', b', rs')" "b + 1 \<le> b'" "store_ok h'"
      "dom h' = dom (h(b \<mapsto> copy)) \<union> {b + 1..<b'}" "\<forall>x < b + 1. h' x = (h(b \<mapsto> copy)) x"
      "list_all2 (dismissed ck) rs rs'" "map in_chan (filter (\<lambda>r. in_cookie r \<noteq> ck) rs') = [b + 1..<b']"
      using Cons.IH [OF store_ok_upd [OF Cons.prems(1) gc] i n] by blast
    have "{b..<b'} = insert b {b + 1..<b'}" "[b..<b'] = b # [b + 1..<b']"
      using IH(2) by (auto simp: upt_conv_Cons)
    moreover have "dismissed ck r (r\<lparr> in_chan := b, in_freechannel := True, in_dienow := True \<rparr>)"
      using False by (simp add: dismissed_def)
    ultimately show ?thesis using IH False c src copy by auto
  qed
qed


section \<open>Who owns which channel object\<close>

text \<open>
  No pointer dangles, and every object has one owner: the channel list owns its channels,
  an input with \<open>freechannel\<close> owns its channel, the others point into the list.
\<close>

definition conf_ok :: "'e config \<Rightarrow> bool" where
  "conf_ok cf \<longleftrightarrow>
     store_ok (cf_store cf) \<and> (\<forall>a \<ge> cf_brk cf. cf_store cf a = None) \<and>
     distinct (cf_channels cf) \<and> set (cf_channels cf) \<subseteq> dom (cf_store cf) \<and>
     in_chan ` set (cf_inputs cf) \<subseteq> dom (cf_store cf) \<and>
     (\<forall>r \<in> set (cf_inputs cf). in_freechannel r \<longleftrightarrow> in_chan r \<notin> set (cf_channels cf)) \<and>
     distinct (map in_chan (filter in_freechannel (cf_inputs cf)))"

lemma config_alloc_ok [inv_intros]: "conf_ok config_alloc"
  by (simp add: conf_ok_def config_alloc_def store_ok_def)

text \<open>What one input is after the switch.\<close>

definition switched :: "int \<Rightarrow> nat set \<Rightarrow> string set \<Rightarrow> in_ref \<Rightarrow> in_ref \<Rightarrow> bool" where
  "switched ck A N r r' \<longleftrightarrow>
     in_name r' = in_name r \<and>
     (if in_cookie r' = ck
      then in_name r \<in> N \<and> in_chan r' \<in> A \<and> in_freechannel r' = in_freechannel r \<and> in_dienow r' = in_dienow r
      else in_freechannel r' \<and> in_dienow r')"

lemma claimed_dismissed:
  assumes "claimed ck A N r r1" and "dismissed ck r1 r2" and "in_cookie r \<noteq> ck"
  shows "switched ck A N r r2"
proof (cases "in_cookie r1 = ck")
  case False
  then have r: "r1 = r" using assms(1) by (auto simp: claimed_def)
  obtain a where "r2 = r\<lparr> in_chan := a, in_freechannel := True, in_dienow := True \<rparr>"
    using assms(2,3) unfolding r dismissed_def by meson
  then show ?thesis using assms(3) by (simp add: switched_def)
qed (use assms in \<open>auto simp: claimed_def dismissed_def switched_def\<close>)

lemma switch_all:
  assumes "list_all2 (claimed ck A N) rs rs1" and "list_all2 (dismissed ck) rs1 rs2" and "\<forall>r \<in> set rs. in_cookie r \<noteq> ck"
  shows "list_all2 (switched ck A N) rs rs2"
  using assms by (auto simp: list_all2_conv_all_nth intro!: claimed_dismissed)

lemma list_all2_origin: "list_all2 P xs ys \<Longrightarrow> y \<in> set ys \<Longrightarrow> \<exists>x \<in> set xs. P x y"
  by (induction rule: list_all2_induct) auto

lemma filter_same: "(\<And>x. x \<in> set xs \<Longrightarrow> P x = Q x) \<Longrightarrow> filter P xs = filter Q xs"
  by (induction xs) auto

text \<open>The new objects, at fresh addresses, and the store with them.\<close>

definition new_addrs :: "'e config \<Rightarrow> 'e channel list \<Rightarrow> nat list" where
  "new_addrs cf cs = [cf_brk cf..<cf_brk cf + length cs]"

definition new_store :: "'e config \<Rightarrow> 'e channel list \<Rightarrow> 'e chan_store" where
  "new_store cf cs = alloc_channels cs (cf_store cf) (cf_brk cf)"

lemma new_store_at:
  "new_store cf cs a = (if a \<in> set (new_addrs cf cs) then Some (cs ! (a - cf_brk cf)) else cf_store cf a)"
  by (auto simp: new_store_def alloc_channels_eq new_addrs_def)

lemma conf_okD:
  assumes "conf_ok cf"
  shows "store_ok (cf_store cf)" "a \<in> dom (cf_store cf) \<Longrightarrow> a < cf_brk cf" "distinct (cf_channels cf)"
    "set (cf_channels cf) \<subseteq> dom (cf_store cf)" "in_chan ` set (cf_inputs cf) \<subseteq> dom (cf_store cf)"
    "r \<in> set (cf_inputs cf) \<Longrightarrow> in_freechannel r \<longleftrightarrow> in_chan r \<notin> set (cf_channels cf)"
    "distinct (map in_chan (filter in_freechannel (cf_inputs cf)))"
proof -
  show "a < cf_brk cf" if "a \<in> dom (cf_store cf)" for a
  proof (rule ccontr)
    assume "\<not> a < cf_brk cf"
    then have "cf_store cf a = None" using assms by (simp add: conf_ok_def)
    with that show False by auto
  qed
qed (use assms in \<open>auto simp: conf_ok_def\<close>)

lemma new_store_facts:
  assumes "conf_ok cf" and "\<forall>c \<in> set cs. good c"
  shows "dom (new_store cf cs) = dom (cf_store cf) \<union> set (new_addrs cf cs)" and "store_ok (new_store cf cs)"
    and "names_at (new_store cf cs) (set (new_addrs cf cs)) = c_name ` set cs"
    and "in_chan ` set (cf_inputs cf) \<subseteq> dom (new_store cf cs)"
    and "r \<in> set (cf_inputs cf) \<Longrightarrow> in_chan r \<notin> set (new_addrs cf cs)"
    and "x \<ge> cf_brk cf + length cs \<Longrightarrow> new_store cf cs x = None"
    and "distinct (new_addrs cf cs)" and "a \<in> set (cf_channels cf) \<Longrightarrow> a < cf_brk cf"
proof -
  note C = conf_okD [OF assms(1)]
  show d: "dom (new_store cf cs) = dom (cf_store cf) \<union> set (new_addrs cf cs)"
    by (auto simp: new_store_at split: if_splits)
  show "store_ok (new_store cf cs)"
    using C(1) assms(2) by (auto simp: store_ok_def ran_def new_store_at new_addrs_def split: if_splits)
  have "names_at (new_store cf cs) (set (new_addrs cf cs)) = (\<lambda>a. c_name (cs ! (a - cf_brk cf))) ` set (new_addrs cf cs)"
    by (auto simp: names_at_def name_at_def new_store_at)
  also have "\<dots> = c_name ` set cs" by (force simp: new_addrs_def set_conv_nth image_iff)
  finally show "names_at (new_store cf cs) (set (new_addrs cf cs)) = c_name ` set cs" .
  show "in_chan ` set (cf_inputs cf) \<subseteq> dom (new_store cf cs)" using C(5) d by auto
  show "in_chan r \<notin> set (new_addrs cf cs)" if "r \<in> set (cf_inputs cf)" for r
  proof -
    have "in_chan r < cf_brk cf" using C(2) C(5) that by blast
    then show ?thesis by (simp add: new_addrs_def)
  qed
  show "new_store cf cs x = None" if "x \<ge> cf_brk cf + length cs" for x
  proof -
    have "x \<notin> dom (new_store cf cs)" unfolding d using C(2) [of x] that by (auto simp: new_addrs_def)
    then show ?thesis by blast
  qed
  show "distinct (new_addrs cf cs)" by (simp add: new_addrs_def)
  show "a < cf_brk cf" if "a \<in> set (cf_channels cf)" for a using C(2,4) that by blast
qed

text \<open>The three phases succeed.\<close>

lemma switch_phases:
  assumes "conf_ok cf" and "\<forall>c \<in> set cs. good c"
  shows "\<exists>h1 rs1 h2 b2 rs2.
    rewrite_inputs ck (new_addrs cf cs) (new_store cf cs) (cf_inputs cf) = Some (h1, rs1) \<and>
    list_all2 (claimed ck (set (new_addrs cf cs)) (c_name ` set cs)) (cf_inputs cf) rs1 \<and>
    store_ok h2 \<and> cf_brk cf + length cs \<le> b2 \<and> (\<forall>x < cf_brk cf + length cs. h2 x = h1 x) \<and>
    dom h2 = dom (cf_store cf) \<union> set (new_addrs cf cs) \<union> {cf_brk cf + length cs..<b2} \<and>
    list_all2 (dismissed ck) rs1 rs2 \<and>
    map in_chan (filter (\<lambda>r. in_cookie r \<noteq> ck) rs2) = [cf_brk cf + length cs..<b2] \<and>
    switch_channels ck cs cf = Some (cf\<lparr> cf_channels := new_addrs cf cs, cf_inputs := rs2,
      cf_store := h2 |` (- set (cf_channels cf)), cf_brk := b2 \<rparr>)"
proof -
  let ?A = "new_addrs cf cs" and ?h = "new_store cf cs" and ?b = "cf_brk cf + length cs"
  note N = new_store_facts [OF assms]
  have "set ?A \<subseteq> dom ?h" using N(1) by blast
  from rewrite_inputs_total [OF N(2) this N(4), of ck, unfolded N(3)] obtain h1 rs1
    where 1: "rewrite_inputs ck ?A ?h (cf_inputs cf) = Some (h1, rs1)" "store_ok h1" "dom h1 = dom ?h"
      "list_all2 (claimed ck (set ?A) (c_name ` set cs)) (cf_inputs cf) rs1" by blast
  have p1: "in_chan ` set rs1 \<subseteq> dom h1" using claimed_dom [OF 1(4) N(4)] 1(3) N(1) by blast
  have f1: "\<forall>x \<ge> ?b. h1 x = None" using 1(3) N(6) by (metis domIff)
  from kill_inputs_total [OF 1(2) p1 f1, of ck] obtain h2 b2 rs2
    where 2: "kill_inputs ck rs1 h1 ?b = Some (h2, b2, rs2)" "?b \<le> b2" "store_ok h2" "dom h2 = dom h1 \<union> {?b..<b2}"
      "\<forall>x < ?b. h2 x = h1 x" "list_all2 (dismissed ck) rs1 rs2"
      "map in_chan (filter (\<lambda>r. in_cookie r \<noteq> ck) rs2) = [?b..<b2]" by blast
  have D: "dom h2 = dom (cf_store cf) \<union> set ?A \<union> {?b..<b2}" using 2(4) 1(3) N(1) by simp
  have "set (cf_channels cf) \<subseteq> dom h2" using conf_okD(4) [OF assms(1)] D by blast
  from free_channels_eq [OF conf_okD(3) [OF assms(1)] this]
  have "switch_channels ck cs cf = Some (cf\<lparr> cf_channels := ?A, cf_inputs := rs2,
      cf_store := h2 |` (- set (cf_channels cf)), cf_brk := b2 \<rparr>)"
    using 1(1) 2(1) by (simp add: switch_channels_def Let_def new_addrs_def new_store_def)
  with 1 2 D show ?thesis by blast
qed

lemma switch_channels_total:
  assumes "conf_ok cf" and "\<forall>c \<in> set cs. good c" and "\<forall>r \<in> set (cf_inputs cf). in_cookie r \<noteq> ck"
    and "\<forall>r \<in> set (cf_inputs cf). in_freechannel r \<longrightarrow> in_name r \<notin> c_name ` set cs"
  shows "\<exists>cf'. switch_channels ck cs cf = Some cf' \<and> conf_ok cf' \<and> cf_channels cf' = new_addrs cf cs \<and>
    list_all2 (switched ck (set (cf_channels cf')) (c_name ` set cs)) (cf_inputs cf) (cf_inputs cf') \<and>
    dom (cf_store cf') = (dom (cf_store cf) - set (cf_channels cf)) \<union> set (cf_channels cf') \<union>
      in_chan ` {r \<in> set (cf_inputs cf'). in_freechannel r}"
proof -
  let ?A = "new_addrs cf cs" and ?b = "cf_brk cf + length cs"
  note N = new_store_facts [OF assms(1,2)] and C = conf_okD [OF assms(1)]
  from switch_phases [OF assms(1,2), of ck] obtain rs1 h2 b2 rs2 where
    1: "list_all2 (claimed ck (set ?A) (c_name ` set cs)) (cf_inputs cf) rs1" and
    2: "store_ok h2" "?b \<le> b2" "dom h2 = dom (cf_store cf) \<union> set ?A \<union> {?b..<b2}" "list_all2 (dismissed ck) rs1 rs2"
      "map in_chan (filter (\<lambda>r. in_cookie r \<noteq> ck) rs2) = [?b..<b2]" and
    sw: "switch_channels ck cs cf = Some (cf\<lparr> cf_channels := ?A, cf_inputs := rs2,
      cf_store := h2 |` (- set (cf_channels cf)), cf_brk := b2 \<rparr>)" by blast
  define h3 where "h3 = h2 |` (- set (cf_channels cf))"
  have S: "list_all2 (switched ck (set ?A) (c_name ` set cs)) (cf_inputs cf) rs2"
    using switch_all [OF 1 2(4) assms(3)] .
  have free: "in_freechannel r' \<longleftrightarrow> in_cookie r' \<noteq> ck" if "r' \<in> set rs2" for r'
    using list_all2_origin [OF S that] assms(4) by (auto simp: switched_def split: if_splits)
  have cl: "in_chan r' \<in> set ?A" if "r' \<in> set rs2" "in_cookie r' = ck" for r'
    using list_all2_origin [OF S that(1)] that(2) by (auto simp: switched_def)
  have priv: "map in_chan (filter in_freechannel rs2) = [?b..<b2]"
    using 2(5) filter_same [of rs2 in_freechannel "\<lambda>r. in_cookie r \<noteq> ck"] free by simp
  then have privs: "in_chan ` {r \<in> set rs2. in_freechannel r} = {?b..<b2}" by (metis set_filter set_map set_upt)
  have D: "dom h3 = (dom (cf_store cf) - set (cf_channels cf)) \<union> set ?A \<union> {?b..<b2}"
  proof -
    have "a \<notin> set (cf_channels cf)" if "a \<in> set ?A \<union> {?b..<b2}" for a using that N(8) [of a] by (auto simp: new_addrs_def)
    then show ?thesis using 2(3) by (auto simp: h3_def)
  qed
  have "store_ok h3" using 2(1) by (auto simp: store_ok_def ran_def h3_def restrict_map_def split: if_splits)
  moreover have "\<forall>a \<ge> b2. h3 a = None"
  proof (intro allI impI)
    fix a assume "b2 \<le> a"
    then have "a \<notin> dom h3" unfolding D using 2(2) C(2) [of a] by (auto simp: new_addrs_def)
    then show "h3 a = None" by blast
  qed
  moreover have "distinct ?A" "set ?A \<subseteq> dom h3" using D N(7) by auto
  moreover have "in_chan ` set rs2 \<subseteq> dom h3" using D cl free privs by blast
  moreover have "\<forall>r \<in> set rs2. in_freechannel r \<longleftrightarrow> in_chan r \<notin> set ?A"
  proof
    fix r assume r: "r \<in> set rs2"
    have "in_chan r \<in> {?b..<b2}" if "in_freechannel r" using that r unfolding privs [symmetric] by blast
    then have "in_chan r \<notin> set ?A" if "in_freechannel r" using that by (auto simp: new_addrs_def)
    then show "in_freechannel r \<longleftrightarrow> in_chan r \<notin> set ?A" using free [OF r] cl [OF r] by blast
  qed
  moreover have "distinct (map in_chan (filter in_freechannel rs2))" using priv by simp
  ultimately have "conf_ok (cf\<lparr> cf_channels := ?A, cf_inputs := rs2, cf_store := h3, cf_brk := b2 \<rparr>)"
    by (simp add: conf_ok_def)
  with sw S D privs show ?thesis by (simp add: h3_def)
qed

section \<open>Which source an input keeps\<close>

text \<open>Input \<open>r\<close> is taken over at address \<open>a\<close>: store and input before and after.\<close>

definition takes :: "int \<Rightarrow> nat \<Rightarrow> 'e chan_store \<Rightarrow> in_ref \<Rightarrow> 'e chan_store \<Rightarrow> in_ref \<Rightarrow> bool" where
  "takes ck a h r h' r' \<longleftrightarrow>
     (\<exists>c old c'. h a = Some c \<and> Option.bind (h (in_chan r)) source = Some old \<and>
        take_over ck a c old r = (c', r') \<and> h' a = Some c')"

lemma rewrite_input_exact:
  assumes "rewrite_input ck a c h rs = Some (h', rs')" and "h a = Some c" and "distinct (map in_name rs)"
  shows "(\<forall>x. x \<noteq> a \<longrightarrow> h' x = h x) \<and> map in_name rs' = map in_name rs \<and>
    (\<forall>i < length rs. if in_name (rs ! i) = c_name c then takes ck a h (rs ! i) h' (rs' ! i) else rs' ! i = rs ! i) \<and>
    (\<forall>i < length rs. in_chan (rs' ! i) \<in> {a, in_chan (rs ! i)})"
  using assms(1,3)
proof (induction rs arbitrary: h' rs')
  case Nil
  then show ?case by simp
next
  case (Cons r rs)
  show ?case
  proof (cases "c_name c = in_name r")
    case True
    then obtain oc old where o: "h (in_chan r) = Some oc" "source oc = Some old"
      using Cons.prems(1) by (auto simp: Option.bind_eq_Some_conv)
    obtain c' r' where t: "take_over ck a c old r = (c', r')" by fastforce
    with o True Cons.prems(1) have s: "h (in_chan r) = Some oc" "source oc = Some old" "take_over ck a c old r = (c', r')"
      "h' = h(a \<mapsto> c')" "rs' = r' # rs" by auto
    have "takes ck a h r h' r'" using s assms(2) by (auto simp: takes_def)
    moreover have "in_name r' = in_name r" "in_chan r' = a" using s(3) by (auto simp: take_over_def Let_def split: if_splits)
    moreover have "in_name (rs ! i) \<noteq> c_name c" if "i < length rs" for i
      using Cons.prems(2) True nth_mem [OF that] by (auto simp: image_iff)
    ultimately show ?thesis using s(4,5) True by (auto simp: nth_Cons')
  next
    case False
    then obtain rs'' where s: "rewrite_input ck a c h rs = Some (h', rs'')" "rs' = r # rs''"
      using Cons.prems(1) by (auto simp: Option.bind_eq_Some_conv)
    from Cons.IH [OF s(1)] Cons.prems(2) s(2) False show ?thesis by (auto simp: nth_Cons')
  qed
qed

lemma takes_cong:
  assumes "takes ck a h r h1 r'" and "h1 a = h' a" and "h a = h0 a" and "h (in_chan r) = h0 (in_chan r)"
  shows "takes ck a h0 r h' r'"
  using assms by (auto simp: takes_def)

lemma takes_name: "takes ck a h r h' r' \<Longrightarrow> name_at h' a = name_at h a \<and> in_name r' = in_name r"
  by (auto simp: takes_def take_over_def name_at_def Let_def split: if_splits)

text \<open>The first channel, and what stays true for the rest.\<close>

lemma rewrite_inputs_ConsE:
  fixes h :: "'e chan_store"
  assumes "rewrite_inputs ck (a # as) h rs = Some (h', rs')" and "distinct (a # as)" and "distinct (map (name_at h) (a # as))"
    and "distinct (map in_name rs)" and "\<forall>r \<in> set rs. in_chan r \<notin> set (a # as)"
  obtains c :: "'e channel" and h1 rs1 where "name_at h a = Some (c_name c)" "rewrite_inputs ck as h1 rs1 = Some (h', rs')"
    "\<forall>x. x \<noteq> a \<longrightarrow> h1 x = h x" "map in_name rs1 = map in_name rs" "distinct (map (name_at h1) as)"
    "\<forall>i < length rs. if in_name (rs ! i) = c_name c then takes ck a h (rs ! i) h1 (rs1 ! i) else rs1 ! i = rs ! i"
    "\<forall>r \<in> set rs1. in_chan r \<notin> set as" "\<forall>b \<in> set as. name_at h1 b = name_at h b \<and> name_at h b \<noteq> Some (c_name c)"
proof -
  obtain c h1 rs1 where c: "h a = Some c" and 1: "rewrite_input ck a c h rs = Some (h1, rs1)"
    and 2: "rewrite_inputs ck as h1 rs1 = Some (h', rs')" using assms(1) by (auto simp: Option.bind_eq_Some_conv)
  have na: "name_at h a = Some (c_name c)" using c by (simp add: name_at_def)
  from rewrite_input_exact [OF 1 c assms(4)]
  have E1: "\<And>x. x \<noteq> a \<Longrightarrow> h1 x = h x" "map in_name rs1 = map in_name rs"
    "\<And>i. i < length rs \<Longrightarrow> if in_name (rs ! i) = c_name c then takes ck a h (rs ! i) h1 (rs1 ! i) else rs1 ! i = rs ! i"
    "\<And>i. i < length rs \<Longrightarrow> in_chan (rs1 ! i) \<in> {a, in_chan (rs ! i)}" by blast+
  have len: "length rs1 = length rs" using E1(2) map_eq_imp_length_eq by blast
  have nas: "name_at h1 b = name_at h b" if "b \<in> set as" for b
  proof -
    have "b \<noteq> a" using that assms(2) by auto
    then show ?thesis using E1(1) by (simp add: name_at_def)
  qed
  then have "map (name_at h1) as = map (name_at h) as" by (rule map_cong [OF refl])
  then have d: "distinct (map (name_at h1) as)" using assms(3) by (simp only: list.map distinct.simps)
  have "name_at h b \<noteq> Some (c_name c)" if "b \<in> set as" for b using assms(3) na that by force
  moreover have "\<forall>r \<in> set rs1. in_chan r \<notin> set as"
    using E1(4) assms(2,5) len by (fastforce simp: in_set_conv_nth)
  ultimately show ?thesis
    by (intro that [of c h1 rs1]) (use na 2 E1(1-3) d nas in \<open>blast+\<close>)
qed

lemma rewrite_inputs_exact:
  fixes h :: "'e chan_store"
  assumes "rewrite_inputs ck as h rs = Some (h', rs')" and "distinct as" and "distinct (map (name_at h) as)"
    and "distinct (map in_name rs)" and "\<forall>r \<in> set rs. in_chan r \<notin> set as"
  shows "(\<forall>x. x \<notin> set as \<longrightarrow> h' x = h x) \<and> map in_name rs' = map in_name rs \<and>
    (\<forall>i < length rs. (\<forall>a \<in> set as. name_at h a = Some (in_name (rs ! i)) \<longrightarrow> takes ck a h (rs ! i) h' (rs' ! i)) \<and>
       (Some (in_name (rs ! i)) \<notin> name_at h ` set as \<longrightarrow> rs' ! i = rs ! i))"
  using assms
proof (induction as arbitrary: h rs)
  case Nil
  then show ?case by simp
next
  case (Cons a as)
  obtain c :: "'e channel" and h1 rs1 where na: "name_at h a = Some (c_name c)" and 2: "rewrite_inputs ck as h1 rs1 = Some (h', rs')"
    and E1': "\<forall>x. x \<noteq> a \<longrightarrow> h1 x = h x" "map in_name rs1 = map in_name rs" "distinct (map (name_at h1) as)"
      "\<forall>i < length rs. if in_name (rs ! i) = c_name c then takes ck a h (rs ! i) h1 (rs1 ! i) else rs1 ! i = rs ! i"
      "\<forall>r \<in> set rs1. in_chan r \<notin> set as"
    and nas': "\<forall>b \<in> set as. name_at h1 b = name_at h b \<and> name_at h b \<noteq> Some (c_name c)"
    by (rule rewrite_inputs_ConsE [OF Cons.prems])
  note E1 = E1' [rule_format] and nas = nas' [rule_format]
  have len: "length rs1 = length rs" using E1(2) map_eq_imp_length_eq by blast
  have d1: "distinct (map in_name rs1)" unfolding E1(2) by (rule Cons.prems(4))
  from Cons.IH [OF 2 _ E1(3) d1 E1'(5)] Cons.prems(2)
  have E2: "\<And>x. x \<notin> set as \<Longrightarrow> h' x = h1 x" "map in_name rs' = map in_name rs1"
    "\<And>i b. i < length rs \<Longrightarrow> b \<in> set as \<Longrightarrow> name_at h1 b = Some (in_name (rs1 ! i)) \<Longrightarrow> takes ck b h1 (rs1 ! i) h' (rs' ! i)"
    "\<And>i. i < length rs \<Longrightarrow> Some (in_name (rs1 ! i)) \<notin> name_at h1 ` set as \<Longrightarrow> rs' ! i = rs1 ! i"
    by (auto simp: len)
  have nm: "in_name (rs1 ! i) = in_name (rs ! i)" if "i < length rs" for i using E1(2) that len by (metis nth_map)
  have "takes ck b h (rs ! i) h' (rs' ! i)" if i: "i < length rs" and b: "b \<in> set (a # as)" "name_at h b = Some (in_name (rs ! i))" for i b
  proof (cases "b = a")
    case True
    then have m: "in_name (rs ! i) = c_name c" using b(2) na by simp
    then have "takes ck a h (rs ! i) h1 (rs1 ! i)" using E1(4) [OF i] by simp
    moreover have "rs' ! i = rs1 ! i" using E2(4) [OF i] nas by (fastforce simp: nm [OF i] m)
    moreover have "h' a = h1 a" using E2(1) Cons.prems(2) by simp
    ultimately show ?thesis using takes_cong [of ck a h "rs ! i" h1 "rs1 ! i" h' h] True by simp
  next
    case False
    then have ba: "b \<in> set as" using b by simp
    then have "in_name (rs ! i) \<noteq> c_name c" using nas [OF ba] b(2) by auto
    then have eq: "rs1 ! i = rs ! i" using E1(4) [OF i] by simp
    have "takes ck b h1 (rs ! i) h' (rs' ! i)" using E2(3) [OF i ba] nas [OF ba] b(2) eq by simp
    moreover have "in_chan (rs ! i) \<noteq> a" using Cons.prems(5) i by auto
    ultimately show ?thesis using takes_cong [of ck b h1 "rs ! i" h' "rs' ! i" h' h] False E1(1) by simp
  qed
  moreover have "rs' ! i = rs ! i" if i: "i < length rs" and n: "Some (in_name (rs ! i)) \<notin> name_at h ` set (a # as)" for i
  proof -
    have eq: "rs1 ! i = rs ! i" using E1(4) [OF i] n na by auto
    have "Some (in_name (rs1 ! i)) \<notin> name_at h1 ` set as" using n nas eq by (auto simp: image_iff)
    from E2(4) [OF i this] eq show ?thesis by simp
  qed
  moreover have "h' x = h x" if "x \<notin> set (a # as)" for x using E1(1) E2(1) that by simp
  moreover have "map in_name rs' = map in_name rs" using E1(2) E2(2) by simp
  ultimately show ?case by blast
qed

text \<open>The search finds the source's last index, or nothing.\<close>

lemma find_source_spec:
  "find_source c old = (if \<exists>k < num_src c. sources c ! k = Some old
     then int (Max {k. k < num_src c \<and> sources c ! k = Some old}) else - 1)"
proof -
  have "fold (\<lambda>i found. if sources c ! i = Some old then int i else found) [0..<n] (- 1) =
      (if \<exists>k < n. sources c ! k = Some old then int (Max {k. k < n \<and> sources c ! k = Some old}) else - 1)" for n
  proof (induction n)
    case (Suc n)
    show ?case
    proof (cases "sources c ! n = Some old")
      case True
      then have "Max {k. k < Suc n \<and> sources c ! k = Some old} = n" by (intro Max_eqI) auto
      with True show ?thesis by auto
    next
      case False
      then have "{k. k < Suc n \<and> sources c ! k = Some old} = {k. k < n \<and> sources c ! k = Some old}"
        by (auto simp: less_Suc_eq)
      with False Suc show ?thesis by (auto simp: less_Suc_eq)
    qed
  qed simp
  then show ?thesis by (simp add: find_source_def)
qed

lemma find_source_cases:
  assumes "good c"
  shows "(\<exists>k < num_src c. sources c ! k = Some old \<and> find_source c old = int k) \<or>
    ((\<forall>k < num_src c. sources c ! k \<noteq> Some old) \<and> find_source c old = - 1)"
proof (cases "\<exists>k < num_src c. sources c ! k = Some old")
  case True
  let ?S = "{k. k < num_src c \<and> sources c ! k = Some old}"
  have "Max ?S \<in> ?S" using True by (intro Max_in) auto
  with True show ?thesis by (auto simp: find_source_spec)
qed (auto simp: find_source_spec)

lemma chansrc_set_at:
  assumes "good c" and "k < num_src c"
  shows "curr_src (chansrc_set c (int k)) = k" and "source (chansrc_set c (int k)) = sources c ! k"
proof -
  have "chan_ok c" using assms(1) by (simp add: good_def)
  note D = chan_okD [OF this]
  have "k < 7" "sources c ! k \<noteq> None" using D(2) D(3) [of k] assms(2) by auto
  then show "curr_src (chansrc_set c (int k)) = k" "source (chansrc_set c (int k)) = sources c ! k"
    by (auto simp: chansrc_set_def Let_def MAX_CHANNEL_SOURCES_def)
qed

lemma take_over_source:
  assumes "good c" and "take_over ck a c old r = (c', r')"
  shows "in_chan r' = a \<and> num_src c' = num_src c \<and> sources c' = sources c \<and>
    (if \<exists>k < num_src c. sources c ! k = Some old then source c' = Some old \<and> in_reconnect r' = in_reconnect r
     else in_reconnect r' \<and> curr_src (chansrc_next c') = 0 \<and> source (chansrc_next c') = sources c ! 0)"
  using find_source_cases [OF assms(1), of old]
proof
  assume "\<exists>k < num_src c. sources c ! k = Some old \<and> find_source c old = int k"
  then obtain k where k: "k < num_src c" "sources c ! k = Some old" "find_source c old = int k" by blast
  with assms(2) have "c' = chansrc_set c (int k)" "r' = r\<lparr> in_cookie := ck, in_chan := a \<rparr>"
    by (auto simp: take_over_def Let_def)
  with k chansrc_set_at [OF assms(1) k(1)] show ?thesis by (auto simp: chansrc_frame)
next
  assume n: "(\<forall>k < num_src c. sources c ! k \<noteq> Some old) \<and> find_source c old = - 1"
  have pos: "0 < num_src c" using assms(1) by (simp add: good_def)
  then have i: "int (num_src c) - 1 = int (num_src c - 1)" by simp
  from n assms(2) have "(c', r') = (chansrc_set c (int (num_src c) - 1), r\<lparr> in_cookie := ck, in_chan := a, in_reconnect := True \<rparr>)"
    by (simp add: take_over_def)
  then have c': "c' = chansrc_set c (int (num_src c - 1))"
    and r': "r' = r\<lparr> in_cookie := ck, in_chan := a, in_reconnect := True \<rparr>" unfolding i by simp_all
  have g: "good c'" unfolding c' using assms(1) by (rule chansrc_set_good)
  then have ok: "chan_ok c'" "chan_ok (chansrc_next c')" by (auto simp: good_def chansrc_next_ok)
  have s: "num_src c' = num_src c" "sources c' = sources c" by (simp_all add: c' chansrc_frame)
  have last: "curr_src c' = num_src c - 1" unfolding c' using pos by (intro chansrc_set_at(1) [OF assms(1)]) simp
  have z: "curr_src (chansrc_next c') = 0"
    using chansrc_next_curr [OF ok(1)] pos last s by simp
  with chan_okD(5) [OF ok(2)] pos have "source (chansrc_next c') = sources c ! 0" by (simp add: chansrc_frame s)
  with n r' z s show ?thesis by auto
qed


section \<open>The whole switch\<close>

lemma switch_channels_sources:
  assumes "conf_ok cf" and "\<forall>c \<in> set cs. good c"
    and "distinct (map c_name cs)" and "distinct (map in_name (cf_inputs cf))" and "switch_channels ck cs cf = Some cf'"
    and "i < length (cf_inputs cf)" and "j < length cs" and "in_name (cf_inputs cf ! i) = c_name (cs ! j)"
  shows "\<exists>old c'. Option.bind (cf_store cf (in_chan (cf_inputs cf ! i))) source = Some old \<and>
    take_over ck (cf_channels cf' ! j) (cs ! j) old (cf_inputs cf ! i) = (c', cf_inputs cf' ! i) \<and>
    cf_store cf' (cf_channels cf' ! j) = Some c'"
proof -
  let ?A = "new_addrs cf cs" and ?b = "cf_brk cf + length cs" and ?r = "cf_inputs cf ! i" and ?a = "cf_brk cf + j"
  note N = new_store_facts [OF assms(1,2)]
  from switch_phases [OF assms(1,2), of ck] obtain h1 rs1 h2 b2 rs2 where
    1: "rewrite_inputs ck ?A (new_store cf cs) (cf_inputs cf) = Some (h1, rs1)"
      "list_all2 (claimed ck (set ?A) (c_name ` set cs)) (cf_inputs cf) rs1" and
    2: "\<forall>x < ?b. h2 x = h1 x" "list_all2 (dismissed ck) rs1 rs2" and
    cf': "cf' = cf\<lparr> cf_channels := ?A, cf_inputs := rs2, cf_store := h2 |` (- set (cf_channels cf)), cf_brk := b2 \<rparr>"
    using assms(5) by auto
  have nn: "map (name_at (new_store cf cs)) ?A = map Some (map c_name cs)"
    by (rule nth_equalityI) (auto simp: new_addrs_def name_at_def new_store_at)
  have dn: "distinct (map (name_at (new_store cf cs)) ?A)"
    unfolding nn using assms(3) by (subst distinct_map) (simp add: inj_on_def)
  have fresh: "\<forall>r \<in> set (cf_inputs cf). in_chan r \<notin> set ?A" using N(5) by blast
  note X = rewrite_inputs_exact [OF 1(1) N(7) dn assms(4) fresh]
  have a: "?a \<in> set ?A" "?A ! j = ?a" using assms(7) by (auto simp: new_addrs_def)
  then have "name_at (new_store cf cs) ?a = Some (in_name ?r)" using assms(8) by (simp add: name_at_def new_store_at)
  with X assms(6) a(1) have T: "takes ck ?a (new_store cf cs) ?r h1 (rs1 ! i)" by blast
  have "new_store cf cs (in_chan ?r) = cf_store cf (in_chan ?r)" using fresh assms(6) by (simp add: new_store_at)
  moreover have "new_store cf cs ?a = Some (cs ! j)" using a(1) by (simp add: new_store_at)
  ultimately obtain old c' where T': "Option.bind (cf_store cf (in_chan ?r)) source = Some old"
    "take_over ck ?a (cs ! j) old ?r = (c', rs1 ! i)" "h1 ?a = Some c'" using T by (auto simp: takes_def)
  have "dismissed ck (rs1 ! i) (rs2 ! i)"
    using 2(2) assms(6) list_all2_lengthD [OF 1(2)] by (simp add: list_all2_nthD)
  then have "rs2 ! i = rs1 ! i" using take_over_cookie [OF T'(2)] by (simp add: dismissed_def)
  moreover have "?a \<notin> set (cf_channels cf)" using N(8) [of ?a] by auto
  then have "(h2 |` (- set (cf_channels cf))) ?a = Some c'" using 2(1) T'(3) assms(7) by simp
  ultimately show ?thesis using T' a(2) by (simp add: cf')
qed

section \<open>The EPG\<close>

lemma epg_changed_self: "(\<And>x. cmp x x = 0) \<Longrightarrow> \<not> epg_changed cmp e e"
  by (auto simp: epg_changed_def split: option.splits)

lemma on_channels_eq:
  assumes "distinct as" and "\<forall>a \<in> set as. Option.bind (h a) f \<noteq> None"
  shows "on_channels f as h = Some (\<lambda>a. if a \<in> set as then Option.bind (h a) f else h a)"
  using assms
proof (induction as arbitrary: h)
  case (Cons a as)
  then obtain c c' where c: "h a = Some c" "f c = Some c'" by (auto simp: Option.bind_eq_Some_conv)
  have "\<forall>x \<in> set as. Option.bind ((h(a \<mapsto> c')) x) f \<noteq> None" using Cons.prems by auto
  with Cons c show ?case by (auto simp: fun_eq_iff)
qed simp

lemma on_channels_Some:
  assumes "on_channels f as h = Some h'" and "distinct as"
  shows "h' = (\<lambda>a. if a \<in> set as then Option.bind (h a) f else h a) \<and> (\<forall>a \<in> set as. Option.bind (h a) f \<noteq> None)"
  using assms
proof (induction as arbitrary: h)
  case (Cons a as)
  then obtain c c' where c: "h a = Some c" "f c = Some c'" "on_channels f as (h(a \<mapsto> c')) = Some h'"
    by (auto simp: Option.bind_eq_Some_conv)
  have ne: "x \<noteq> a" if "x \<in> set as" for x using Cons.prems(2) that by auto
  from Cons.IH [OF c(3)] Cons.prems(2)
  have h': "h' = (\<lambda>x. if x \<in> set as then Option.bind ((h(a \<mapsto> c')) x) f else (h(a \<mapsto> c')) x)"
    and "\<forall>x \<in> set as. Option.bind ((h(a \<mapsto> c')) x) f \<noteq> None" by simp_all
  then have "\<forall>x \<in> set as. Option.bind (h x) f \<noteq> None" using ne by (metis fun_upd_other)
  with h' c ne Cons.prems(2) show ?case by (auto simp: fun_eq_iff)
qed simp

text \<open>The same entries again change nothing.\<close>

lemma init_epg_again:
  assumes "\<And>x. ee_xstrcmp E x x = 0"
  shows "config_channel_init_epg E cf' (config_channel_init_epg E cf c now nxt) now nxt = config_channel_init_epg E cf c now nxt"
  using epg_changed_self [of "ee_xstrcmp E", OF assms]
  by (auto simp: config_channel_init_epg_def channel_free_epg_def Let_def)

lemma init_epg_frame [frame_simps, simp]:
  "c_id (config_channel_init_epg E cf c now nxt) = c_id c" "c_name (config_channel_init_epg E cf c now nxt) = c_name c"
  "source (config_channel_init_epg E cf c now nxt) = source c"
  by (simp_all add: config_channel_init_epg_def channel_free_epg_def Let_def)

lemma init_epg_good [inv_intros]: "good c \<Longrightarrow> good (config_channel_init_epg E cf c now nxt)"
  by (simp add: good_def chan_ok_def config_channel_init_epg_def channel_free_epg_def Let_def)


section \<open>Queries through the map\<close>

text \<open>A dictionary without entries answers every query with the default.\<close>

lemma empty_dict:
  "ini_get_int (Some (dictionary_new 0)) v k = Some v" "ini_get_bool (Some (dictionary_new 0)) v k = Some v"
  "str_at (dictionary_new 0) k = None" "str_of (ini_get_string_copy (Some (dictionary_new 0)) SNull k) = None"
proof -
  have "dictionary_get (dictionary_new 0) q def = def" for q def
    using dictionary_get_map [OF dict_new_ok [of 0]] by (simp add: dict_new_map)
  then show "ini_get_int (Some (dictionary_new 0)) v k = Some v" "ini_get_bool (Some (dictionary_new 0)) v k = Some v"
    "str_at (dictionary_new 0) k = None" "str_of (ini_get_string_copy (Some (dictionary_new 0)) SNull k) = None"
    by (simp_all add: ini_get_int_def iniparser_getint_def ini_get_bool_def iniparser_getboolean_def ini_get_string_def
        ini_get_string_copy_def iniparser_getstring_def str_of_def)
qed

lemma empty_file: "load_ini can below (Some '''') = Some (Some (dictionary_new 0))"
  by (simp add: load_ini_def iniparser_load_def ini_init_def ini_loop.simps)

lemma empty_channels: "load_channel_list (dictionary_new 0) ks = Some []"
  by (induction ks) (simp_all add: load_channel_def empty_dict)

text \<open>On a well-formed dictionary the queries see its map only.\<close>

lemma queries_map:
  assumes "dict_ok d"
  shows "ini_get_int (Some d) v k = (case dict_map d (strlwc (handle_format k)) of
      None \<Rightarrow> Some v | Some None \<Rightarrow> None | Some (Some s) \<Rightarrow> Some (to_int32 (strtol 0 s)))"
    and "str_at d k = (case dict_map d (strlwc (handle_format k)) of None \<Rightarrow> None | Some x \<Rightarrow> x)"
    and "dict_map d (strlwc (handle_format k)) = None \<Longrightarrow> ini_get_bool (Some d) v k = Some v"
  using dictionary_get_map [OF assms]
  by (auto simp: ini_get_int_def iniparser_getint_def ini_get_bool_def iniparser_getboolean_def ini_get_string_def
      iniparser_getstring_def str_of_def sptr_of_def split: option.splits)

section \<open>Properties\<close>

text \<open>A configuration with one channel and its input.\<close>

definition demo_chan :: "string \<Rightarrow> string \<Rightarrow> nat channel" where
  "demo_chan nm url = the (channel_new 7 0 ''id'' nm 1 url 3 0 0)"

definition demo_conf :: "nat config" where
  "demo_conf = config_alloc\<lparr> cf_channels := [0], cf_store := [0 \<mapsto> demo_chan ''A'' ''udp://1''], cf_brk := 1,
     cf_inputs := [\<lparr> in_name = ''A'', in_chan = 0, in_cookie = 0, in_reconnect = False, in_dienow = False, in_freechannel = False \<rparr>] \<rparr>"

lemma demo_chan_good: "good (demo_chan nm url)" "c_name (demo_chan nm url) = nm" "source (demo_chan nm url) = Some url"
  "num_src (demo_chan nm url) = 1" "sources (demo_chan nm url) ! 0 = Some url" "epg_now (demo_chan nm url) = None"
proof -
  obtain c :: "nat channel" where c: "channel_new 7 0 ''id'' nm 1 url 3 0 0 = Some c" by (simp add: channel_new_def)
  note F = channel_new_gives [OF c] channel_new_ok [OF c]
  then show "good (demo_chan nm url)" "c_name (demo_chan nm url) = nm" "source (demo_chan nm url) = Some url"
    "num_src (demo_chan nm url) = 1" "sources (demo_chan nm url) ! 0 = Some url" "epg_now (demo_chan nm url) = None"
    by (simp_all add: demo_chan_def c good_def)
qed

lemma demo_conf_ok: "conf_ok demo_conf"
  by (simp add: conf_ok_def demo_conf_def config_alloc_def store_ok_def demo_chan_good)

text \<open>
  C8. After a new channels file an input whose source is still configured for its channel keeps it
  and is not disturbed; any other is asked to reconnect, and its next source is the first one.
\<close>

theorem reload_keeps_sources:
  assumes "conf_ok cf" and "\<forall>c \<in> set cs. good c" and "distinct (map c_name cs)" and "distinct (map in_name (cf_inputs cf))"
    and "switch_channels ck cs cf = Some cf'" and "i < length (cf_inputs cf)" and "j < length cs"
    and "in_name (cf_inputs cf ! i) = c_name (cs ! j)"
  shows "\<exists>old c'. Option.bind (cf_store cf (in_chan (cf_inputs cf ! i))) source = Some old \<and>
    in_chan (cf_inputs cf' ! i) = cf_channels cf' ! j \<and> cf_store cf' (cf_channels cf' ! j) = Some c' \<and>
    sources c' = sources (cs ! j) \<and>
    (if \<exists>k < num_src (cs ! j). sources (cs ! j) ! k = Some old
     then source c' = Some old \<and> in_reconnect (cf_inputs cf' ! i) = in_reconnect (cf_inputs cf ! i)
     else in_reconnect (cf_inputs cf' ! i) \<and> source (chansrc_next c') = sources (cs ! j) ! 0)"
proof -
  obtain old c' where s: "Option.bind (cf_store cf (in_chan (cf_inputs cf ! i))) source = Some old"
    "take_over ck (cf_channels cf' ! j) (cs ! j) old (cf_inputs cf ! i) = (c', cf_inputs cf' ! i)"
    "cf_store cf' (cf_channels cf' ! j) = Some c'" using switch_channels_sources [OF assms] by blast
  have "good (cs ! j)" using assms(2,7) by simp
  from take_over_source [OF this s(2)] s show ?thesis
    by (cases "\<exists>k < num_src (cs ! j). sources (cs ! j) ! k = Some old") (simp_all, blast+)
qed

theorem reload_keeps_sources_witness:
  "\<exists>cf' old c'. switch_channels 1 [demo_chan ''A'' ''udp://2''] demo_conf = Some cf' \<and>
     Option.bind (cf_store demo_conf (in_chan (cf_inputs demo_conf ! 0))) source = Some old \<and>
     in_reconnect (cf_inputs cf' ! 0) \<and> cf_store cf' (cf_channels cf' ! 0) = Some c' \<and> source (chansrc_next c') = Some ''udp://2''"
proof -
  let ?c = "demo_chan ''A'' ''udp://2''"
  have g: "\<forall>c \<in> set [?c]. good c" by (simp add: demo_chan_good)
  have r: "\<forall>r \<in> set (cf_inputs demo_conf). in_cookie r \<noteq> 1"
    "\<forall>r \<in> set (cf_inputs demo_conf). in_freechannel r \<longrightarrow> in_name r \<notin> c_name ` set [?c]"
    by (simp_all add: demo_conf_def config_alloc_def)
  obtain cf' where cf': "switch_channels 1 [?c] demo_conf = Some cf'"
    using switch_channels_total [OF demo_conf_ok g r] by blast
  have "\<exists>old c'. Option.bind (cf_store demo_conf (in_chan (cf_inputs demo_conf ! 0))) source = Some old \<and>
    in_chan (cf_inputs cf' ! 0) = cf_channels cf' ! 0 \<and> cf_store cf' (cf_channels cf' ! 0) = Some c' \<and>
    sources c' = sources ([?c] ! 0) \<and>
    (if \<exists>k < num_src ([?c] ! 0). sources ([?c] ! 0) ! k = Some old
     then source c' = Some old \<and> in_reconnect (cf_inputs cf' ! 0) = in_reconnect (cf_inputs demo_conf ! 0)
     else in_reconnect (cf_inputs cf' ! 0) \<and> source (chansrc_next c') = sources ([?c] ! 0) ! 0)"
    by (rule reload_keeps_sources [OF demo_conf_ok g _ _ cf'])
      (simp_all add: demo_conf_def config_alloc_def demo_chan_good)
  then obtain old c' where o: "Option.bind (cf_store demo_conf (in_chan (cf_inputs demo_conf ! 0))) source = Some old"
    "cf_store cf' (cf_channels cf' ! 0) = Some c'"
    "if old = ''udp://2'' then source c' = Some old \<and> in_reconnect (cf_inputs cf' ! 0) = in_reconnect (cf_inputs demo_conf ! 0)
     else in_reconnect (cf_inputs cf' ! 0) \<and> source (chansrc_next c') = Some ''udp://2''"
    by (auto simp: demo_chan_good)
  moreover have "old = ''udp://1''" using o(1) by (simp add: demo_conf_def config_alloc_def demo_chan_good)
  ultimately show ?thesis using cf' by auto
qed

text \<open>
  C16. Loading the same EPG file again after its time has changed changes nothing: no version is
  bumped, no table rebuilt.
\<close>

theorem epg_reload_stable:
  assumes "\<And>x. ee_xstrcmp E x x = 0" and "distinct (cf_channels cf)" and "m1 < m2"
    and "config_load_epg E can below (Some m1) file cf = Some (1, cf1)"
  shows "config_load_epg E can below (Some m2) file cf1 = Some (1, cf1\<lparr> cf_epg_mtime := m2 \<rparr>)"
proof -
  define f where "f = (\<lambda>d (cf' :: 'a config) c. do {
     now \<leftarrow> config_load_epg_entry E d ''now'' (c_id c);
     nxt \<leftarrow> config_load_epg_entry E d ''next'' (c_id c);
     Some (config_channel_init_epg E cf' c now nxt) })"
  obtain d h where d: "load_ini can below file = Some (Some d)" "m1 > cf_epg_mtime cf"
    "on_channels (f d (cf\<lparr> cf_epg_mtime := m1 \<rparr>)) (cf_channels cf) (cf_store cf) = Some h"
    "cf1 = cf\<lparr> cf_epg_mtime := m1, cf_store := h \<rparr>"
    using assms(4) unfolding config_load_epg_def
    by (auto simp: Option.bind_eq_Some_conv Let_def f_def split: if_splits option.splits)
  have twice: "f d cf2 c' = Some c'" if "f d cf' c = Some c'" for c c' cf' and cf2 :: "'a config"
    using that init_epg_again [OF assms(1)] by (auto simp: f_def Option.bind_eq_Some_conv)
  from on_channels_Some [OF d(3) assms(2)]
  have h: "h a = Option.bind (cf_store cf a) (f d (cf\<lparr> cf_epg_mtime := m1 \<rparr>))" "h a \<noteq> None" if "a \<in> set (cf_channels cf)" for a
    using that by auto
  define g where "g = f d (cf1\<lparr> cf_epg_mtime := m2 \<rparr>)"
  have g: "Option.bind (h a) g = h a" if "a \<in> set (cf_channels cf)" for a
    using h [OF that] twice by (auto simp: Option.bind_eq_Some_conv g_def)
  have "\<forall>a \<in> set (cf_channels cf). Option.bind (h a) g \<noteq> None" using g h(2) by metis
  from on_channels_eq [OF assms(2) this] have "on_channels g (cf_channels cf) h = Some h" using g by (auto simp: fun_eq_iff)
  then have "on_channels (f d (cf1\<lparr> cf_epg_mtime := m2 \<rparr>)) (cf_channels cf1) (cf_store cf1) = Some h"
    by (simp add: d(4) g_def)
  then show ?thesis
    using d(1) assms(3) unfolding config_load_epg_def f_def by (simp add: d(4))
qed


text \<open>An EPG file with one event, and builders that count.\<close>

definition demo_eenv :: "nat epg_env" where
  "demo_eenv = \<lparr> ee_utf8 = id, ee_iso5 = id, ee_xstrcmp = (\<lambda>a b. if a = b then 0 else 1), ee_init = (\<lambda>_ _ _ _ _. 0),
     ee_version = (\<lambda>t v. unat v), ee_short = (\<lambda>t _ _ _ _ _ _. t), ee_extended = (\<lambda>t _ _ _ _ _. t), ee_regen = id \<rparr>"

definition demo_epg :: "(string \<times> (string \<times> string) list) list" where
  "demo_epg = [(''id-now'', [(''start'', ''60''), (''duration'', ''9''), (''event'', ''E'')])]"

lemma demo_epg_loads:
  "\<exists>d. load_ini (\<lambda>_. True) CHR 0x00 (Some (unlines (render_ini demo_epg))) = Some (Some d) \<and>
     config_load_epg_entry demo_eenv d ''now'' ''id'' =
       Some (Some \<lparr> event_id = 1, epg_start = 60, epg_duration = 9, epg_event = Some ''E'', epg_short = None, epg_long = None \<rparr>) \<and>
     config_load_epg_entry demo_eenv d ''next'' ''id'' = Some None"
proof -
  have "plain_ini demo_epg" by code_simp
  moreover have "distinct (map fst (concat (map section_entries demo_epg)))" by code_simp
  ultimately obtain d where d: "iniparser_load (\<lambda>_. True) CHR 0x00 (Some (unlines (render_ini demo_epg))) = Inr d" "dict_ok d"
    "dict_map d = map_of (concat (map section_entries demo_epg))" using iniparser_roundtrip by force
  have m: "dict_map d = map_of [(''id-now'', None), (''id-now:start'', Some ''60''), (''id-now:duration'', Some ''9''), (''id-now:event'', Some ''E'')]"
    by (simp add: d(3) demo_epg_def section_entries_def)
  have k: "strlwc (handle_format s) = s" if "map tolower s = s" "length s \<le> 126" for s
    using that by (simp add: strlwc_def handle_format_def ASCIILINESZ_def)
  have t: "map tolower s = s" if "\<forall>c \<in> set s. \<not> isupper c" for s using that by (induction s) (auto simp: tolower_def)
  have n: "to_int32 (strtol 0 ''60'') = 60" "to_int32 (strtol 0 ''9'') = 9"
    by (simp_all add: strtol_def take_sign_def isspace_def char_code_def strtol_base_def digit_val_def isdigit_def
        clamp_long_def to_int32_id has_hex_prefix_def)
  have q: "ini_get_int (Some d) v s = (case dict_map d s of None \<Rightarrow> Some v | Some None \<Rightarrow> None | Some (Some x) \<Rightarrow> Some (to_int32 (strtol 0 x)))"
    "str_at d s = (case dict_map d s of None \<Rightarrow> None | Some x \<Rightarrow> x)" if "\<forall>c \<in> set s. \<not> isupper c" "length s \<le> 126" for v s
    using queries_map(1) [OF d(2), of v s] queries_map(2) [OF d(2), of s] k [OF t [OF that(1)] that(2)] by simp_all
  have "config_load_epg_entry demo_eenv d ''now'' ''id'' =
       Some (Some \<lparr> event_id = 1, epg_start = 60, epg_duration = 9, epg_event = Some ''E'', epg_short = None, epg_long = None \<rparr>)"
    "config_load_epg_entry demo_eenv d ''next'' ''id'' = Some None"
    by (simp_all add: config_load_epg_entry_def q m n isupper_def char_code_def epg_new_def demo_eenv_def)
  with d(1) show ?thesis by (auto simp: load_ini_def)
qed

lemma demo_epg_change:
  "\<exists>cf1. config_load_epg demo_eenv (\<lambda>_. True) CHR 0x00 (Some 5) (Some (unlines (render_ini demo_epg))) demo_conf = Some (1, cf1) \<and>
     map_option epg_version (cf_store cf1 0) = Some 1"
proof -
  obtain d where d: "load_ini (\<lambda>_. True) CHR 0x00 (Some (unlines (render_ini demo_epg))) = Some (Some d)"
    "config_load_epg_entry demo_eenv d ''now'' ''id'' =
       Some (Some \<lparr> event_id = 1, epg_start = 60, epg_duration = 9, epg_event = Some ''E'', epg_short = None, epg_long = None \<rparr>)"
    "config_load_epg_entry demo_eenv d ''next'' ''id'' = Some None" using demo_epg_loads by blast
  obtain c :: "nat channel" where c: "channel_new 7 0 ''id'' ''A'' 1 ''udp://1'' 3 0 0 = Some c" by (simp add: channel_new_def)
  have "demo_chan ''A'' ''udp://1'' = c" by (simp add: demo_chan_def c)
  with channel_new_gives [OF c] d show ?thesis
    by (simp add: config_load_epg_def demo_conf_def config_alloc_def config_channel_init_epg_def epg_changed_def
        channel_free_epg_def Let_def)
qed

theorem epg_reload_stable_witness:
  "\<exists>cf1. config_load_epg demo_eenv (\<lambda>_. True) CHR 0x00 (Some 5) (Some (unlines (render_ini demo_epg))) demo_conf = Some (1, cf1) \<and>
     map_option epg_version (cf_store cf1 0) = Some 1 \<and>
     config_load_epg demo_eenv (\<lambda>_. True) CHR 0x00 (Some 6) (Some (unlines (render_ini demo_epg))) cf1 = Some (1, cf1\<lparr> cf_epg_mtime := 6 \<rparr>)"
proof -
  obtain cf1 where cf1: "config_load_epg demo_eenv (\<lambda>_. True) CHR 0x00 (Some 5) (Some (unlines (render_ini demo_epg))) demo_conf = Some (1, cf1)"
    "map_option epg_version (cf_store cf1 0) = Some 1" using demo_epg_change by blast
  have "ee_xstrcmp demo_eenv x x = 0" for x by (simp add: demo_eenv_def)
  moreover have "distinct (cf_channels demo_conf)" by (simp add: demo_conf_def config_alloc_def)
  ultimately have "config_load_epg demo_eenv (\<lambda>_. True) CHR 0x00 (Some 6) (Some (unlines (render_ini demo_epg))) cf1 =
      Some (1, cf1\<lparr> cf_epg_mtime := 6 \<rparr>)"
    using epg_reload_stable [of demo_eenv demo_conf 5 6, OF _ _ _ cf1(1)] by simp
  with cf1 show ?thesis by blast
qed


end
