(* ===== verification/Threads.thy ===== *)
theory Threads
  imports Config Steps
begin

text \<open>
  Who may touch which channel object over time: inputs are started
  (\<^verbatim>\<open>spawn_input_threads\<close> in \<^verbatim>\<open>src/mptsd.c\<close>,
  \<^verbatim>\<open>input_new\<close> in \<^verbatim>\<open>src/data.c\<close>), move to their next source, and end
  (\<^verbatim>\<open>proxy_close\<close> and \<^verbatim>\<open>input_free\<close>), while the configuration loads
  new channels and EPG files. Every operation that would use a freed object has no result;
  the invariant is that this cannot happen.
\<close>

section \<open>Operations\<close>

definition input_new :: "'e channel \<Rightarrow> nat \<Rightarrow> in_ref" where
  "input_new c a = \<lparr> in_name = c_name c, in_chan = a, in_cookie = 0, in_reconnect = False, in_dienow = False,
     in_freechannel = False \<rparr>"

text \<open>
  One input for every channel that has none of its name. An input whose thread can't be
  created stays in the list all the same. \<open>cmp\<close> is \<^verbatim>\<open>xstrcmp\<close> of libfuncs.
\<close>

fun spawn_input_threads ::
  "(string option \<Rightarrow> string option \<Rightarrow> int) \<Rightarrow> 'e chan_store \<Rightarrow> nat list \<Rightarrow> in_ref list \<Rightarrow> in_ref list option"
where
  "spawn_input_threads cmp h [] rs = Some rs"
| "spawn_input_threads cmp h (a # as) rs = do {
     c \<leftarrow> h a;
     spawn_input_threads cmp h as
       (if \<exists>r \<in> set rs. cmp (Some (in_name r)) (Some (c_name c)) = 0 then rs else rs @ [input_new c a]) }"

text \<open>An input leaves the list and frees its channel if it owns it.\<close>

definition proxy_close :: "nat \<Rightarrow> 'e config \<Rightarrow> 'e config option" where
  "proxy_close i cf =
     (let r = cf_inputs cf ! i; cf' = cf\<lparr> cf_inputs := take i (cf_inputs cf) @ drop (i + 1) (cf_inputs cf) \<rparr> in
      if in_freechannel r then do {
        h \<leftarrow> free_channels [in_chan r] (cf_store cf);
        Some (cf'\<lparr> cf_store := h \<rparr>) }
      else Some cf')"

text \<open>What happens to the shared objects; an input reconnecting moves to the next source.\<close>

datatype 'e event =
    Reload int "'e channel list"
  | Spawn
  | Next nat
  | Close nat
  | Epg "int option" "string option"

record 'e admin_env =
  ae_cmp :: "string option \<Rightarrow> string option \<Rightarrow> int"
  ae_epg :: "'e epg_env"
  ae_can :: "nat \<Rightarrow> bool"
  ae_below :: char

fun admin_run :: "'e admin_env \<Rightarrow> 'e event \<Rightarrow> 'e config \<Rightarrow> 'e config option" where
  "admin_run A (Reload ck cs) cf = switch_channels ck cs cf"
| "admin_run A Spawn cf = do {
     rs \<leftarrow> spawn_input_threads (ae_cmp A) (cf_store cf) (cf_channels cf) (cf_inputs cf);
     Some (cf\<lparr> cf_inputs := rs \<rparr>) }"
| "admin_run A (Next i) cf = do {
     h \<leftarrow> on_channels (\<lambda>c. Some (chansrc_next c)) [in_chan (cf_inputs cf ! i)] (cf_store cf);
     Some (cf\<lparr> cf_store := h \<rparr>) }"
| "admin_run A (Close i) cf = proxy_close i cf"
| "admin_run A (Epg mtime file) cf = do {
     (ret, cf') \<leftarrow> config_load_epg (ae_epg A) (ae_can A) (ae_below A) mtime file cf;
     Some cf' }"

text \<open>
  When an event is in order: indexes exist; channels are ones the loader makes; the cookie
  is new; no input that is on its way out is claimed by a channel of its name; the EPG file
  has no section named like one of the keys asked for.
\<close>

fun in_order :: "'e admin_env \<Rightarrow> 'e event \<Rightarrow> 'e config \<Rightarrow> bool" where
  "in_order A (Reload ck cs) cf \<longleftrightarrow>
     (\<forall>c \<in> set cs. good c) \<and> (\<forall>r \<in> set (cf_inputs cf). in_cookie r \<noteq> ck) \<and>
     (\<forall>r \<in> set (cf_inputs cf). in_freechannel r \<longrightarrow> in_name r \<notin> c_name ` set cs)"
| "in_order A Spawn cf \<longleftrightarrow> True"
| "in_order A (Next i) cf \<longleftrightarrow> i < length (cf_inputs cf)"
| "in_order A (Close i) cf \<longleftrightarrow> i < length (cf_inputs cf)"
| "in_order A (Epg mtime file) cf \<longleftrightarrow>
     (case load_ini (ae_can A) (ae_below A) file of
        None \<Rightarrow> False
      | Some None \<Rightarrow> True
      | Some (Some d) \<Rightarrow> \<forall>entry ch. config_load_epg_entry (ae_epg A) d entry ch \<noteq> None)"

inductive admin_reach :: "'e admin_env \<Rightarrow> 'e config \<Rightarrow> bool" for A where
  start: "admin_reach A (config_alloc\<lparr> cf_network_id := nid, cf_timeouts := ts, cf_nit := nits, cf_network_name := nm \<rparr>)"
| event: "admin_reach A cf \<Longrightarrow> in_order A ev cf \<Longrightarrow> admin_run A ev cf = Some cf' \<Longrightarrow> admin_reach A cf'"

section \<open>Every operation keeps the ownership\<close>

lemma spawn_total:
  assumes "set as \<subseteq> dom h"
  shows "\<exists>new. spawn_input_threads cmp h as rs = Some (rs @ new) \<and>
    (\<forall>r \<in> set new. in_chan r \<in> set as \<and> \<not> in_freechannel r)"
  using assms
proof (induction as arbitrary: rs)
  case (Cons a as)
  then obtain c where c: "h a = Some c" by auto
  show ?case
  proof (cases "\<exists>r \<in> set rs. cmp (Some (in_name r)) (Some (c_name c)) = 0")
    case True
    with Cons.IH [of rs] Cons.prems c show ?thesis by auto
  next
    case False
    from Cons.IH [of "rs @ [input_new c a]"] Cons.prems obtain new
      where "spawn_input_threads cmp h as (rs @ [input_new c a]) = Some ((rs @ [input_new c a]) @ new)"
        "\<forall>r \<in> set new. in_chan r \<in> set as \<and> \<not> in_freechannel r" by auto
    with False c show ?thesis by (intro exI [of _ "input_new c a # new"]) (auto simp: input_new_def)
  qed
qed simp

lemma spawn_ok:
  assumes "conf_ok cf"
  shows "\<exists>cf'. admin_run A Spawn cf = Some cf' \<and> conf_ok cf'"
proof -
  note C = conf_okD [OF assms]
  obtain new where n: "spawn_input_threads (ae_cmp A) (cf_store cf) (cf_channels cf) (cf_inputs cf) = Some (cf_inputs cf @ new)"
    "\<forall>r \<in> set new. in_chan r \<in> set (cf_channels cf) \<and> \<not> in_freechannel r"
    using spawn_total [OF C(4)] by blast
  have "filter in_freechannel new = []" using n(2) by (simp add: filter_empty_conv)
  moreover have "in_chan ` set new \<subseteq> dom (cf_store cf)" using n(2) C(4) by blast
  ultimately have "conf_ok (cf\<lparr> cf_inputs := cf_inputs cf @ new \<rparr>)"
    using assms n(2) by (auto simp: conf_ok_def)
  with n(1) show ?thesis by simp
qed

text \<open>Changing channel objects in place, to good ones, keeps the ownership.\<close>

lemma update_ok:
  assumes "conf_ok cf" and "set as \<subseteq> dom (cf_store cf)" and "distinct as"
    and "\<And>a c. a \<in> set as \<Longrightarrow> cf_store cf a = Some c \<Longrightarrow> \<exists>c'. f c = Some c' \<and> good c'"
  shows "\<exists>h. on_channels f as (cf_store cf) = Some h \<and> conf_ok (cf\<lparr> cf_store := h \<rparr>)"
proof -
  define h where "h = (\<lambda>a. if a \<in> set as then Option.bind (cf_store cf a) f else cf_store cf a)"
  have b: "\<exists>c'. h a = Some c' \<and> good c'" if "a \<in> set as" for a
    using assms(2) assms(4) [OF that] that by (cases "cf_store cf a") (auto simp: h_def)
  have o: "h a = cf_store cf a" if "a \<notin> set as" for a using that by (simp add: h_def)
  have "\<forall>a \<in> set as. Option.bind (cf_store cf a) f \<noteq> None" using b by (force simp: h_def)
  from on_channels_eq [OF assms(3) this] have run: "on_channels f as (cf_store cf) = Some h" by (simp add: h_def)
  have none: "h a = None \<longleftrightarrow> cf_store cf a = None" for a
    using b [of a] o [of a] assms(2) by (cases "a \<in> set as") auto
  have dom: "dom h = dom (cf_store cf)" by (rule set_eqI) (simp only: domIff none)
  have "good c" if "h a = Some c" for a c
    using that b [of a] o [of a] store_okD [OF conf_okD(1) [OF assms(1)]] by (cases "a \<in> set as") auto
  then have "store_ok h" by (auto simp: store_ok_def ran_def)
  then have "conf_ok (cf\<lparr> cf_store := h \<rparr>)" using assms(1) dom none by (simp add: conf_ok_def)
  with run show ?thesis by blast
qed

lemma next_ok:
  assumes "conf_ok cf" and "i < length (cf_inputs cf)"
  shows "\<exists>cf'. admin_run A (Next i) cf = Some cf' \<and> conf_ok cf'"
proof -
  have "good c \<Longrightarrow> good (chansrc_next c)" for c :: "'a channel"
    by (auto simp: good_def chansrc_next_ok chansrc_frame) (auto simp: chansrc_next_def Let_def)
  moreover have "in_chan (cf_inputs cf ! i) \<in> dom (cf_store cf)" 
    using conf_okD(5) [OF assms(1)] nth_mem [OF assms(2)] by blast
  ultimately show ?thesis
    using update_ok [OF assms(1), of "[in_chan (cf_inputs cf ! i)]" "\<lambda>c. Some (chansrc_next c)"]
      store_okD [OF conf_okD(1) [OF assms(1)]] by fastforce
qed

text \<open>An input that owns its channel is the only one that points to it.\<close>

lemma close_ok:
  assumes "conf_ok cf" and "i < length (cf_inputs cf)"
  shows "\<exists>cf'. admin_run A (Close i) cf = Some cf' \<and> conf_ok cf'"
proof -
  note C = conf_okD [OF assms(1)]
  define r where "r = cf_inputs cf ! i"
  define ls where "ls = take i (cf_inputs cf)"
  define rs where "rs = drop (i + 1) (cf_inputs cf)"
  have split: "cf_inputs cf = ls @ r # rs" using assms(2) by (simp add: ls_def rs_def r_def id_take_nth_drop)
  show ?thesis
  proof (cases "in_freechannel r")
    case False
    then have "conf_ok (cf\<lparr> cf_inputs := ls @ rs \<rparr>)" using assms(1) by (auto simp: conf_ok_def split)
    with False show ?thesis by (simp add: proxy_close_def Let_def r_def ls_def rs_def)
  next
    case True
    let ?h = "(cf_store cf) |` (- {in_chan r})"
    have dom: "in_chan r \<in> dom (cf_store cf)" using C(5) by (simp add: split)
    have nc: "in_chan r \<notin> set (cf_channels cf)" using C(6) [of r] True by (simp add: split)
    have other: "in_chan x \<noteq> in_chan r" if "x \<in> set (ls @ rs)" for x
    proof (cases "in_freechannel x")
      case True
      then have "in_chan x \<in> in_chan ` set (filter in_freechannel (ls @ rs))" using that by auto
      moreover have "in_chan r \<notin> in_chan ` set (filter in_freechannel (ls @ rs))"
        using C(7) \<open>in_freechannel r\<close> by (auto simp: split)
      ultimately show ?thesis by metis
    next
      case False
      then show ?thesis using C(6) [of x] nc that by (auto simp: split)
    qed
    have "store_ok ?h" using C(1) by (auto simp: store_ok_def ran_def restrict_map_def split: if_splits)
    moreover have "\<forall>a \<ge> cf_brk cf. ?h a = None" using assms(1) by (auto simp: conf_ok_def restrict_map_def)
    moreover have "set (cf_channels cf) \<subseteq> dom ?h" using C(4) nc by auto
    moreover have "in_chan x \<in> dom ?h" if "x \<in> set (ls @ rs)" for x
    proof -
      have "in_chan x \<in> dom (cf_store cf)" using C(5) that by (auto simp: split)
      with other [OF that] show ?thesis by auto
    qed
    then have "in_chan ` set (ls @ rs) \<subseteq> dom ?h" by blast
    ultimately have "conf_ok (cf\<lparr> cf_inputs := ls @ rs, cf_store := ?h \<rparr>)"
      using assms(1) by (auto simp: conf_ok_def split)
    moreover have "free_channels [in_chan r] (cf_store cf) = Some ?h" 
      using free_channels_eq [of "[in_chan r]" "cf_store cf"] dom by simp
    ultimately show ?thesis using True by (simp add: proxy_close_def Let_def r_def ls_def rs_def)
  qed
qed

lemma reset_ok:
  assumes "conf_ok cf"
  shows "\<exists>cf'. config_reset_channels_epg cf = Some cf' \<and> conf_ok cf'"
proof -
  have "good c \<Longrightarrow> good (channel_free_epg c)" for c :: "'a channel" by (simp add: good_def chan_ok_def channel_free_epg_def)
  then obtain h where "on_channels (\<lambda>c. Some (channel_free_epg c)) (cf_channels cf) (cf_store cf) = Some h"
    "conf_ok (cf\<lparr> cf_store := h \<rparr>)"
    using update_ok [OF assms conf_okD(4,3) [OF assms], of "\<lambda>c. Some (channel_free_epg c)"]
      store_okD [OF conf_okD(1) [OF assms]] by blast
  then show ?thesis by (simp add: config_reset_channels_epg_def conf_ok_def)
qed

lemma load_epg_ok:
  assumes "conf_ok cf" and "\<And>entry ch. config_load_epg_entry E d entry ch \<noteq> None"
  shows "\<exists>h. on_channels (\<lambda>c. do {
      now \<leftarrow> config_load_epg_entry E d ''now'' (c_id c);
      nxt \<leftarrow> config_load_epg_entry E d ''next'' (c_id c);
      Some (config_channel_init_epg E cf c now nxt) }) (cf_channels cf) (cf_store cf) = Some h \<and> conf_ok (cf\<lparr> cf_store := h \<rparr>)"
proof (rule update_ok [OF assms(1) conf_okD(4,3) [OF assms(1)]])
  fix a c assume c: "cf_store cf a = Some c"
  have "good c" using store_okD [OF conf_okD(1) [OF assms(1)] c] .
  moreover obtain now nxt where "config_load_epg_entry E d ''now'' (c_id c) = Some now"
    "config_load_epg_entry E d ''next'' (c_id c) = Some nxt" using assms(2) by (meson not_None_eq)
  ultimately show "\<exists>c'. do {
      now \<leftarrow> config_load_epg_entry E d ''now'' (c_id c);
      nxt \<leftarrow> config_load_epg_entry E d ''next'' (c_id c);
      Some (config_channel_init_epg E cf c now nxt) } = Some c' \<and> good c'" by (simp add: init_epg_good)
qed

lemma epg_ok:
  assumes "conf_ok cf" and "in_order A (Epg mtime file) cf"
  shows "\<exists>cf'. admin_run A (Epg mtime file) cf = Some cf' \<and> conf_ok cf'"
proof (cases mtime)
  case None
  with reset_ok [OF assms(1)] show ?thesis by (auto simp: config_load_epg_def)
next
  case (Some m)
  have ok: "conf_ok (cf\<lparr> cf_epg_mtime := m \<rparr>)" using assms(1) by (simp add: conf_ok_def)
  obtain x where x: "load_ini (ae_can A) (ae_below A) file = Some x" using assms(2) by (auto split: option.splits)
  show ?thesis
  proof (cases x)
    case None
    with reset_ok [OF ok] x Some assms(1) show ?thesis by (auto simp: config_load_epg_def Let_def)
  next
    case (Some d)
    have "\<And>entry ch. config_load_epg_entry (ae_epg A) d entry ch \<noteq> None" using assms(2) x Some by simp
    from load_epg_ok [OF ok this] obtain h where "on_channels (\<lambda>c. do {
        now \<leftarrow> config_load_epg_entry (ae_epg A) d ''now'' (c_id c);
        nxt \<leftarrow> config_load_epg_entry (ae_epg A) d ''next'' (c_id c);
        Some (config_channel_init_epg (ae_epg A) (cf\<lparr> cf_epg_mtime := m \<rparr>) c now nxt) }) (cf_channels cf) (cf_store cf) = Some h"
      "conf_ok (cf\<lparr> cf_epg_mtime := m, cf_store := h \<rparr>)" by auto
    with x Some \<open>mtime = Some m\<close> assms(1) show ?thesis by (auto simp: config_load_epg_def Let_def)
  qed
qed

lemma admin_run_ok:
  assumes "conf_ok cf" and "in_order A ev cf"
  shows "\<exists>cf'. admin_run A ev cf = Some cf' \<and> conf_ok cf'"
proof (cases ev)
  case (Reload ck cs)
  with assms switch_channels_total [of cf cs ck] show ?thesis by auto
next
  case Spawn
  with spawn_ok [OF assms(1)] show ?thesis by simp
next
  case (Next i)
  with next_ok [OF assms(1)] assms(2) show ?thesis by simp
next
  case (Close i)
  with close_ok [OF assms(1)] assms(2) show ?thesis by simp
next
  case (Epg m f)
  with epg_ok [OF assms(1)] assms(2) show ?thesis by simp
qed

interpretation admin: safe_events "in_order A" "admin_run A" conf_ok for A
  by unfold_locales (rule admin_run_ok)

lemma admin_reach_ok: "admin_reach A cf \<Longrightarrow> conf_ok cf"
proof (induction rule: admin_reach.induct)
  case (start nid ts nits nm)
  show ?case using config_alloc_ok by (simp add: conf_ok_def)
next
  case (event cf ev cf')
  then show ?case by (blast intro: admin.keeps)
qed

section \<open>Properties\<close>

definition demo_admin :: "nat admin_env" where
  "demo_admin = \<lparr> ae_cmp = (\<lambda>a b. if a = b then 0 else 1), ae_epg = demo_eenv, ae_can = (\<lambda>_. True), ae_below = CHR 0x00 \<rparr>"

text \<open>
  C9. Over any sequence of loading channels, starting and closing inputs, reconnects and EPG updates in
  which every event is in order, no pointer to a channel dangles, every channel object has one
  owner, and the next event that is in order does not use a freed object. In order means: a
  reload has a cookie no input carries and claims no input that is on its way out (when it does,
  the channel is freed under its users: the next property of this theory), and an EPG file has no
  section named like a key that is looked for.
\<close>

theorem channels_never_dangle:
  assumes "admin_reach A cf"
  shows "set (cf_channels cf) \<subseteq> dom (cf_store cf) \<and> in_chan ` set (cf_inputs cf) \<subseteq> dom (cf_store cf) \<and>
    distinct (cf_channels cf) \<and>
    (\<forall>r \<in> set (cf_inputs cf). in_freechannel r \<longleftrightarrow> in_chan r \<notin> set (cf_channels cf)) \<and>
    distinct (map in_chan (filter in_freechannel (cf_inputs cf))) \<and>
    (in_order A ev cf \<longrightarrow> admin_run A ev cf \<noteq> None)"
  using admin_reach_ok [OF assms] conf_okD(3-7) [OF admin_reach_ok [OF assms]] admin.never_fails [OF admin_reach_ok [OF assms], of A ev]
  by auto

text \<open>One channel loaded, its input started.\<close>

definition demo_running :: "nat config" where
  "demo_running = config_alloc\<lparr> cf_channels := [0], cf_store := [0 \<mapsto> demo_chan ''A'' ''udp://1''], cf_brk := 1,
     cf_inputs := [input_new (demo_chan ''A'' ''udp://1'') 0] \<rparr>"

lemma demo_running_reach: "admin_reach demo_admin demo_running"
proof -
  let ?c = "demo_chan ''A'' ''udp://1''"
  let ?cf = "config_alloc\<lparr> cf_channels := [0], cf_store := [0 \<mapsto> ?c], cf_brk := 1 \<rparr>"
  have s: "admin_reach demo_admin (config_alloc :: nat config)"
    using admin_reach.start [where A = demo_admin and nid = 0 and ts = "cf_timeouts config_alloc" and nits = "[]" and nm = None]
    by (simp add: config_alloc_def)
  have "switch_channels 5 [?c] config_alloc = Some ?cf"
    by (simp add: switch_channels_def config_alloc_def fun_eq_iff)
  then have "admin_reach demo_admin ?cf"
    by (intro admin_reach.event [OF s, of "Reload 5 [?c]"]) (simp_all add: demo_chan_good config_alloc_def)
  moreover have "admin_run demo_admin Spawn ?cf = Some demo_running"
    by (simp add: demo_running_def config_alloc_def)
  ultimately show ?thesis using admin_reach.event [of demo_admin _ Spawn] by simp
qed

theorem channels_never_dangle_witness:
  "admin_reach demo_admin demo_running \<and> in_chan ` set (cf_inputs demo_running) \<subseteq> dom (cf_store demo_running) \<and>
   admin_run demo_admin (Close 0) demo_running \<noteq> None"
  using channels_never_dangle [OF demo_running_reach, of "Close 0"] demo_running_reach
  by (auto simp: demo_running_def config_alloc_def)

text \<open>
  C19. An input that was told to stop and is still there when its channel comes back is given the
  new channel but keeps \<^verbatim>\<open>freechannel\<close>: when it ends it frees the channel the
  configuration and later inputs use, and the next EPG update uses a freed object.
\<close>

theorem revived_input_frees_channel:
  assumes "conf_ok cf" and "i < length (cf_inputs cf)" and "in_freechannel (cf_inputs cf ! i)"
    and "\<forall>c \<in> set cs. good c" and "distinct (map c_name cs)" and "distinct (map in_name (cf_inputs cf))"
    and "j < length cs" and "in_name (cf_inputs cf ! i) = c_name (cs ! j)" and "switch_channels ck cs cf = Some cf1"
  shows "\<exists>cf2. proxy_close i cf1 = Some cf2 \<and> cf_channels cf2 ! j \<in> set (cf_channels cf2) \<and>
    cf_store cf2 (cf_channels cf2 ! j) = None \<and> admin_run A (Epg None None) cf2 = None"
proof -
  let ?a = "cf_channels cf1 ! j"
  obtain old c' where s: "take_over ck ?a (cs ! j) old (cf_inputs cf ! i) = (c', cf_inputs cf1 ! i)"
    "cf_store cf1 ?a = Some c'"
    using switch_channels_sources [OF assms(1,4,5,6,9,2,7,8)] by blast
  have r: "in_freechannel (cf_inputs cf1 ! i)" "in_chan (cf_inputs cf1 ! i) = ?a"
    using take_over_frame(1) [OF s(1)] take_over_cookie [OF s(1)] assms(3) by (auto simp: claimed_def)
  have n: "j < length (cf_channels cf1)" using switch_phases [OF assms(1,4), of ck] assms(7,9) by (auto simp: new_addrs_def)
  define cf2 where "cf2 = cf1\<lparr> cf_inputs := take i (cf_inputs cf1) @ drop (i + 1) (cf_inputs cf1),
    cf_store := (cf_store cf1)(?a := None) \<rparr>"
  have c2: "proxy_close i cf1 = Some cf2" using r s(2) by (simp add: proxy_close_def Let_def cf2_def)
  have f: "on_channels f as h = None" if "a \<in> set as" "h a = None" "distinct as" for f :: "'a channel \<Rightarrow> 'a channel option" and as h a
    using that on_channels_Some [of f as h] by (cases "on_channels f as h") auto
  have "?a \<in> set (cf_channels cf2)" using n by (simp add: cf2_def)
  moreover have "cf_store cf2 ?a = None" by (simp add: cf2_def)
  moreover have "distinct (cf_channels cf2)"
    using switch_phases [OF assms(1,4), of ck] assms(9) by (auto simp: cf2_def new_addrs_def)
  ultimately have "on_channels (\<lambda>c. Some (channel_free_epg c)) (cf_channels cf2) (cf_store cf2) = None" using f by blast
  then have "admin_run A (Epg None None) cf2 = None" by (simp add: config_load_epg_def config_reset_channels_epg_def)
  with c2 n show ?thesis by (auto simp: cf2_def)
qed

theorem revived_input_frees_channel_witness:
  "\<exists>cf cf1 cf2. admin_reach demo_admin cf \<and> switch_channels 2 [demo_chan ''A'' ''udp://1''] cf = Some cf1 \<and>
     proxy_close 0 cf1 = Some cf2 \<and> admin_run demo_admin (Epg None None) cf2 = None"
proof -
  let ?c = "demo_chan ''A'' ''udp://1''"
  have o: "in_order demo_admin (Reload 1 []) demo_running"
    by (simp add: demo_running_def config_alloc_def input_new_def)
  obtain cf where cf: "switch_channels 1 [] demo_running = Some cf"
    using admin_run_ok [OF admin_reach_ok [OF demo_running_reach] o] by auto
  have r: "admin_reach demo_admin cf" using admin_reach.event [OF demo_running_reach o] cf by simp
  obtain copy :: "nat channel" where copy: "channel_new (service_id ?c) (radio ?c) (c_id ?c) ''A'' (eit_mode ?c) ''udp://1''
      (c_index ?c) (lcn ?c) (lcn_visible ?c) = Some copy"
    using demo_chan_good(1) [of "''A''" "''udp://1''"] by (simp add: channel_new_def good_def)
  have i: "cf_inputs cf = [(input_new ?c 0)\<lparr> in_chan := 1, in_freechannel := True, in_dienow := True \<rparr>]"
    using cf by (auto simp: switch_channels_def demo_running_def config_alloc_def input_new_def demo_chan_good copy)
  have g: "\<forall>c \<in> set [?c]. good c" by (simp add: demo_chan_good)
  obtain cf1 where cf1: "switch_channels 2 [?c] cf = Some cf1"
    using switch_phases [OF admin_reach_ok [OF r] g] by blast
  from revived_input_frees_channel [OF admin_reach_ok [OF r] _ _ g _ _ _ _ cf1, of 0 0 demo_admin] cf1 r show ?thesis
    by (auto simp: i input_new_def demo_chan_good)
qed


end
