(* ===== verification/Chanfile.thy ===== *)
theory Chanfile
  imports Config
begin

text \<open>
  The channels file as a whole: what the ini parser and the loader of
  \<^verbatim>\<open>src/config.c\<close> make of it together. A file written from a list of channels
  gives these channels, and every file gives channels with PIDs of their own.
\<close>

section \<open>A channels file\<close>

record chan_entry =
  ce_index :: nat
  ce_sid :: nat
  ce_id :: string
  ce_name :: string
  ce_urls :: "string list"

definition chan_keys :: "chan_entry \<Rightarrow> (string \<times> string) list" where
  "chan_keys e =
     [(''service_id'', show_nat (ce_sid e)), (''id'', ce_id e), (''name'', ce_name e)] @
     map (\<lambda>j. (''source'' @ show_nat (Suc j), ce_urls e ! j)) [0..<length (ce_urls e)]"

definition chan_section :: "chan_entry \<Rightarrow> string \<times> (string \<times> string) list" where
  "chan_section e = (''channel'' @ show_nat (ce_index e), chan_keys e)"

definition entry_ok :: "chan_entry \<Rightarrow> bool" where
  "entry_ok e \<longleftrightarrow>
     1 \<le> ce_index e \<and> ce_index e < 32 \<and> 0 < ce_sid e \<and> ce_sid e < 2 ^ 31 \<and>
     plain_value (ce_id e) \<and> plain_value (ce_name e) \<and> ce_urls e \<noteq> [] \<and> length (ce_urls e) \<le> 7 \<and>
     (\<forall>u \<in> set (ce_urls e). plain_value u \<and> is_valid_url u)"

text \<open>The channel an entry stands for.\<close>

definition chan_of :: "chan_entry \<Rightarrow> 'e channel" where
  "chan_of e =
     fold (\<lambda>u c. chansrc_add c u) (tl (ce_urls e))
       (the (channel_new (int (ce_sid e)) 0 (ce_id e) (ce_name e) 0 (hd (ce_urls e)) (int (ce_index e)) 0 0))"

section \<open>Keys\<close>

lemma isdigit_colon [simp]: "\<not> isdigit CHR '':''"
  by (simp add: isdigit_def char_code_def)

lemma show_nat_inj [simp]: "show_nat i = show_nat j \<longleftrightarrow> i = j"
  by (metis eat_show_nat)

lemma digits_prefix: "\<forall>c \<in> set a. isdigit c \<Longrightarrow> takeWhile isdigit (a @ CHR '':'' # k) = a"
  by (simp add: takeWhile_stop)

lemma chan_key_eq [simp]: "show_nat i @ CHR '':'' # k = show_nat j @ CHR '':'' # k' \<longleftrightarrow> i = j \<and> k = k'"
proof
  assume e: "show_nat i @ CHR '':'' # k = show_nat j @ CHR '':'' # k'"
  from arg_cong [OF e, of "takeWhile isdigit"] have "i = j" by (simp add: digits_prefix show_nat_digits)
  with e show "i = j \<and> k = k'" by simp
qed simp

lemma colon_not_digit: "CHR '':'' \<notin> set (show_nat i)"
  using show_nat_digits [of i] isdigit_colon by blast

lemma chan_key_section: "''channel'' @ show_nat i @ CHR '':'' # k \<noteq> ''channel'' @ show_nat j"
proof
  assume e: "''channel'' @ show_nat i @ CHR '':'' # k = ''channel'' @ show_nat j"
  have "CHR '':'' \<in> set (''channel'' @ show_nat j)" unfolding e [symmetric] by simp
  with colon_not_digit [of j] show False by simp
qed

lemma key_not_number [simp]:
  "show_nat i @ CHR '':'' # k \<noteq> show_nat j" "show_nat j \<noteq> show_nat i @ CHR '':'' # k"
  using colon_not_digit [of j] by (metis in_set_conv_decomp)+

lemma tolower_digits: "\<forall>c \<in> set s. isdigit c \<Longrightarrow> map tolower s = s"
  by (induction s) (auto simp: tolower_def isupper_def isdigit_def)

lemma show_nat_short: "n < 100 \<Longrightarrow> length (show_nat n) \<le> 2"
  by (subst show_nat.simps) (auto simp: show_nat.simps [of "n div 10"])

text \<open>The key the loader asks for, after cutting and lower-casing.\<close>

lemma num_key_lower:
  assumes "map tolower suf = suf" and "length suf \<le> 100" and "i < 100"
  shows "strlwc (handle_format (num_key ''Channel'' i suf)) = ''channel'' @ show_nat i @ suf"
proof -
  have "length (num_key ''Channel'' i suf) \<le> 126"
    using show_nat_short [OF assms(3)] assms(2) by (simp add: num_key_def)
  then have "strlwc (handle_format (num_key ''Channel'' i suf)) = map tolower (num_key ''Channel'' i suf)"
    by (simp add: strlwc_def handle_format_def ASCIILINESZ_def)
  also have "map tolower (num_key ''Channel'' i suf) = map tolower ''Channel'' @ show_nat i @ suf"
    using assms(1) tolower_digits [OF show_nat_digits [of i]] by (simp add: num_key_def)
  also have "map tolower ''Channel'' = ''channel''" by code_simp
  finally show ?thesis .
qed

section \<open>The map of the file\<close>

lemma lookup_in_section:
  "map_of (map (\<lambda>kv. (s @ CHR '':'' # fst kv, Some (snd kv))) kvs) (s @ CHR '':'' # k) = map_option Some (map_of kvs k)"
  by (induction kvs) auto

lemma lookup_other_section:
  "i \<noteq> j \<Longrightarrow> map_of (map (\<lambda>kv. (''channel'' @ show_nat j @ CHR '':'' # fst kv, Some (snd kv))) kvs)
     (''channel'' @ show_nat i @ CHR '':'' # k) = None"
  by (induction kvs) simp_all

lemma lookup_file:
  assumes "distinct (map ce_index es)"
  shows "map_of (concat (map section_entries (map chan_section es))) (''channel'' @ show_nat i @ CHR '':'' # k) =
    (case find (\<lambda>e. ce_index e = i) es of None \<Rightarrow> None | Some e \<Rightarrow> map_option Some (map_of (chan_keys e) k))"
  using assms
proof (induction es)
  case (Cons e es)
  let ?key = "''channel'' @ show_nat i @ CHR '':'' # k"
  have split: "map_of (concat (map section_entries (map chan_section (e # es)))) ?key =
    (map_of (concat (map section_entries (map chan_section es))) ++
     map_of (map (\<lambda>kv. (''channel'' @ show_nat (ce_index e) @ CHR '':'' # fst kv, Some (snd kv))) (chan_keys e))) ?key"
    using chan_key_section [of i k "ce_index e"] by (simp add: section_entries_def chan_section_def map_add_def)
  show ?case
  proof (cases "ce_index e = i")
    case True
    then have "\<forall>x \<in> set es. ce_index x \<noteq> i" using Cons.prems by (auto simp: image_iff)
    then have "find (\<lambda>e. ce_index e = i) es = None" by (auto simp: find_None_iff)
    with Cons True show ?thesis
      unfolding split using lookup_in_section [of "''channel'' @ show_nat i" "chan_keys e" k]
      by (simp add: map_add_def split: option.splits)
  next
    case False
    then have "i \<noteq> ce_index e" by simp
    from lookup_other_section [OF this, of "chan_keys e" k] Cons False show ?thesis
      unfolding split map_add_def by (simp del: append_Cons)
  qed
qed simp

lemma source_key_inj: "''source'' @ show_nat a = ''source'' @ show_nat b \<longleftrightarrow> a = b"
  by simp

lemma chan_keys_simps:
  "map_of (chan_keys e) ''service_id'' = Some (show_nat (ce_sid e))" "map_of (chan_keys e) ''id'' = Some (ce_id e)"
  "map_of (chan_keys e) ''name'' = Some (ce_name e)"
  by (simp_all add: chan_keys_def)

lemma chan_keys_none:
  assumes "k \<notin> {''service_id'', ''id'', ''name''}" and "\<And>j. k \<noteq> ''source'' @ show_nat (Suc j)"
  shows "map_of (chan_keys e) k = None"
proof (rule ccontr)
  assume "map_of (chan_keys e) k \<noteq> None"
  then have "k \<in> fst ` set (chan_keys e)" by (simp add: map_of_eq_None_iff)
  then have "k \<in> {''service_id'', ''id'', ''name''} \<or> (\<exists>j. k = ''source'' @ show_nat (Suc j))"
    by (auto simp: chan_keys_def)
  with assms show False by blast
qed

lemma map_of_indexed:
  "(\<And>a b. f a = f b \<Longrightarrow> a = b) \<Longrightarrow>
   map_of (map (\<lambda>j. (f j, g j)) [0..<n]) (f j) = (if j < n then Some (g j) else None)"
  by (induction n) (auto simp: map_add_def less_Suc_eq)

lemma chan_keys_source:
  "map_of (chan_keys e) (''source'' @ show_nat (Suc j)) = (if j < length (ce_urls e) then Some (ce_urls e ! j) else None)"
  using map_of_indexed [of "\<lambda>j. ''source'' @ show_nat (Suc j)" "\<lambda>j. ce_urls e ! j" "length (ce_urls e)" j]
  by (simp add: chan_keys_def)

section \<open>The loader on that map\<close>

text \<open>What the queries of the loader find for channel \<open>i\<close> under key \<open>suf\<close>.\<close>

definition answers :: "dictionary \<Rightarrow> chan_entry list \<Rightarrow> bool" where
  "answers d es \<longleftrightarrow> dict_ok d \<and>
     (\<forall>i k. dict_map d (''channel'' @ show_nat i @ CHR '':'' # k) =
        (case find (\<lambda>e. ce_index e = i) es of None \<Rightarrow> None | Some e \<Rightarrow> map_option Some (map_of (chan_keys e) k)))"

lemma entry_query:
  assumes "answers d es" and "i < 100" and "map tolower k = k" and "length k \<le> 90"
  shows "ini_get_int (Some d) v (num_key ''Channel'' i (CHR '':'' # k)) =
      (case find (\<lambda>e. ce_index e = i) es of None \<Rightarrow> Some v
       | Some e \<Rightarrow> (case map_of (chan_keys e) k of None \<Rightarrow> Some v | Some s \<Rightarrow> Some (to_int32 (strtol 0 s))))"
    and "str_at d (num_key ''Channel'' i (CHR '':'' # k)) =
      (case find (\<lambda>e. ce_index e = i) es of None \<Rightarrow> None | Some e \<Rightarrow> map_of (chan_keys e) k)"
    and "(\<And>e. find (\<lambda>e. ce_index e = i) es = Some e \<Longrightarrow> map_of (chan_keys e) k = None) \<Longrightarrow>
      ini_get_bool (Some d) v (num_key ''Channel'' i (CHR '':'' # k)) = Some v"
proof -
  have "map tolower (CHR '':'' # k) = CHR '':'' # k" using assms(3) by (simp add: tolower_def isupper_def char_code_def)
  from num_key_lower [OF this _ assms(2)] assms(4)
  have key: "strlwc (handle_format (num_key ''Channel'' i (CHR '':'' # k))) = ''channel'' @ show_nat i @ CHR '':'' # k" by simp
  note Q = queries_map [of d, unfolded key] and A = assms(1) [unfolded answers_def]
  show "ini_get_int (Some d) v (num_key ''Channel'' i (CHR '':'' # k)) =
      (case find (\<lambda>e. ce_index e = i) es of None \<Rightarrow> Some v
       | Some e \<Rightarrow> (case map_of (chan_keys e) k of None \<Rightarrow> Some v | Some s \<Rightarrow> Some (to_int32 (strtol 0 s))))"
    using queries_map(1) [of d v "num_key ''Channel'' i (CHR '':'' # k)"] A unfolding key by (simp split: option.splits)
  show "str_at d (num_key ''Channel'' i (CHR '':'' # k)) =
      (case find (\<lambda>e. ce_index e = i) es of None \<Rightarrow> None | Some e \<Rightarrow> map_of (chan_keys e) k)"
    using queries_map(2) [of d "num_key ''Channel'' i (CHR '':'' # k)"] A unfolding key by (simp split: option.splits)
  show "ini_get_bool (Some d) v (num_key ''Channel'' i (CHR '':'' # k)) = Some v"
    if "\<And>e. find (\<lambda>e. ce_index e = i) es = Some e \<Longrightarrow> map_of (chan_keys e) k = None"
    using queries_map(3) [of d "num_key ''Channel'' i (CHR '':'' # k)" v] A that unfolding key by (simp split: option.splits)
qed

lemma strtol0_show_nat:
  assumes "0 < n" and "n < 2 ^ 31"
  shows "to_int32 (strtol 0 (show_nat n)) = int n"
proof -
  obtain c cs where s: "show_nat n = c # cs" by (metis list.exhaust show_nat_nonempty)
  have dig: "\<forall>c \<in> set (show_nat n). isdigit c" by (rule show_nat_digits)
  have c0: "c \<noteq> CHR ''0''"
  proof
    assume c: "c = CHR ''0''"
    have "hd (show_nat m) \<noteq> CHR ''0''" if "0 < m" for m
      using that
    proof (induction m rule: show_nat.induct)
      case (1 m)
      show ?case
      proof (cases "m < 10")
        case True
        have "char_code CHR ''0'' = 48" by (simp add: char_code_def)
        moreover have "char_code (char_of (48 + m)) = 48 + m" using True by (intro char_code_char_of) simp
        ultimately have "char_of (48 + m) \<noteq> CHR ''0''" using 1(2) by auto
        with True show ?thesis by (subst show_nat.simps) auto
      next
        case False
        with 1 show ?thesis by (subst show_nat.simps) (simp add: hd_append show_nat_nonempty)
      qed
    qed
    from this [OF assms(1)] c s show False by simp
  qed
  have hex: "\<not> has_hex_prefix (show_nat n)" using c0 by (auto simp: has_hex_prefix_def s split: list.splits)
  have "isdigit c" using dig s by simp
  then have "take_sign (dropWhile isspace (show_nat n)) = (False, show_nat n)"
    using digit_not_space_sign [of c] by (simp add: s take_sign_def)
  moreover have "strtol_base 0 (show_nat n) = (10, show_nat n)" using hex c0 by (simp add: strtol_base_def s)
  ultimately have "strtol 0 (show_nat n) = int n" using assms(2) by (simp add: strtol_def eat_show_nat clamp_long_def)
  with assms(2) show ?thesis by (simp add: to_int32_id)
qed

lemma source_at_entry:
  assumes "answers d es" and "i < 100" and "find (\<lambda>e. ce_index e = i) es = Some e" and "ce_urls e \<noteq> []" and "j < 99"
  shows "source_at d i (Suc j) = (if j < length (ce_urls e) then Some (ce_urls e ! j) else None)"
proof -
  have "map tolower (''source'' @ show_nat (Suc j)) = ''source'' @ show_nat (Suc j)"
    using tolower_digits [OF show_nat_digits] by (simp add: tolower_def isupper_def char_code_def)
  moreover have "length (''source'' @ show_nat (Suc j)) \<le> 90" using show_nat_short [of "Suc j"] assms(5) by simp
  ultimately have "str_at d (num_key ''Channel'' i (CHR '':'' # ''source'' @ show_nat (Suc j))) =
      (if j < length (ce_urls e) then Some (ce_urls e ! j) else None)"
    using entry_query(2) [OF assms(1,2)] assms(3) chan_keys_source [of e j] by simp
  then show ?thesis using assms(4) by (auto simp: source_at_def)
qed

lemma fold_sources_tail: "fold (\<lambda>j. add_source new (src j)) js x = x" if "\<And>j. j \<in> set js \<Longrightarrow> src j = None"
  using that by (induction js arbitrary: x) (simp_all add: add_source_def)

lemma fold_sources_more:
  "\<forall>u \<in> set us. is_valid_url u \<Longrightarrow>
   fold (\<lambda>u. add_source new (Some u)) us (Some c) = Some (fold (\<lambda>u c. chansrc_add c u) us c)"
  by (induction us arbitrary: c) (simp_all add: add_source_def)

lemma fold_sources:
  assumes "\<And>j. j < 7 \<Longrightarrow> src (Suc j) = (if j < length us then Some (us ! j) else None)" and "us \<noteq> []" and "length us \<le> 7"
    and "\<forall>u \<in> set us. is_valid_url u" and "new (hd us) = Some c"
  shows "fold (\<lambda>j. add_source new (src j)) [1..<8] None = Some (fold (\<lambda>u c. chansrc_add c u) (tl us) c)"
proof -
  have split: "[1..<8] = map Suc [0..<length us] @ map Suc [length us..<7]"
  proof -
    have "[0..<7] = [0..<length us] @ [length us..<7]" using assms(3) upt_add_eq_append [of 0 "length us" "7 - length us"] by simp
    moreover have "[1..<8] = map Suc [0..<7]" unfolding map_Suc_upt by simp
    ultimately show ?thesis by (metis map_append)
  qed
  have tail: "fold (\<lambda>j. add_source new (src j)) (map Suc [length us..<7]) x = x" for x
  proof (rule fold_sources_tail)
    fix j assume "j \<in> set (map Suc [length us..<7])"
    then obtain j' where "j = Suc j'" "length us \<le> j'" "j' < 7" by (auto simp del: image_Suc_atLeastLessThan)
    with assms(1) [of j'] show "src j = None" by simp
  qed
  have "fold (\<lambda>j. add_source new (src j)) (map Suc [0..<length us]) None =
      fold (\<lambda>u. add_source new (Some u)) (map (\<lambda>j. us ! j) [0..<length us]) None"
    unfolding fold_map by (rule fold_cong) (use assms(1,3) in auto)
  also have "map (\<lambda>j. us ! j) [0..<length us] = us" by (rule map_nth)
  also have "fold (\<lambda>u. add_source new (Some u)) us None = Some (fold (\<lambda>u c. chansrc_add c u) (tl us) c)"
  proof (cases us)
    case (Cons u us')
    then have "add_source new (Some u) None = Some c" using assms(4,5) by (simp add: add_source_def)
    with Cons assms(4) fold_sources_more [of us' new c] show ?thesis by simp
  qed (use assms(2) in simp)
  finally show ?thesis unfolding split fold_append comp_def tail .
qed

lemma load_channel_entry:
  assumes "answers d es" and "i < 32" and "\<forall>e \<in> set es. entry_ok e"
  shows "load_channel d i = Some (map_option chan_of (find (\<lambda>e. ce_index e = i) es))"
proof (cases "find (\<lambda>e. ce_index e = i) es")
  case None
  then show ?thesis using entry_query(1) [OF assms(1), of i "''service_id''" 0] assms(2)
    by (simp add: load_channel_def tolower_def isupper_def char_code_def)
next
  case (Some e)
  have i: "i < 100" using assms(2) by simp
  have e: "e \<in> set es" "ce_index e = i" using Some by (auto simp: find_Some_iff)
  then have ok: "entry_ok e" using assms(3) by blast
  have low: "map tolower k = k" if "k \<in> {''service_id'', ''radio'', ''lcn'', ''lcn_visible'', ''id'', ''name'', ''eit_mode'', ''worktime''}" for k
    using that by (auto simp: tolower_def isupper_def char_code_def)
  have none: "map_of (chan_keys e) k = None" if "k \<in> {''radio'', ''lcn'', ''lcn_visible'', ''eit_mode'', ''worktime''}" for k
    by (rule chan_keys_none) (use that in auto)
  note Q = entry_query [OF assms(1) i low, unfolded Some option.case]
  have sid: "ini_get_int (Some d) 0 (num_key ''Channel'' i '':service_id'') = Some (int (ce_sid e))"
    using Q(1) [of "''service_id''" 0] ok by (simp add: chan_keys_simps strtol0_show_nat entry_ok_def)
  have ints: "ini_get_int (Some d) 0 (num_key ''Channel'' i '':lcn'') = Some 0"
    "ini_get_int (Some d) 0 (num_key ''Channel'' i '':eit_mode'') = Some 0"
    using Q(1) [of "''lcn''" 0] Q(1) [of "''eit_mode''" 0] none by simp_all
  have bools: "ini_get_bool (Some d) 0 (num_key ''Channel'' i '':radio'') = Some 0"
    "ini_get_bool (Some d) 0 (num_key ''Channel'' i '':lcn_visible'') = Some 0"
    using Q(3) [of "''radio''" 0] Q(3) [of "''lcn_visible''" 0] none by simp_all
  have strs: "str_at d (num_key ''Channel'' i '':id'') = Some (ce_id e)" "str_at d (num_key ''Channel'' i '':name'') = Some (ce_name e)"
    "str_at d (num_key ''Channel'' i '':worktime'') = None"
    using Q(2) [of "''id''"] Q(2) [of "''name''"] Q(2) [of "''worktime''"] none by (simp_all add: chan_keys_simps)
  obtain c :: "'a channel" where c: "channel_new (int (ce_sid e)) 0 (ce_id e) (ce_name e) 0 (hd (ce_urls e)) (int i) 0 0 = Some c"
    using ok e(2) by (auto simp: channel_new_def entry_ok_def)
  have "fold (\<lambda>j. add_source (\<lambda>url. channel_new (int (ce_sid e)) 0 (ce_id e) (ce_name e) 0 url (int i) 0 0) (source_at d i j)) [1..<8] None =
      Some (fold (\<lambda>u c. chansrc_add c u) (tl (ce_urls e)) c)"
    by (rule fold_sources [where us = "ce_urls e" and c = c])
      (use c ok source_at_entry [OF assms(1) i Some] in \<open>auto simp: entry_ok_def\<close>)
  also have "\<dots> = Some (chan_of e)" using c e(2) by (simp add: chan_of_def)
  finally show ?thesis using ok Some sid ints bools strs
    by (simp add: load_channel_def set_worktime_def entry_ok_def del: One_nat_def)
qed


section \<open>Properties\<close>

lemma fold_add_sources:
  assumes "chan_ok c" and "num_src c + length us \<le> 7"
  shows "num_src (fold (\<lambda>u c. chansrc_add c u) us c) = num_src c + length us \<and>
    (\<forall>k < num_src c + length us. sources (fold (\<lambda>u c. chansrc_add c u) us c) ! k =
       (if k < num_src c then sources c ! k else Some (us ! (k - num_src c)))) \<and>
    (0 < num_src c \<longrightarrow> source (fold (\<lambda>u c. chansrc_add c u) us c) = source c) \<and>
    service_id (fold (\<lambda>u c. chansrc_add c u) us c) = service_id c \<and> c_index (fold (\<lambda>u c. chansrc_add c u) us c) = c_index c \<and>
    c_id (fold (\<lambda>u c. chansrc_add c u) us c) = c_id c \<and> c_name (fold (\<lambda>u c. chansrc_add c u) us c) = c_name c"
  using assms
proof (induction us arbitrary: c)
  case (Cons u us)
  have n: "num_src (chansrc_add c u) = num_src c + 1"
    using Cons.prems(2) by (simp add: chansrc_add_def Let_def MAX_CHANNEL_SOURCES_def)
  have s: "0 < num_src c \<Longrightarrow> source (chansrc_add c u) = source c" by (simp add: chansrc_add_def Let_def)
  note S = chansrc_add_sources(1) [OF Cons.prems(1), of _ u, unfolded n]
  from Cons.IH [OF chansrc_add_ok [OF Cons.prems(1)], of u] Cons.prems(2) n s S show ?case
    by (auto simp: nth_Cons' less_Suc_eq split: if_splits)
qed simp

text \<open>The channel of an entry.\<close>

definition describes :: "chan_entry \<Rightarrow> 'e channel \<Rightarrow> bool" where
  "describes e c \<longleftrightarrow>
     c_index c = int (ce_index e) \<and> service_id c = int (ce_sid e) \<and> c_id c = ce_id e \<and> c_name c = ce_name e \<and>
     num_src c = length (ce_urls e) \<and> (\<forall>k < length (ce_urls e). sources c ! k = Some (ce_urls e ! k)) \<and>
     source c = Some (hd (ce_urls e))"

lemma chan_of_describes:
  assumes "entry_ok e"
  shows "describes e (chan_of e :: 'a channel)"
proof -
  obtain c :: "'a channel"
    where c: "channel_new (int (ce_sid e)) 0 (ce_id e) (ce_name e) 0 (hd (ce_urls e)) (int (ce_index e)) 0 0 = Some c"
    using assms by (auto simp: channel_new_def entry_ok_def)
  have co: "chan_of e = fold (\<lambda>u c. chansrc_add c u) (tl (ce_urls e)) c" by (simp add: chan_of_def c)
  note F = channel_new_gives [OF c]
  obtain u us where us: "ce_urls e = u # us" using assms by (cases "ce_urls e") (auto simp: entry_ok_def)
  have "num_src c + length us \<le> 7" using assms us F(6) by (simp add: entry_ok_def)
  from fold_add_sources [OF channel_new_ok [OF c] this] F show ?thesis
    unfolding describes_def co us by (auto simp: nth_Cons')
qed

lemma digit_plain:
  assumes "isdigit c"
  shows "\<not> isspace c" "c \<noteq> CHR '']''" "c \<noteq> CHR ''=''" "c \<noteq> newline" "c \<noteq> CHR '';''" "c \<noteq> CHR ''#''" "c \<noteq> CHR 0x22"
    "c \<noteq> CHR 0x27" "c \<noteq> CHR 0x5C"
  using assms by (auto simp: char_defs newline_def)

lemma show_nat_ends:
  "show_nat n \<noteq> []" "isdigit (hd (show_nat n))" "isdigit (last (show_nat n))"
  using show_nat_digits [of n] show_nat_nonempty [of n] by auto

lemma show_nat_length: "n < 10 ^ k \<Longrightarrow> 0 < k \<Longrightarrow> length (show_nat n) \<le> k"
proof (induction k arbitrary: n)
  case (Suc k)
  show ?case
  proof (cases "n < 10")
    case True
    then show ?thesis by (subst show_nat.simps) simp
  next
    case False
    then have "0 < k" using Suc.prems by (cases k) auto
    moreover have "n div 10 < 10 ^ k" using Suc.prems(1) by (simp add: less_mult_imp_div_less mult.commute)
    ultimately show ?thesis using Suc.IH [of "n div 10"] False by (subst show_nat.simps) simp
  qed
qed simp

lemma show_nat_no: "\<not> isdigit c \<Longrightarrow> c \<notin> set (show_nat n)"
  using show_nat_digits [of n] by blast

lemma marks_no_digit [simp]:
  "\<not> isdigit newline" "\<not> isdigit CHR '']''" "\<not> isdigit CHR ''=''" "\<not> isdigit CHR '';''" "\<not> isdigit CHR ''#''"
  by (auto simp: char_defs newline_def)

lemma show_nat_trimmed: "trimmed (show_nat n)"
  using show_nat_ends [of n] show_nat_no [of newline n] digit_plain(1) by (simp add: trimmed_def)

lemma show_nat_value: "n < 2 ^ 31 \<Longrightarrow> plain_value (show_nat n)"
  using show_nat_length [of n 10] show_nat_trimmed [of n] show_nat_no [of "CHR '';''" n] show_nat_no [of "CHR ''#''" n] show_nat_ends [of n] digit_plain(7-9)
  by (simp add: plain_value_def)

text \<open>A name and a number make a name.\<close>

lemma numbered_name:
  assumes "plain_name s" and "n < 100" and "length s \<le> 50"
  shows "plain_name (s @ show_nat n)"
  using assms show_nat_length [of n 2] show_nat_ends [of n] show_nat_no [of newline n] digit_plain(1) tolower_digits [OF show_nat_digits [of n]]
  by (auto simp: plain_name_def trimmed_def)

lemma source_key_plain: "j < 100 \<Longrightarrow> plain_key (''source'' @ show_nat j)"
proof -
  assume "j < 100"
  moreover have "plain_name ''source''" by code_simp
  ultimately have "plain_name (''source'' @ show_nat j)" by (intro numbered_name) auto
  then show ?thesis using show_nat_no [of "CHR ''=''" j] by (simp add: plain_key_def)
qed

lemma channel_section_plain: "j < 100 \<Longrightarrow> plain_section (''channel'' @ show_nat j)"
proof -
  assume "j < 100"
  moreover have "plain_name ''channel''" by code_simp
  ultimately have "plain_name (''channel'' @ show_nat j)" by (intro numbered_name) auto
  then show ?thesis using show_nat_no [of "CHR '']''" j] by (simp add: plain_section_def)
qed

lemma render_plain:
  assumes "\<forall>e \<in> set es. entry_ok e"
  shows "plain_ini (map chan_section es)"
proof -
  have keys: "plain_key ''service_id''" "plain_key ''id''" "plain_key ''name''" by code_simp+
  have "plain_section (fst (chan_section e)) \<and> (\<forall>kv \<in> set (snd (chan_section e)). plain_key (fst kv) \<and> plain_value (snd kv))"
    if "e \<in> set es" for e
  proof -
    have ok: "entry_ok e" using assms that by blast
    then have "plain_section (''channel'' @ show_nat (ce_index e))"
      by (intro channel_section_plain) (simp add: entry_ok_def)
    moreover have "plain_value (show_nat (ce_sid e))" using ok by (intro show_nat_value) (simp add: entry_ok_def)
    moreover have "plain_key (''source'' @ show_nat (Suc j)) \<and> plain_value (ce_urls e ! j)" if "j < length (ce_urls e)" for j
      using ok that by (intro conjI source_key_plain) (auto simp: entry_ok_def)
    ultimately show ?thesis using ok keys by (auto simp: chan_section_def chan_keys_def entry_ok_def)
  qed
  then show ?thesis by (auto simp: plain_ini_def)
qed

text \<open>All entries, in the order of their numbers.\<close>

lemma load_channel_list_entries:
  assumes "answers d es" and "\<forall>e \<in> set es. entry_ok e" and "set ks \<subseteq> {..<32}"
  shows "(load_channel_list d ks :: 'e channel list option) = Some (map chan_of (concat (map (\<lambda>i. case find (\<lambda>e. ce_index e = i) es of None \<Rightarrow> [] | Some e \<Rightarrow> [e]) ks)))"
  using assms(3)
proof (induction ks)
  case (Cons i ks)
  then have "(load_channel d i :: 'e channel option option) = Some (map_option chan_of (find (\<lambda>e. ce_index e = i) es))"
    by (intro load_channel_entry [OF assms(1) _ assms(2)]) simp
  with Cons show ?case by (auto split: option.splits)
qed simp

lemma entries_in_order:
  assumes "sorted_wrt (<) (map ce_index es)" and "set (map ce_index es) \<subseteq> {a..<b}"
  shows "concat (map (\<lambda>i. case find (\<lambda>e. ce_index e = i) es of None \<Rightarrow> [] | Some e \<Rightarrow> [e]) [a..<b]) = es"
  using assms
proof (induction "b - a" arbitrary: a es)
  case 0
  then show ?case by simp
next
  case (Suc n)
  then have ab: "a < b" "n = b - Suc a" by auto
  show ?case
  proof (cases "\<exists>e es'. es = e # es' \<and> ce_index e = a")
    case True
    then obtain e es' where es: "es = e # es'" "ce_index e = a" by blast
    have later: "set (map ce_index es') \<subseteq> {Suc a..<b}"
    proof
      fix i assume i: "i \<in> set (map ce_index es')"
      then have "ce_index e < i" using Suc.prems(1) es(1) by auto
      moreover have "i < b" using Suc.prems(2) i es(1) by auto
      ultimately show "i \<in> {Suc a..<b}" using es(2) by simp
    qed
    have same: "map (\<lambda>i. case find (\<lambda>e. ce_index e = i) es of None \<Rightarrow> [] | Some e \<Rightarrow> [e]) [Suc a..<b] =
        map (\<lambda>i. case find (\<lambda>e. ce_index e = i) es' of None \<Rightarrow> [] | Some e \<Rightarrow> [e]) [Suc a..<b]"
      by (rule map_cong) (auto simp: es)
    have "concat (map (\<lambda>i. case find (\<lambda>e. ce_index e = i) es' of None \<Rightarrow> [] | Some e \<Rightarrow> [e]) [Suc a..<b]) = es'"
      using Suc.hyps(1) [OF ab(2), of es'] Suc.prems(1) later es(1) by simp
    then show ?thesis using ab(1) es unfolding upt_conv_Cons [OF ab(1)] list.map concat.simps same by simp
  next
    case False
    have later: "set (map ce_index es) \<subseteq> {Suc a..<b}"
    proof (cases es)
      case (Cons e es')
      with False have "ce_index e \<noteq> a" by blast
      with Suc.prems Cons show ?thesis by fastforce
    qed simp
    then have "\<forall>e \<in> set es. ce_index e \<noteq> a" by auto
    then have "find (\<lambda>e. ce_index e = a) es = None" by (auto simp: find_None_iff)
    with Suc.hyps(1) [OF ab(2) Suc.prems(1) later] ab(1) show ?thesis by (simp add: upt_conv_Cons)
  qed
qed

text \<open>The section names and keys of a file are distinct.\<close>

lemma file_keys_distinct:
  assumes "distinct (map ce_index es)"
  shows "distinct (map fst (concat (map section_entries (map chan_section es))))"
proof -
  have keys: "map fst (section_entries (chan_section e)) =
      (''channel'' @ show_nat (ce_index e)) # map (\<lambda>k. ''channel'' @ show_nat (ce_index e) @ CHR '':'' # k) (map fst (chan_keys e))" for e
    by (simp add: section_entries_def chan_section_def)
  have dk: "distinct (map fst (chan_keys e))" for e
    by (auto simp: chan_keys_def distinct_map comp_def inj_on_def)
  show ?thesis
    using assms
  proof (induction es)
    case (Cons e es)
    have "distinct (map fst (section_entries (chan_section e)))"
      unfolding keys using chan_key_section [of "ce_index e" _ "ce_index e"] dk [of e]
      by (auto simp: distinct_map inj_on_def)
    moreover have "x \<notin> fst ` set (concat (map section_entries (map chan_section es)))"
      if x: "x \<in> set (map fst (section_entries (chan_section e)))" for x
    proof
      assume "x \<in> fst ` set (concat (map section_entries (map chan_section es)))"
      then obtain e' where e': "e' \<in> set es" "x \<in> set (map fst (section_entries (chan_section e')))" by auto
      then have "ce_index e' \<noteq> ce_index e" using Cons.prems by (auto simp: image_iff)
      with x e'(2) show False
        unfolding keys using chan_key_section [of "ce_index e" _ "ce_index e'"] chan_key_section [of "ce_index e'" _ "ce_index e"] by auto
    qed
    ultimately show ?case using Cons by auto
  qed simp
qed

lemma channels_file_loaded:
  assumes "\<forall>e \<in> set es. entry_ok e" and "sorted_wrt (<) (map ce_index es)" and "below \<noteq> CHR 0x5C"
  shows "\<exists>d cs. iniparser_load (\<lambda>_. True) below (Some (unlines (render_ini (map chan_section es)))) = Inr d \<and>
    load_channel_list d [1..<32] = Some cs \<and> list_all2 describes es (cs :: 'e channel list)"
proof -
  have dist: "distinct (map ce_index es)" using assms(2) by (metis strict_sorted_iff)
  obtain d where d: "iniparser_load (\<lambda>_. True) below (Some (unlines (render_ini (map chan_section es)))) = Inr d" "dict_ok d"
    "dict_map d = map_of (concat (map section_entries (map chan_section es)))"
    using iniparser_roundtrip [OF render_plain [OF assms(1)] file_keys_distinct [OF dist] assms(3)] by blast
  have "answers d es" using d(2) lookup_file [OF dist] by (simp add: answers_def d(3) del: append_Cons map_map)
  moreover have "set [1..<32] \<subseteq> {..<32::nat}" by auto
  ultimately
  have "(load_channel_list d [1..<32] :: 'e channel list option) =
      Some (map chan_of (concat (map (\<lambda>i. case find (\<lambda>e. ce_index e = i) es of None \<Rightarrow> [] | Some e \<Rightarrow> [e]) [1..<32])))"
    by (intro load_channel_list_entries assms(1))
  moreover have "set (map ce_index es) \<subseteq> {1..<32}" using assms(1) by (auto simp: entry_ok_def)
  note entries_in_order [OF assms(2) this]
  ultimately have "load_channel_list d [1..<32] = Some (map chan_of es :: 'e channel list)" by (simp only:)
  moreover have "list_all2 describes es (map chan_of es :: 'e channel list)"
    using assms(1) by (simp add: list_all2_conv_all_nth chan_of_describes)
  ultimately show ?thesis using d(1) by blast
qed

definition demo_entries :: "chan_entry list" where
  "demo_entries =
     [\<lparr> ce_index = 2, ce_sid = 7, ce_id = ''a'', ce_name = ''A'', ce_urls = [''udp://1'', ''http://h/x''] \<rparr>,
      \<lparr> ce_index = 5, ce_sid = 9, ce_id = ''b'', ce_name = ''B'', ce_urls = [''rtp://2:5''] \<rparr>]"

lemma demo_urls:
  "is_valid_url ''udp://1''" "is_valid_url ''http://h/x''" "is_valid_url ''rtp://2:5''"
  by code_simp+

lemma demo_values:
  "plain_value ''a''" "plain_value ''A''" "plain_value ''b''" "plain_value ''B''"
  "plain_value ''udp://1''" "plain_value ''http://h/x''" "plain_value ''rtp://2:5''"
  by code_simp+

lemma demo_entries_ok: "\<forall>e \<in> set demo_entries. entry_ok e" "sorted_wrt (<) (map ce_index demo_entries)"
  using demo_urls demo_values by (simp_all add: demo_entries_def entry_ok_def)

lemma demo_channels:
  "\<exists>d cs. load_channel_list d [1..<32] = Some cs \<and> list_all2 describes demo_entries (cs :: nat channel list)"
  using channels_file_loaded [OF demo_entries_ok, of "CHR 0x00"] by auto

text \<open>
  C10. A channels file written from a list of channels, in the order of their numbers, with up to
  seven valid sources each, is loaded as exactly these channels, in this order.
\<close>

theorem channels_write_read:
  assumes "\<forall>e \<in> set es. entry_ok e" and "sorted_wrt (<) (map ce_index es)" and "below \<noteq> CHR 0x5C"
  shows "\<exists>d cs. iniparser_load (\<lambda>_. True) below (Some (unlines (render_ini (map chan_section es)))) = Inr d \<and>
    load_channel_list d [1..<32] = Some cs \<and> list_all2 describes es (cs :: 'e channel list)"
  using assms by (rule channels_file_loaded)

theorem channels_write_read_witness:
  "\<exists>d cs. iniparser_load (\<lambda>_. True) CHR 0x00 (Some (unlines (render_ini (map chan_section demo_entries)))) = Inr d \<and>
    load_channel_list d [1..<32] = Some cs \<and> list_all2 describes demo_entries (cs :: nat channel list)"
  by (rule channels_write_read [OF demo_entries_ok]) simp

text \<open>
  C17. The channels of a file, however it is written, have their own ranges of 32 PIDs between 32
  and 1023, so none meets another or the PSI tables; each has one to seven sources, every one a
  valid URL, the first of them selected.
\<close>

theorem loaded_channels_well_formed:
  assumes "load_channel_list d [1..<32] = Some cs"
  shows "(\<forall>c \<in> set cs. 32 \<le> c_base_pid c \<and> c_base_pid c + 31 \<le> 1023 \<and> c_pmt_pid c = c_base_pid c \<and> service_id c \<noteq> 0 \<and>
      0 < num_src c \<and> num_src c \<le> 7 \<and> (\<forall>k < num_src c. \<exists>u. sources c ! k = Some u \<and> is_valid_url u) \<and>
      source c = sources c ! 0) \<and>
    (\<forall>i j. i < j \<longrightarrow> j < length cs \<longrightarrow> c_base_pid (cs ! i) + 32 \<le> c_base_pid (cs ! j))"
proof -
  obtain js where js: "set js \<subseteq> set [1..<32]" "list_all2 loaded js cs" "sorted_wrt (<) js"
    using load_channel_list_loaded [OF assms] sorted_wrt_upt by blast
  have srt: "sorted_wrt (<) js" "set js \<subseteq> {1..<32}" using js(1,3) by auto
  have len: "length js = length cs" using js(2) by (rule list_all2_lengthD)
  have L: "loaded (js ! i) (cs ! i)" if "i < length cs" for i using js(2) that len by (simp add: list_all2_nthD)
  have one: "32 \<le> c_base_pid c \<and> c_base_pid c + 31 \<le> 1023 \<and> c_pmt_pid c = c_base_pid c \<and> service_id c \<noteq> 0 \<and>
      0 < num_src c \<and> num_src c \<le> 7 \<and> (\<forall>k < num_src c. \<exists>u. sources c ! k = Some u \<and> is_valid_url u) \<and>
      source c = sources c ! 0" if c: "c \<in> set cs" for c
  proof -
    obtain i where i: "i < length cs" "c = cs ! i" using c by (auto simp: in_set_conv_nth)
    have "js ! i \<in> {1..<32}" using srt(2) i len by (metis nth_mem subsetD)
    with L [OF i(1)] i(2) show ?thesis
      using chan_okD(2,5) [of c] by (auto simp: loaded_def)
  qed
  have "c_base_pid (cs ! i) + 32 \<le> c_base_pid (cs ! j)" if "i < j" "j < length cs" for i j
  proof -
    have "js ! i < js ! j" using srt(1) that len by (simp add: sorted_wrt_nth_less)
    with L [of i] L [of j] that show ?thesis by (simp add: loaded_def)
  qed
  with one show ?thesis by blast
qed

theorem loaded_channels_well_formed_witness:
  "\<exists>d cs. load_channel_list d [1..<32] = Some (cs :: nat channel list) \<and> length cs = 2 \<and>
     c_base_pid (cs ! 0) + 32 \<le> c_base_pid (cs ! 1) \<and> (\<forall>c \<in> set cs. c_base_pid c + 31 \<le> 1023)"
proof -
  obtain d and cs :: "nat channel list" where cs: "load_channel_list d [1..<32] = Some cs" "list_all2 describes demo_entries cs"
    using demo_channels by blast
  have "length cs = 2" using list_all2_lengthD [OF cs(2)] by (simp add: demo_entries_def)
  with loaded_channels_well_formed [OF cs(1)] cs(1) show ?thesis by (intro exI [of _ d] exI [of _ cs]) auto
qed


end
