(* ===== verification/Network.thy ===== *)
theory Network
  imports Input
begin

text \<open>
  The connections, \<^verbatim>\<open>src/network.c\<close>: the output socket, the connection of an
  input to its source with the HTTP dialogue, and the search for the start of the packets.
  What the sockets answer is a parameter; what the code does with descriptors is recorded as
  a list of events, so that nothing that is opened can be lost.
\<close>

section \<open>Sockets\<close>

text \<open>
  \<open>Opened\<close> is a successful \<^verbatim>\<open>socket\<close> or \<^verbatim>\<open>accept\<close>,
  \<open>Shut\<close> a \<^verbatim>\<open>close\<close> or \<^verbatim>\<open>shutdown_fd\<close>, \<open>Wrote\<close> a text sent
  and \<open>Slept\<close> a sleep in microseconds.
\<close>

datatype net_event = Opened int | Shut int | Wrote int string | Slept nat

definition opened :: "int \<Rightarrow> net_event list" where
  "opened fd = (if fd < 0 then [] else [Opened fd])"

text \<open>The descriptors open after the events.\<close>

fun open_after :: "net_event list \<Rightarrow> int set \<Rightarrow> int set" where
  "open_after [] F = F"
| "open_after (Opened fd # es) F = open_after es (insert fd F)"
| "open_after (Shut fd # es) F = open_after es (F - {fd})"
| "open_after (_ # es) F = open_after es F"

text \<open>\<^verbatim>\<open>IN_MULTICAST(ntohl(a))\<close>.\<close>

definition in_multicast :: "u32 \<Rightarrow> bool" where
  "in_multicast a \<longleftrightarrow> a AND 0xF0000000 = 0xE0000000"

section \<open>The output\<close>

text \<open>
  What the system calls of \<^verbatim>\<open>connect_udp\<close> return, in order. The address is the
  one the output is sent to, in host order.
\<close>

record udp_env =
  ue_socket :: int
  ue_ttl :: int
  ue_if :: int
  ue_connect :: int

definition connect_udp :: "udp_env \<Rightarrow> u32 \<Rightarrow> int \<times> net_event list" where
  "connect_udp U a =
     (let fd = ue_socket U in
      if fd < 0 then (- 1, [])
      else if in_multicast a \<and> ue_ttl U < 0 then (- 1, [Opened fd, Shut fd])
      else if in_multicast a \<and> ue_if U < 0 then (- 1, [Opened fd, Shut fd])
      else if ue_connect U \<noteq> 0 then (- 1, [Opened fd, Shut fd])
      else (fd, [Opened fd]))"

text \<open>\<open>None\<close>: the program exits.\<close>

definition connect_output :: "udp_env \<Rightarrow> u32 \<Rightarrow> int option \<times> net_event list" where
  "connect_output U out_host =
     (case connect_udp U out_host of (fd, es) \<Rightarrow> (if fd > - 1 then Some fd else None, es))"

section \<open>The HTTP dialogue\<close>

definition crlf :: string where
  "crlf = [CHR 0x0D, newline]"

text \<open>\<^verbatim>\<open>strstr(s, sub) != NULL\<close>.\<close>

fun has_sub :: "string \<Rightarrow> string \<Rightarrow> bool" where
  "has_sub sub [] \<longleftrightarrow> sub = []"
| "has_sub sub (c # cs) \<longleftrightarrow> take (length sub) (c # cs) = sub \<or> has_sub sub cs"

text \<open>
  \<^verbatim>\<open>^HTTP/1.[0-1] (([0-9]{3}) .*)\<close>; the dot matches any character, the last
  one the rest of the line with its end. The groups are the status text and its code.
\<close>

definition status_match :: "string \<Rightarrow> (string \<times> string) option" where
  "status_match s =
     (case s of
        a # b # c # d # e # f # x # v # sp # d1 # d2 # d3 # sp2 # rest \<Rightarrow>
          if [a, b, c, d, e, f] = ''HTTP/1'' \<and> v \<in> {CHR ''0'', CHR ''1''} \<and> sp = CHR '' '' \<and>
             isdigit d1 \<and> isdigit d2 \<and> isdigit d3 \<and> sp2 = CHR '' ''
          then Some (d1 # d2 # d3 # sp2 # rest, [d1, d2, d3]) else None
      | _ \<Rightarrow> None)"

text \<open>One header line: the new code, and whether the loop ends here.\<close>

definition header_line :: "string \<Rightarrow> int \<Rightarrow> int \<times> bool" where
  "header_line buf code =
     (if buf \<noteq> [] \<and> (hd buf = newline \<or> hd buf = CHR 0x0D) then (code, True)
      else
        (let code1 =
           (if has_sub ''HTTP/1.'' buf then
              (case status_match buf of
                 Some (text, digits) \<Rightarrow> if length text < 128 then atoi digits else code
               | None \<Rightarrow> code)
            else code)
         in if code1 = 504 \<and> has_sub ''X-ErrorCode: '' buf then (atoi (drop 13 buf), True)
            else (code1, False)))"

text \<open>
  The lines as \<^verbatim>\<open>fdgetline\<close> returns them: its result and the buffer after the call.
  The loop only ends on the result 0: it has no value when that never comes.
\<close>

partial_function (option) http_headers :: "(nat \<Rightarrow> int \<times> string) \<Rightarrow> nat \<Rightarrow> int \<Rightarrow> int option" where
  "http_headers lines k code =
     (case lines k of (ret, buf) \<Rightarrow>
        if ret = 0 then Some code
        else (case header_line buf code of (code', stop) \<Rightarrow>
                if stop then Some code' else http_headers lines (k + 1) code'))"

declare http_headers.simps [code]

section \<open>Connecting a source\<close>

text \<open>The rest of \<^verbatim>\<open>INPUT\<close>: the socket, the flag and the resolved address.\<close>

record 'b net_input =
  n_input :: "'b input"
  r_sock :: int
  connected :: bool
  src_addr :: u32

text \<open>
  One attempt: what the resolver of libfuncs, the system calls and \<^verbatim>\<open>fdgetline\<close>
  answer, whether the failure was an unreachable host, \<^verbatim>\<open>dienow\<close> after the
  pause, and the three names in the request.
\<close>

record net_env =
  ne_resolve :: "string \<Rightarrow> u32 \<Rightarrow> int \<times> u32"
  ne_socket :: int
  ne_connect :: int
  ne_lines :: "nat \<Rightarrow> int \<times> string"
  ne_member :: int
  ne_bind :: int
  ne_unreach :: bool
  ne_dienow :: bool
  ne_sig :: string
  ne_ver :: string
  ne_ident :: string

text \<open>\<^verbatim>\<open>PROXY_RETRY_TIMEOUT\<close>, in milliseconds.\<close>

definition PROXY_RETRY_TIMEOUT :: nat where
  "PROXY_RETRY_TIMEOUT = 1000"

text \<open>\<^verbatim>\<open>DO_RECONNECT\<close>: the result and the pause.\<close>

definition do_reconnect :: "net_env \<Rightarrow> int \<Rightarrow> int \<times> net_event list" where
  "do_reconnect E retries =
     (if retries = 0 then (- 1, [])
      else (if ne_dienow E then - 1 else 1, if ne_unreach E then [] else [Slept (PROXY_RETRY_TIMEOUT * 1000)]))"

text \<open>The request, cut to the 1022 characters \<^verbatim>\<open>snprintf\<close> is given.\<close>

definition http_request :: "net_env \<Rightarrow> chansrc \<Rightarrow> string" where
  "http_request E src =
     take 1022 (''GET /'' @ path src @ '' HTTP/1.0'' @ crlf @ ''Host: '' @ host src @ '':'' @ show_nat (unat (port src)) @ crlf @
       ''X-Smart-Client: yes'' @ crlf @
       ''User-Agent: '' @ ne_sig E @ '' '' @ ne_ver E @ '' ('' @ ne_ident E @ '')'' @ crlf @ crlf)"

text \<open>The end of both branches.\<close>

definition connect_done :: "'b net_input \<Rightarrow> 'b net_input" where
  "connect_done r = r\<lparr> connected := True \<rparr>"

definition connect_tcp ::
  "net_env \<Rightarrow> int \<Rightarrow> chansrc \<Rightarrow> 'b net_input \<Rightarrow> (int \<times> int \<times> net_event list \<times> 'b net_input) option"
where
  "connect_tcp E retries src r0 =
     (let fd = ne_socket E; r = r0\<lparr> r_sock := fd \<rparr> in
      if fd < 0 then Some (- 1, 0, [], r)
      else if ne_connect E < 0 then
        (case do_reconnect E retries of (ret, es) \<Rightarrow> Some (ret, 0, Opened fd # es, r))
      else
        (case http_headers (ne_lines E) 0 0 of
           None \<Rightarrow> None
         | Some code \<Rightarrow>
             (let es = [Opened fd, Wrote fd (http_request E src)] in
              if code = 0 then (case do_reconnect E retries of (ret, es') \<Rightarrow> Some (ret, code, es @ es', r))
              else if code = 504 then Some (- 1, code, es, r)
              else if code > 300 then Some (- 1, code, es, r)
              else Some (0, code, es, connect_done r))))"

definition connect_udp_source ::
  "net_env \<Rightarrow> 'b net_input \<Rightarrow> (int \<times> int \<times> net_event list \<times> 'b net_input) option"
where
  "connect_udp_source E r0 =
     (let fd = ne_socket E; r = r0\<lparr> r_sock := fd \<rparr> in
      if fd < 0 then Some (- 1, 0, [], r)
      else if in_multicast (src_addr r) \<and> ne_member E < 0 then Some (- 1, 0, [Opened fd], r)
      else if ne_bind E < 0 then Some (- 1, 0, [Opened fd], r)
      else Some (0, 0, [Opened fd], connect_done r))"

text \<open>
  The result, the HTTP code (\<open>code\<close> is the one before the call), the events and the
  input. It has no value when the HTTP headers never end.
\<close>

definition connect_source ::
  "net_env \<Rightarrow> int \<Rightarrow> int \<Rightarrow> 'b net_input \<Rightarrow> (int \<times> int \<times> net_event list \<times> 'b net_input) option"
where
  "connect_source E retries code r =
     (case chansrc_init (source (r_channel (n_input r))) of
        None \<Rightarrow> Some (- 1, code, [], r)
      | Some src \<Rightarrow>
          (case ne_resolve E (host src) (port src) of (dret, addr) \<Rightarrow>
             (let r1 = r\<lparr> connected := False, n_input := (n_input r)\<lparr> reconnect := False \<rparr>, src_addr := addr \<rparr> in
              if dret \<noteq> 0 then (case do_reconnect E retries of (ret, es) \<Rightarrow> Some (ret, code, es, r1))
              else if sproto src = tcp_sock then connect_tcp E retries src r1
              else connect_udp_source E r1)))"

section \<open>Finding the packets\<close>

text \<open>
  \<^verbatim>\<open>mpeg_sync\<close>. \<open>rd s n\<close> is \<^verbatim>\<open>fdread_ex\<close> asked to wait for \<open>n\<close>
  bytes: its result, the bytes and the connection after it; \<open>die k\<close> and \<open>late k\<close> are the
  tests of \<^verbatim>\<open>dienow\<close> and of the two seconds in turn \<open>k\<close> of the loop. A packet
  found jumps to \<^verbatim>\<open>resync\<close>, behind the test of \<^verbatim>\<open>dienow\<close>. The
  result is the one of the function, with the number of bytes read and the connection.
\<close>

partial_function (option) sync_loop ::
  "('s \<Rightarrow> nat \<Rightarrow> int \<times> bytes \<times> 's) \<Rightarrow> (nat \<Rightarrow> bool) \<Rightarrow> (nat \<Rightarrow> bool) \<Rightarrow> nat \<Rightarrow> bool \<Rightarrow> nat \<Rightarrow> nat \<Rightarrow> 's \<Rightarrow>
   (int \<times> nat \<times> 's) option"
where
  "sync_loop rd die late k at_resync read_bytes sync_packets s =
     (if \<not> at_resync \<and> die k then Some (1, read_bytes, s)
      else
        (case rd s 1 of (n, d, s1) \<Rightarrow>
           if n \<noteq> 1 then Some (1, read_bytes, s1)
           else if hd d = 0x47 then
             (case rd s1 187 of (rdsz, d2, s2) \<Rightarrow>
                if rdsz \<noteq> 187 then Some (1, read_bytes + 1, s2)
                else if sync_packets + 1 = 7 then Some (0, read_bytes + 188, s2)
                else sync_loop rd die late k True (read_bytes + 188) (sync_packets + 1) s2)
           else if read_bytes + 1 > FRAME_PACKET_SIZE then Some (1, read_bytes + 1, s1)
           else if late k then Some (1, read_bytes + 1, s1)
           else sync_loop rd die late (k + 1) False (read_bytes + 1) 0 s1))"

declare sync_loop.simps [code]

definition mpeg_sync ::
  "('s \<Rightarrow> nat \<Rightarrow> int \<times> bytes \<times> 's) \<Rightarrow> (nat \<Rightarrow> bool) \<Rightarrow> (nat \<Rightarrow> bool) \<Rightarrow> 's \<Rightarrow> (int \<times> nat \<times> 's) option"
where
  "mpeg_sync rd die late s = sync_loop rd die late 0 False 0 0 s"

section \<open>The search ends\<close>

lemma sync_loop_step:
  assumes "rd s 1 = (m, d, s1)" and "rd s1 187 = (m2, d2, s2)"
  shows "sync_loop rd die late k at_resync read_bytes sync_packets s =
    (if \<not> at_resync \<and> die k then Some (1, read_bytes, s)
     else if m \<noteq> 1 then Some (1, read_bytes, s1)
     else if hd d = 0x47 then
       (if m2 \<noteq> 187 then Some (1, read_bytes + 1, s2)
        else if sync_packets + 1 = 7 then Some (0, read_bytes + 188, s2)
        else sync_loop rd die late k True (read_bytes + 188) (sync_packets + 1) s2)
     else if 1316 < read_bytes + 1 then Some (1, read_bytes + 1, s1)
     else if late k then Some (1, read_bytes + 1, s1)
     else sync_loop rd die late (k + 1) False (read_bytes + 1) 0 s1)"
  by (subst sync_loop.simps) (simp only: assms prod.case FRAME_PACKET_SIZE_def)

lemma sync_loop_total:
  assumes "sync_packets < 7" and "read_bytes \<le> 1316 + 188 * sync_packets"
  shows "\<exists>ret n s'. sync_loop rd die late k at_resync read_bytes sync_packets s = Some (ret, n, s') \<and> n \<le> 2632 \<and> ret \<in> {0, 1}"
  using assms
proof (induction "8 * (1316 - read_bytes) + (7 - sync_packets)" arbitrary: k at_resync read_bytes sync_packets s rule: less_induct)
  case less
  obtain n d s1 where r1: "rd s 1 = (n, d, s1)" by (metis prod_cases3)
  obtain n2 d2 s2 where r2: "rd s1 187 = (n2, d2, s2)" by (metis prod_cases3)
  have packet: "\<exists>ret n s'. sync_loop rd die late k True (read_bytes + 188) (sync_packets + 1) s2 = Some (ret, n, s') \<and> n \<le> 2632 \<and> ret \<in> {0, 1}"
    if "sync_packets + 1 \<noteq> 7"
    by (rule less.hyps) (use less.prems that in auto)
  have junk: "\<exists>ret n s'. sync_loop rd die late (k + 1) False (read_bytes + 1) 0 s1 = Some (ret, n, s') \<and> n \<le> 2632 \<and> ret \<in> {0, 1}"
    if "read_bytes + 1 \<le> 1316"
    by (rule less.hyps) (use less.prems that in auto)
  show ?case
    using less.prems packet junk unfolding sync_loop_step [OF r1 r2] by auto
qed

section \<open>What the search finds\<close>

text \<open>
  A reader that waits for all bytes it is asked for: when it gets them they are the next ones
  of the stream, and it gets them when they are there.
\<close>

definition reader_ok :: "('s \<Rightarrow> nat \<Rightarrow> int \<times> bytes \<times> 's) \<Rightarrow> ('s \<Rightarrow> bytes) \<Rightarrow> bool" where
  "reader_ok rd pend \<longleftrightarrow>
     (\<forall>s n m d s'. rd s n = (m, d, s') \<longrightarrow>
        (m = int n \<longrightarrow> length d = n \<and> pend s = d @ pend s') \<and> (n \<le> length (pend s) \<longrightarrow> m = int n))"

lemma reader_okD:
  assumes "reader_ok rd pend" and "rd s n = (m, d, s')"
  shows "m = int n \<Longrightarrow> length d = n" and "m = int n \<Longrightarrow> pend s = d @ pend s'" and "n \<le> length (pend s) \<Longrightarrow> m = int n"
  using assms unfolding reader_ok_def by blast+

text \<open>\<open>k\<close> packets, each with its sync byte.\<close>

definition packets_at :: "nat \<Rightarrow> bytes list \<Rightarrow> bool" where
  "packets_at k ps \<longleftrightarrow> length ps = k \<and> (\<forall>p \<in> set ps. length p = 188 \<and> hd p = 0x47)"

lemma packets_at_snoc: "packets_at k ps \<Longrightarrow> length p = 188 \<Longrightarrow> hd p = 0x47 \<Longrightarrow> packets_at (k + 1) (ps @ [p])"
  by (auto simp: packets_at_def)

lemma packets_at_Cons: "packets_at (Suc k) ps \<Longrightarrow> \<exists>p ps'. ps = p # ps' \<and> length p = 188 \<and> hd p = 0x47 \<and> packets_at k ps'"
  by (cases ps) (auto simp: packets_at_def)

lemma length_packets: "packets_at k ps \<Longrightarrow> length (concat ps) = 188 * k"
  by (induction ps arbitrary: k) (auto simp: packets_at_def)

lemma read_packet:
  assumes "reader_ok rd pend" and "rd s 1 = (1, d, s1)" and "rd s1 187 = (187, d2, s2)"
  shows "pend s = (d @ d2) @ pend s2" and "length (d @ d2) = 188" and "hd (d @ d2) = hd d"
proof -
  have "length d = 1" using reader_okD(1) [OF assms(1,2)] by simp
  then have "d \<noteq> []" by auto
  then show "pend s = (d @ d2) @ pend s2" "length (d @ d2) = 188" "hd (d @ d2) = hd d"
    using reader_okD(1,2) [OF assms(1,2)] reader_okD(1,2) [OF assms(1,3)] by simp_all
qed

lemma sync_loop_found:
  assumes "reader_ok rd pend" and "sync_loop rd die late k at_resync read_bytes sync_packets s = Some (0, n, s')"
    and "sync_packets < 7" and "read_bytes \<le> 1316 + 188 * sync_packets"
    and "read_bytes = length junk + 188 * sync_packets" and "packets_at sync_packets ps"
  shows "\<exists>junk' ps'. junk @ concat ps @ pend s = junk' @ concat ps' @ pend s' \<and> packets_at 7 ps' \<and> n = length junk' + 1316"
  using assms(2-)
proof (induction "8 * (1316 - read_bytes) + (7 - sync_packets)" arbitrary: k at_resync read_bytes sync_packets s junk ps
    rule: less_induct)
  case less
  obtain m d s1 where r1: "rd s 1 = (m, d, s1)" by (metis prod_cases3)
  obtain m2 d2 s2 where r2: "rd s1 187 = (m2, d2, s2)" by (metis prod_cases3)
  note S = sync_loop_step [OF r1 r2]
  have m: "m = 1" using less.prems(1) unfolding S by (simp split: if_splits)
  show ?case
  proof (cases "hd d = 0x47")
    case True
    have m2: "m2 = 187"
      using less.prems(1) True m unfolding S by (auto split: if_splits)
    note R = read_packet [OF assms(1) r1 [unfolded m] r2 [unfolded m2]]
    have ps: "packets_at (sync_packets + 1) (ps @ [d @ d2])" using packets_at_snoc [OF less.prems(5) R(2)] R(3) True by simp
    have stream: "junk @ concat ps @ pend s = junk @ concat (ps @ [d @ d2]) @ pend s2" using R(1) by simp
    show ?thesis
    proof (cases "sync_packets + 1 = 7")
      case seven: True
      then have "n = read_bytes + 188" "s' = s2"
        using less.prems(1) True m m2 unfolding S by (auto split: if_splits)
      with ps stream seven less.prems(4) show ?thesis by (intro exI [of _ junk] exI [of _ "ps @ [d @ d2]"]) simp
    next
      case False
      then have "sync_loop rd die late k True (read_bytes + 188) (sync_packets + 1) s2 = Some (0, n, s')"
        using less.prems(1) True m m2 unfolding S by (auto split: if_splits)
      moreover have "8 * (1316 - (read_bytes + 188)) + (7 - (sync_packets + 1)) < 8 * (1316 - read_bytes) + (7 - sync_packets)"
        "sync_packets + 1 < 7" "read_bytes + 188 \<le> 1316 + 188 * (sync_packets + 1)" "read_bytes + 188 = length junk + 188 * (sync_packets + 1)"
        using less.prems(2,3,4) False by auto
      ultimately show ?thesis unfolding stream using less.hyps ps by blast
    qed
  next
    case False
    then have rest: "sync_loop rd die late (k + 1) False (read_bytes + 1) 0 s1 = Some (0, n, s')" "read_bytes + 1 \<le> 1316"
      using less.prems(1) m unfolding S by (auto split: if_splits)
    have stream: "pend s = d @ pend s1" "length d = 1" using reader_okD(1,2) [OF assms(1) r1] m by simp_all
    have len: "read_bytes + 1 = length (junk @ concat ps @ d)" using less.prems(4) length_packets [OF less.prems(5)] stream(2) by simp
    from less.hyps [OF _ rest(1), of "junk @ concat ps @ d" "[]"] rest(2) len stream show ?thesis
      by (simp add: packets_at_def)
  qed
qed

text \<open>Packets at the front of the stream are taken one by one.\<close>

lemma sync_loop_packets:
  assumes "reader_ok rd pend" and "pend s = concat ps @ rest" and "packets_at (7 - sync_packets) ps" and "sync_packets < 7"
    and "at_resync \<or> \<not> die k"
  shows "\<exists>s'. sync_loop rd die late k at_resync read_bytes sync_packets s = Some (0, read_bytes + 188 * (7 - sync_packets), s') \<and> pend s' = rest"
  using assms(2-)
proof (induction "7 - sync_packets" arbitrary: sync_packets ps read_bytes at_resync s)
  case (Suc j)
  obtain p ps' where p: "ps = p # ps'" "length p = 188" "hd p = 0x47" "packets_at j ps'"
    using packets_at_Cons [of j ps] Suc.prems(2) Suc.hyps(2) by metis
  obtain m d s1 where r1: "rd s 1 = (m, d, s1)" by (metis prod_cases3)
  obtain m2 d2 s2 where r2: "rd s1 187 = (m2, d2, s2)" by (metis prod_cases3)
  have pend: "pend s = p @ concat ps' @ rest" using Suc.prems(1) p(1) by simp
  have m: "m = 1" using reader_okD(3) [OF assms(1) r1] pend p(2) by simp
  then have d: "length d = 1" "pend s = d @ pend s1" using reader_okD(1,2) [OF assms(1) r1] by simp_all
  have "188 \<le> length (pend s)" using pend p(2) by simp
  then have m2: "m2 = 187" using reader_okD(3) [OF assms(1) r2] d by simp
  note R = read_packet [OF assms(1) r1 [unfolded m] r2 [unfolded m2]]
  have "(d @ d2) @ pend s2 = p @ concat ps' @ rest" "length (d @ d2) = length p" using R(1,2) pend p(2) by simp_all
  then have eq: "d @ d2 = p" "pend s2 = concat ps' @ rest" using append_eq_append_conv [of "d @ d2" p] by blast+
  then have h: "hd d = 0x47" using R(3) p(3) by simp
  show ?case
  proof (cases "sync_packets + 1 = 7")
    case True
    then have "sync_loop rd die late k at_resync read_bytes sync_packets s = Some (0, read_bytes + 188, s2)"
      using Suc.prems(4) h m m2 unfolding sync_loop_step [OF r1 r2] by auto
    moreover have "ps' = []" using p(4) True Suc.hyps(2) by (simp add: packets_at_def)
    ultimately show ?thesis using eq(2) True by auto
  next
    case False
    then have step: "sync_loop rd die late k at_resync read_bytes sync_packets s =
        sync_loop rd die late k True (read_bytes + 188) (sync_packets + 1) s2"
      using Suc.prems(4) h m m2 unfolding sync_loop_step [OF r1 r2] by auto
    have j: "j = 7 - (sync_packets + 1)" using Suc.hyps(2) by simp
    have "sync_packets + 1 < 7" using False Suc.prems(3) by simp
    from Suc.hyps(1) [OF j eq(2) p(4) [unfolded j] this, of True "read_bytes + 188"] j Suc.hyps(2) show ?thesis
      unfolding step by (auto simp: algebra_simps)
  qed
qed simp

lemma sync_loop_junk:
  assumes "reader_ok rd pend" and "pend s = junk @ concat ps @ rest" and "packets_at 7 ps" and "0x47 \<notin> set junk"
    and "read_bytes + length junk \<le> 1316" and "\<And>k. \<not> die k" and "\<And>k. \<not> late k"
  shows "\<exists>s'. sync_loop rd die late k False read_bytes 0 s = Some (0, read_bytes + length junk + 1316, s') \<and> pend s' = rest"
  using assms(2,4,5)
proof (induction junk arbitrary: s k read_bytes)
  case Nil
  have "pend s = concat ps @ rest" "packets_at (7 - 0) ps" using Nil(1) assms(3) by simp_all
  from sync_loop_packets [OF assms(1) this, of False die k late read_bytes] assms(6) [of k] show ?case by simp
next
  case (Cons x junk)
  obtain m d s1 where r1: "rd s 1 = (m, d, s1)" by (metis prod_cases3)
  obtain m2 d2 s2 where r2: "rd s1 187 = (m2, d2, s2)" by (metis prod_cases3)
  have m: "m = 1" using reader_okD(3) [OF assms(1) r1] Cons.prems(1) by simp
  then have "length d = 1" "pend s = d @ pend s1" using reader_okD(1,2) [OF assms(1) r1] by simp_all
  with Cons.prems(1) have d: "d = [x]" "pend s1 = junk @ concat ps @ rest" by (auto simp: length_Suc_conv)
  have "sync_loop rd die late k False read_bytes 0 s = sync_loop rd die late (k + 1) False (read_bytes + 1) 0 s1"
    using Cons.prems(2,3) d(1) m assms(6,7) unfolding sync_loop_step [OF r1 r2] by simp
  with Cons.IH [OF d(2), of "read_bytes + 1" "k + 1"] Cons.prems(2,3) show ?case by simp
qed


section \<open>Descriptors\<close>

lemma open_after_append [simp]: "open_after (es @ es') F = open_after es' (open_after es F)"
  by (induction es F rule: open_after.induct) auto

lemma do_reconnect_events:
  "do_reconnect E retries = (ret, es) \<Longrightarrow> ret \<noteq> 0 \<and> open_after es F = F"
  by (auto simp: do_reconnect_def split: if_splits)

text \<open>An attempt opens at most one descriptor, and it is the input's; the stream is not touched.\<close>

lemma connect_source_opens:
  assumes "connect_source E retries code r = Some (ret, code', es, r')"
  shows "open_after es {} = {} \<or> (0 \<le> r_sock r' \<and> open_after es {} = {r_sock r'})"
    and "r_channel (n_input r') = r_channel (n_input r)" and "ret = 0 \<Longrightarrow> connected r'"
  using assms do_reconnect_events [of E retries _ _ "{}"] do_reconnect_events [of E retries _ _ "{ne_socket E}"]
  by (auto simp: connect_source_def connect_tcp_def connect_udp_source_def connect_done_def Let_def
      split: option.splits if_splits prod.splits)

lemma connect_udp_keeps:
  assumes "connect_udp U a = (fd, es)"
  shows "(fd < 0 \<longrightarrow> fd = - 1 \<and> open_after es {} = {}) \<and> (0 \<le> fd \<longrightarrow> open_after es {} = {fd})"
  using assms by (auto simp: connect_udp_def Let_def split: if_splits)

section \<open>Properties\<close>

text \<open>A connection that delivers a list of bytes.\<close>

definition list_rd :: "bytes \<Rightarrow> nat \<Rightarrow> int \<times> bytes \<times> bytes" where
  "list_rd s n = (if n \<le> length s then (int n, take n s, drop n s) else (int (length s), s, []))"

lemma list_rd_ok: "reader_ok list_rd id"
  by (auto simp: reader_ok_def list_rd_def split: if_splits)

definition demo_packet :: bytes where
  "demo_packet = 0x47 # replicate 187 0"

lemma demo_packets: "packets_at 7 (replicate 7 demo_packet)"
  by (simp add: packets_at_def demo_packet_def)

text \<open>
  C20. The search for the packets always ends, within 2632 bytes, whatever the connection and the
  clock do; when it succeeds the last 1316 bytes it took were seven packets, each with its
  sync byte, so the next byte begins a packet.
\<close>

theorem mpeg_sync_aligned:
  assumes "reader_ok rd pend"
  shows "\<exists>ret n s'. mpeg_sync rd die late s = Some (ret, n, s') \<and> n \<le> 2632 \<and> ret \<in> {0, 1} \<and>
    (ret = 0 \<longrightarrow> (\<exists>junk ps. pend s = junk @ concat ps @ pend s' \<and> packets_at 7 ps \<and> n = length junk + 1316))"
proof -
  obtain ret n s' where r: "mpeg_sync rd die late s = Some (ret, n, s')" "n \<le> 2632" "ret \<in> {0, 1}"
    using sync_loop_total [of 0 0 rd die late 0 False s] by (auto simp: mpeg_sync_def)
  have "\<exists>junk ps. pend s = junk @ concat ps @ pend s' \<and> packets_at 7 ps \<and> n = length junk + 1316" if "ret = 0"
    using sync_loop_found [OF assms, of die late 0 False 0 0 s n s' "[]" "[]"] r(1) that by (simp add: mpeg_sync_def packets_at_def)
  with r show ?thesis by blast
qed

theorem mpeg_sync_aligned_witness:
  "\<exists>ret n s'. mpeg_sync list_rd (\<lambda>_. False) (\<lambda>_. False) (replicate 5000 0) = Some (ret, n, s') \<and> n \<le> 2632"
  using mpeg_sync_aligned [OF list_rd_ok] by blast

text \<open>
  C21. Up to 1316 bytes without a sync byte before the packets are skipped: the search succeeds
  at the first packet and leaves the stream behind the seventh.
\<close>

theorem mpeg_sync_finds:
  assumes "reader_ok rd pend" and "pend s = junk @ concat ps @ rest" and "packets_at 7 ps" and "0x47 \<notin> set junk"
    and "length junk \<le> 1316" and "\<And>k. \<not> die k" and "\<And>k. \<not> late k"
  shows "\<exists>s'. mpeg_sync rd die late s = Some (0, length junk + 1316, s') \<and> pend s' = rest"
  using sync_loop_junk [OF assms(1-4), of 0 die late 0] assms(5-7) by (simp add: mpeg_sync_def)

theorem mpeg_sync_finds_witness:
  "mpeg_sync list_rd (\<lambda>_. False) (\<lambda>_. False) (replicate 100 0 @ concat (replicate 7 demo_packet) @ [1, 2]) = Some (0, 1416, [1, 2])"
proof -
  have "(0x47 :: u8) \<notin> set (replicate 100 0)" by simp
  from mpeg_sync_finds [OF list_rd_ok _ demo_packets this, of "replicate 100 0 @ concat (replicate 7 demo_packet) @ [1, 2]" "[1, 2]"]
  show ?thesis by simp
qed

end
