(* ===== verification/Session.thy ===== *)
theory Session
  imports Network
begin

text \<open>
  The life of an input thread, \<^verbatim>\<open>input_stream\<close> of \<^verbatim>\<open>src/input.c\<close>:
  wait for the work time, connect, find the packets, read until something ends the session,
  go on to the next source. The work on what is read is in the theory of the inputs, the
  connection in the one of the network; here they are put together, with what the clock, the
  sockets and the other threads do as parameters of each turn.
\<close>

section \<open>One turn of the loop\<close>

text \<open>
  \<open>te_poke k\<close> is what other threads have done to the input since the last look at it: before
  the turn (0), and before the \<open>k\<close>-th wait or read. \<open>te_time\<close> and \<open>te_wait\<close> are the seconds of the day
  at the tests of the work time, \<open>te_going\<close> and \<open>te_keep\<close> the values of
  \<^verbatim>\<open>keep_going\<close>. \<open>te_read\<close> is \<^verbatim>\<open>fdread_ex\<close>, told whether to wait for
  all bytes; \<open>te_shut\<close> what \<^verbatim>\<open>shutdown_fd\<close> leaves in the descriptor; \<open>te_buffer\<close>
  what the buffer on the stack held.
\<close>

record ('b, 's) turn_env =
  te_poke :: "nat \<Rightarrow> 'b input \<Rightarrow> 'b input"
  te_going :: bool
  te_wait :: "nat \<Rightarrow> int"
  te_keep :: "nat \<Rightarrow> bool"
  te_now :: int
  te_time :: "nat \<Rightarrow> int"
  te_net :: net_env
  te_conn :: 's
  te_read :: "bool \<Rightarrow> 's \<Rightarrow> nat \<Rightarrow> int \<times> bytes \<times> 's"
  te_die :: "nat \<Rightarrow> bool"
  te_late :: "nat \<Rightarrow> bool"
  te_buffer :: bytes
  te_shut :: "int \<Rightarrow> int"

datatype turn_end = Reconnected | Stopped | Quitted

definition in_time :: "int \<Rightarrow> 'b input \<Rightarrow> bool" where
  "in_time now r = in_worktime now (worktime_start (r_channel r)) (worktime_end (r_channel r))"

text \<open>The loop that sleeps until the work time begins; False: the program ends.\<close>

partial_function (option) wait_work :: "('b, 's) turn_env \<Rightarrow> nat \<Rightarrow> 'b input \<Rightarrow> (bool \<times> 'b input) option" where
  "wait_work T k r =
     (if working r then Some (True, r)
      else
        (let r0 = te_poke T (k + 1) r; r1 = r0\<lparr> working := in_time (te_wait T k) r0 \<rparr> in
         if \<not> te_keep T k then Some (False, r1) else wait_work T (k + 1) r1))"

declare wait_work.simps [code]

text \<open>
  One read into the buffer: HTTP waits for a whole frame; RTP reads the header too, the others
  read behind its place.
\<close>

definition read_into :: "('b, 's) turn_env \<Rightarrow> bool \<Rightarrow> bool \<Rightarrow> bytes \<Rightarrow> 's \<Rightarrow> int \<times> bytes \<times> 's" where
  "read_into T tcp rtp_src buffer s =
     (case te_read T tcp s (if rtp_src then FRAME_PACKET_SIZE + RTP_HEADER_SIZE else FRAME_PACKET_SIZE) of
        (readen, d, s') \<Rightarrow> (readen, blit buffer (if rtp_src then 0 else RTP_HEADER_SIZE) d, s'))"

partial_function (option) read_loop ::
  "'b input_env \<Rightarrow> ('b, 's) turn_env \<Rightarrow> bool \<Rightarrow> bool \<Rightarrow> nat \<Rightarrow> int \<Rightarrow> bytes \<Rightarrow> 's \<Rightarrow> 'b input \<Rightarrow> (read_outcome \<times> 'b input) option"
where
  "read_loop L T tcp rtp_src k max_zero_reads buffer s r0 =
     (let r = te_poke T (k + 1) r0 in
      case read_into T tcp rtp_src buffer s of
        (readen, buffer', s') \<Rightarrow>
          (case read_step L (in_time (te_time T k) r) rtp_src readen (drop RTP_HEADER_SIZE buffer') (max_zero_reads, r) of
             (out, max_zero_reads', r', left) \<Rightarrow>
               if out = ReadNext
               then read_loop L T tcp rtp_src (k + 1) max_zero_reads' (blit buffer' RTP_HEADER_SIZE left) s' r'
               else Some (out, r')))"

declare read_loop.simps [code]

text \<open>The labels RECONNECT and STOP: both close the connection, the first goes on to the next source.\<close>

definition end_session :: "('b, 's) turn_env \<Rightarrow> 'b net_input \<Rightarrow> 'b net_input" where
  "end_session T r = r\<lparr> r_sock := te_shut T (r_sock r) \<rparr>"

definition next_source :: "'b net_input \<Rightarrow> 'b net_input" where
  "next_source r = r\<lparr> n_input := (n_input r)\<lparr> r_channel := chansrc_next (r_channel (n_input r)) \<rparr> \<rparr>"

definition finish_turn ::
  "('b, 's) turn_env \<Rightarrow> turn_end \<Rightarrow> int \<Rightarrow> net_event list \<Rightarrow> 'b net_input \<Rightarrow> turn_end \<times> int \<times> net_event list \<times> 'b net_input"
where
  "finish_turn T k code es r =
     (case k of
        Reconnected \<Rightarrow> (k, code, es @ [Shut (r_sock r)], next_source (end_session T r))
      | Stopped \<Rightarrow> (k, code, es @ [Shut (r_sock r)], end_session T r)
      | Quitted \<Rightarrow> (k, code, es, r))"

definition read_end :: "read_outcome \<Rightarrow> turn_end" where
  "read_end out = (case out of ReadStop \<Rightarrow> Stopped | ReadQuit \<Rightarrow> Quitted | _ \<Rightarrow> Reconnected)"

text \<open>The session after the connection: RTP sources are not searched for the packets.\<close>

definition session_read ::
  "'b input_env \<Rightarrow> ('b, 's) turn_env \<Rightarrow> int \<Rightarrow> net_event list \<Rightarrow> 'b net_input \<Rightarrow>
   (turn_end \<times> int \<times> net_event list \<times> 'b net_input) option"
where
  "session_read L T code es r =
     (case source (r_channel (n_input r)) of
        None \<Rightarrow> None
      | Some url \<Rightarrow>
          (let tcp = (get_sproto url = tcp_sock); rtp_src = is_rtp url in
           case (if rtp_src then Some (0, 0, te_conn T)
                 else mpeg_sync (te_read T True) (te_die T) (te_late T) (te_conn T)) of
             None \<Rightarrow> None
           | Some (sync, _, s) \<Rightarrow>
               if sync \<noteq> 0 then Some (finish_turn T Reconnected code (es @ [Slept 2000000]) r)
               else
                 (case read_loop L T tcp rtp_src 0 MAX_ZERO_READS (te_buffer T) s (input_stream_reset L (n_input r)) of
                    None \<Rightarrow> None
                  | Some (out, i) \<Rightarrow> Some (finish_turn T (read_end out) code es (r\<lparr> n_input := i \<rparr>)))))"

definition session_turn ::
  "'b input_env \<Rightarrow> ('b, 's) turn_env \<Rightarrow> int \<Rightarrow> 'b net_input \<Rightarrow> (turn_end \<times> int \<times> net_event list \<times> 'b net_input) option"
where
  "session_turn L T code r0 =
     (let i0 = te_poke T 0 (n_input r0) in
      if input_check_state i0 = 2 then Some (finish_turn T Quitted code [] (r0\<lparr> n_input := i0 \<rparr>))
      else
        (case wait_work T 0 i0 of
           None \<Rightarrow> None
         | Some (False, i) \<Rightarrow> Some (finish_turn T Quitted code [] (r0\<lparr> n_input := i \<rparr>))
         | Some (True, i) \<Rightarrow>
             (case connect_source (te_net T) 1 code (r0\<lparr> n_input := i\<lparr> working := in_time (te_now T) i \<rparr> \<rparr>) of
                None \<Rightarrow> None
              | Some (ret, code', es, r) \<Rightarrow>
                  if ret \<noteq> 0 then Some (finish_turn T Reconnected code' es r)
                  else session_read L T code' es r)))"

section \<open>The thread\<close>

text \<open>
  The turns one after the other: whether the thread has ended, how each turn ended, what was
  done with descriptors, and the input. At the end \<^verbatim>\<open>input_free\<close> closes the socket if it is
  open. The file of the input, which is opened before the thread starts and closed there too, is
  not in the list.
\<close>

definition close_input :: "'b net_input \<Rightarrow> net_event list" where
  "close_input r = (if r_sock r > - 1 then [Shut (r_sock r)] else [])"

fun input_turns ::
  "'b input_env \<Rightarrow> ('b, 's) turn_env list \<Rightarrow> int \<Rightarrow> 'b net_input \<Rightarrow>
   (bool \<times> turn_end list \<times> net_event list \<times> 'b net_input) option"
where
  "input_turns L [] code r = Some (False, [], [], r)"
| "input_turns L (T # Ts) code r =
     (if \<not> te_going T then Some (True, [], close_input r, r)
      else
        (case session_turn L T code r of
           None \<Rightarrow> None
         | Some (k, code', es, r1) \<Rightarrow>
             if k = Quitted then Some (True, [k], es @ close_input r1, r1)
             else
               (case input_turns L Ts code' r1 of
                  None \<Rightarrow> None
                | Some (ended, ks, es', r2) \<Rightarrow> Some (ended, k # ks, es @ es', r2))))"

definition input_thread :: "'b input_env \<Rightarrow> int \<Rightarrow> ('b, 's) turn_env list \<Rightarrow> 'b net_input \<Rightarrow>
   (bool \<times> turn_end list \<times> net_event list \<times> 'b net_input) option" where
  "input_thread L now Ts r = input_turns L Ts 0 (r\<lparr> n_input := (n_input r)\<lparr> working := in_time now (n_input r) \<rparr> \<rparr>)"

section \<open>No descriptor is lost\<close>

definition quiet :: "net_event list \<Rightarrow> bool" where
  "quiet es \<longleftrightarrow> (\<forall>e \<in> set es. (\<exists>fd s. e = Wrote fd s) \<or> (\<exists>n. e = Slept n))"

lemma quiet_simps [simp]:
  "quiet []" "quiet (Wrote fd s # es) = quiet es" "quiet (Slept n # es) = quiet es"
  "\<not> quiet (Opened fd # es)" "\<not> quiet (Shut fd # es)" "quiet (es @ es') \<longleftrightarrow> quiet es \<and> quiet es'"
  by (auto simp: quiet_def)

lemma quiet_open [simp]: "quiet es \<Longrightarrow> open_after es F = F"
  by (induction es F rule: open_after.induct) auto

lemma quiet_take: "quiet es \<Longrightarrow> quiet (take n es)"
  by (auto simp: quiet_def dest: in_set_takeD)

text \<open>At most one descriptor is open at any time.\<close>

definition one_open :: "net_event list \<Rightarrow> bool" where
  "one_open es \<longleftrightarrow> (\<forall>n. card (open_after (take n es) {}) \<le> 1)"

lemma one_open_quiet: "quiet es \<Longrightarrow> one_open es"
  by (simp add: one_open_def quiet_take)

lemma one_open_append:
  assumes "one_open es" and "one_open es'" and "open_after es {} = {}"
  shows "one_open (es @ es')"
  unfolding one_open_def
proof
  fix n
  show "card (open_after (take n (es @ es')) {}) \<le> 1"
  proof (cases "n \<le> length es")
    case True
    then show ?thesis using assms(1) by (simp add: one_open_def)
  next
    case False
    then show ?thesis using assms(2,3) by (simp add: one_open_def)
  qed
qed

lemma one_open_session: "quiet q \<Longrightarrow> one_open (Opened fd # q @ [Shut fd'])"
  unfolding one_open_def
proof
  fix n assume q: "quiet q"
  have one: "card ({fd} - {fd'}) \<le> 1" by (cases "fd = fd'") auto
  show "card (open_after (take n (Opened fd # q @ [Shut fd'])) {}) \<le> 1"
    using quiet_take [OF q] q one by (cases n; cases "n - 1 - length q") (auto simp: take_Cons')
qed

lemma one_open_prefix: "one_open (es @ es') \<Longrightarrow> one_open es"
  unfolding one_open_def
proof
  fix n assume "\<forall>n. card (open_after (take n (es @ es')) {}) \<le> 1"
  from spec [OF this, of "min n (length es)"] show "card (open_after (take n es) {}) \<le> 1"
    by (cases "n \<le> length es") simp_all
qed


text \<open>The events of a connection, and of a whole turn.\<close>

definition conn_events :: "net_event list \<Rightarrow> int \<Rightarrow> bool" where
  "conn_events es fd \<longleftrightarrow> quiet es \<or> (\<exists>q. quiet q \<and> es = Opened fd # q \<and> 0 \<le> fd)"

lemma conn_events_Slept: "conn_events es fd \<Longrightarrow> conn_events (es @ [Slept n]) fd"
  by (auto simp: conn_events_def)

lemma connect_source_events:
  assumes "connect_source E retries code r = Some (ret, code', es, r')"
  shows "conn_events es (r_sock r')"
proof -
  have rec: "quiet (snd (do_reconnect E retries))" by (simp add: do_reconnect_def)
  show ?thesis
    using assms rec unfolding conn_events_def
    by (auto simp: connect_source_def connect_tcp_def connect_udp_source_def connect_done_def Let_def
        split: option.splits if_splits prod.splits)
qed

text \<open>
  A turn opens at most one descriptor, as its first event; it shuts it as its last one, except
  when the thread quits, which leaves it to \<^verbatim>\<open>input_free\<close>.
\<close>

definition turn_events :: "turn_end \<Rightarrow> net_event list \<Rightarrow> int \<Rightarrow> bool" where
  "turn_events k es sock \<longleftrightarrow>
     (\<exists>q fd. quiet q \<and>
        (if k = Quitted then es = q \<or> (es = Opened fd # q \<and> sock = fd \<and> 0 \<le> fd)
         else es = q @ [Shut fd] \<or> es = Opened fd # q @ [Shut fd]))"

lemma finish_turn_events:
  assumes "finish_turn T k0 code es0 r0 = (k, code', es, r)" and "conn_events es0 (r_sock r0)"
  shows "turn_events k es (r_sock r)"
  using assms by (cases k0; fastforce simp: finish_turn_def turn_events_def conn_events_def)

lemma session_read_events:
  assumes "session_read L T c es0 r0 = Some (k, code', es, r')" and "conn_events es0 (r_sock r0)"
  shows "turn_events k es (r_sock r')"
proof -
  obtain url where url: "source (r_channel (n_input r0)) = Some url"
    using assms(1) by (auto simp: session_read_def split: option.splits)
  obtain sync n s where sync: "(if is_rtp url then Some (0, 0, te_conn T)
      else mpeg_sync (te_read T True) (te_die T) (te_late T) (te_conn T)) = Some (sync, n, s)"
    using assms(1) by (auto simp: session_read_def url Let_def split: option.splits)
  show ?thesis
  proof (cases "sync = 0")
    case False
    then have "finish_turn T Reconnected c (es0 @ [Slept 2000000]) r0 = (k, code', es, r')"
      using assms(1) by (simp add: session_read_def url Let_def sync)
    then show ?thesis by (rule finish_turn_events) (rule conn_events_Slept [OF assms(2)])
  next
    case True
    then obtain out i where "finish_turn T (read_end out) c es0 (r0\<lparr> n_input := i \<rparr>) = (k, code', es, r')"
      using assms(1) by (auto simp: session_read_def url Let_def sync split: option.splits)
    then show ?thesis by (rule finish_turn_events) (simp add: assms(2))
  qed
qed

lemma session_turn_events:
  assumes "session_turn L T code r = Some (k, code', es, r')"
  shows "turn_events k es (r_sock r')"
proof (cases "input_check_state (te_poke T 0 (n_input r)) = 2")
  case True
  then show ?thesis using assms finish_turn_events [of T Quitted code "[]" _ k code' es r']
    by (auto simp: session_turn_def Let_def conn_events_def)
next
  case check: False
  then obtain go i where w: "wait_work T 0 (te_poke T 0 (n_input r)) = Some (go, i)"
    using assms by (auto simp: session_turn_def Let_def split: option.splits)
  show ?thesis
  proof (cases go)
    case False
    then show ?thesis using assms check w finish_turn_events [of T Quitted code "[]" _ k code' es r']
      by (auto simp: session_turn_def Let_def conn_events_def)
  next
    case True
    then obtain ret c es1 r1 where c: "connect_source (te_net T) 1 code (r\<lparr> n_input := i\<lparr> working := in_time (te_now T) i \<rparr> \<rparr>) =
        Some (ret, c, es1, r1)"
      using assms check w by (auto simp: session_turn_def Let_def split: option.splits)
    note E = connect_source_events [OF c]
    have "if ret \<noteq> 0 then finish_turn T Reconnected c es1 r1 = (k, code', es, r') else session_read L T c es1 r1 = Some (k, code', es, r')"
      using assms check w True c by (simp add: session_turn_def Let_def split: if_splits)
    with E show ?thesis using finish_turn_events session_read_events by (metis (full_types))
  qed
qed

lemma turn_events_open:
  assumes "turn_events k es sock"
  shows "one_open es" and "k \<noteq> Quitted \<Longrightarrow> open_after es {} = {}"
    and "k = Quitted \<Longrightarrow> one_open (es @ close_input r) \<and> (sock = r_sock r \<longrightarrow> open_after (es @ close_input r) {} = {})"
proof -
  obtain q fd where q: "quiet q" and shape: "if k = Quitted then es = q \<or> (es = Opened fd # q \<and> sock = fd \<and> 0 \<le> fd)
      else es = q @ [Shut fd] \<or> es = Opened fd # q @ [Shut fd]"
    using assms by (auto simp: turn_events_def)
  have shut: "one_open [Shut fd']" "one_open (q @ [Shut fd'])" for fd'
  proof -
    show one: "one_open [Shut fd']" by (auto simp: one_open_def take_Cons')
    show "one_open (q @ [Shut fd'])" using one_open_append [OF one_open_quiet [OF q] one] q by simp
  qed
  have opn: "one_open (Opened fd # q)" using one_open_prefix [of "Opened fd # q" "[Shut fd]"] one_open_session [OF q] by simp
  show "one_open es" using shape shut opn one_open_quiet [OF q] one_open_session [OF q] by (auto split: if_splits)
  show "open_after es {} = {}" if "k \<noteq> Quitted" using that shape q by auto
  show "one_open (es @ close_input r) \<and> (sock = r_sock r \<longrightarrow> open_after (es @ close_input r) {} = {})" if "k = Quitted"
    using that shape q shut opn one_open_quiet [OF q] one_open_session [OF q] by (auto simp: close_input_def)
qed

lemma input_turns_open:
  "input_turns L Ts code r = Some (ended, ks, es, r') \<Longrightarrow> one_open es \<and> open_after es {} = {}"
proof (induction Ts arbitrary: code r ended ks es)
  case Nil
  then show ?case by (auto simp: one_open_def)
next
  case (Cons T Ts)
  show ?case
  proof (cases "te_going T")
    case False
    then show ?thesis using Cons.prems by (cases "r_sock r > - 1") (auto simp: close_input_def one_open_def take_Cons')
  next
    case True
    then obtain k c es1 r1 where t: "session_turn L T code r = Some (k, c, es1, r1)"
      using Cons.prems by (auto split: option.splits)
    note E = turn_events_open [OF session_turn_events [OF t]]
    show ?thesis
    proof (cases "k = Quitted")
      case q: True
      then have "es = es1 @ close_input r1" using Cons.prems True t by auto
      then show ?thesis using E(3) [OF q, of r1] by simp
    next
      case False
      then obtain ks' es2 where "input_turns L Ts c r1 = Some (ended, ks', es2, r')" "es = es1 @ es2"
        using Cons.prems True t by (auto split: option.splits)
      with Cons.IH [of c r1 ended ks' es2] E(1) E(2) [OF False] one_open_append show ?thesis by simp
    qed
  qed
qed

section \<open>What a turn does to the input\<close>

text \<open>
  What the turns of the loop do to the input follows from what a poke, a reset and a read do. The contract
  is a preorder \<open>R\<close> on inputs that each of them keeps to, for turns whose environment is
  \<open>turn_ok\<close> and a buffer on the stack that stays \<open>buf_ok\<close>; then a whole turn keeps to it, but for the
  step to the next source at the end of a turn that reconnects.
\<close>

definition next_input :: "'b input \<Rightarrow> 'b input" where
  "next_input i = i\<lparr> r_channel := chansrc_next (r_channel i) \<rparr>"

lemma connect_source_input:
  assumes "connect_source E retries code r = Some (ret, code', es, r')"
  shows "n_input r' = n_input r \<or> n_input r' = (n_input r)\<lparr> reconnect := False \<rparr>"
  using assms
  by (auto simp: connect_source_def connect_tcp_def connect_udp_source_def connect_done_def Let_def
      split: option.splits if_splits prod.splits)

locale turn_relation =
  fixes L :: "'b input_env"
    and turn_ok :: "('b, 's) turn_env \<Rightarrow> bool"
    and buf_ok :: "bytes \<Rightarrow> bool"
    and R :: "'b input \<Rightarrow> 'b input \<Rightarrow> bool"
  assumes refl [simp]: "R r r" and trans: "R a b \<Longrightarrow> R b c \<Longrightarrow> R a c"
    and poke: "turn_ok T \<Longrightarrow> R r (te_poke T k r)"
    and worktime: "R r (r\<lparr> working := w \<rparr>)" and asked: "R r (r\<lparr> reconnect := w \<rparr>)"
    and reset: "R r (input_stream_reset L r)"
    and mono_next: "R a b \<Longrightarrow> R (next_input a) (next_input b)"
    and start: "turn_ok T \<Longrightarrow> buf_ok (te_buffer T)"
    and steps: "turn_ok T \<Longrightarrow> buf_ok buf \<Longrightarrow> read_into T tcp rs buf s = (n, buf', s') \<Longrightarrow>
      read_step L w rs n (drop RTP_HEADER_SIZE buf') (z, r) = (out, z', r', left) \<Longrightarrow>
      R r r' \<and> buf_ok (blit buf' RTP_HEADER_SIZE left)"
begin

lemma wait_work_rel:
  assumes "wait_work T k r = Some (go, r')" and "turn_ok T"
  shows "R r r'"
proof -
  have "turn_ok T \<longrightarrow> R r (snd (go, r'))"
  proof (rule wait_work.raw_induct [OF _ assms(1)], rule impI)
    fix wait :: "('b, 's) turn_env \<Rightarrow> nat \<Rightarrow> 'b input \<Rightarrow> (bool \<times> 'b input) option" and T :: "('b, 's) turn_env" and k r y
    let ?r1 = "(te_poke T (k + 1) r)\<lparr> working := in_time (te_wait T k) (te_poke T (k + 1) r) \<rparr>"
    assume IH: "\<And>T k r y. wait T k r = Some y \<Longrightarrow> turn_ok T \<longrightarrow> R r (snd y)"
      and eq: "(if working r then Some (True, r)
        else (let r0 = te_poke T (k + 1) r; r1 = r0\<lparr> working := in_time (te_wait T k) r0 \<rparr>
              in if \<not> te_keep T k then Some (False, r1) else wait T (k + 1) r1)) = Some y"
      and ok: "turn_ok T"
    have p: "R r ?r1" using trans [OF poke [OF ok] worktime] .
    show "R r (snd y)" using eq p IH [of T "k + 1" ?r1 y] ok trans [OF p] by (auto simp: Let_def split: if_splits)
  qed
  with assms(2) show ?thesis by simp
qed

lemma read_loop_rel:
  assumes "read_loop L T tcp rs k z buf s r = Some (out, r')" and "turn_ok T" and "buf_ok buf"
  shows "R r r'"
proof -
  have "L = L \<longrightarrow> turn_ok T \<longrightarrow> buf_ok buf \<longrightarrow> R r (snd (out, r'))"
  proof (rule read_loop.raw_induct [OF _ assms(1), where P = "\<lambda>LL T tcp rs k z buf s r y.
        LL = L \<longrightarrow> turn_ok T \<longrightarrow> buf_ok buf \<longrightarrow> R r (snd y)"], intro impI)
    fix loop :: "'b input_env \<Rightarrow> ('b, 's) turn_env \<Rightarrow> bool \<Rightarrow> bool \<Rightarrow> nat \<Rightarrow> int \<Rightarrow> bytes \<Rightarrow> 's \<Rightarrow> 'b input \<Rightarrow>
        (read_outcome \<times> 'b input) option"
      and LL :: "'b input_env" and T :: "('b, 's) turn_env" and tcp rs k z buf s r0 y
    let ?r = "te_poke T (k + 1) r0"
    assume IH: "\<And>LL T tcp rs k z buf s r y. loop LL T tcp rs k z buf s r = Some y \<Longrightarrow>
        LL = L \<longrightarrow> turn_ok T \<longrightarrow> buf_ok buf \<longrightarrow> R r (snd y)"
      and eq: "(let r = te_poke T (k + 1) r0 in
        case read_into T tcp rs buf s of
          (readen, buffer', s') \<Rightarrow>
            (case read_step LL (in_time (te_time T k) r) rs readen (drop RTP_HEADER_SIZE buffer') (z, r) of
               (out, z', r', left) \<Rightarrow>
                 if out = ReadNext then loop LL T tcp rs (k + 1) z' (blit buffer' RTP_HEADER_SIZE left) s' r' else Some (out, r'))) = Some y"
      and ok: "LL = L" "turn_ok T" "buf_ok buf"
    obtain n b s' where i: "read_into T tcp rs buf s = (n, b, s')" by (metis prod_cases3)
    obtain out z' r' left where st: "read_step L (in_time (te_time T k) ?r) rs n (drop RTP_HEADER_SIZE b) (z, ?r) = (out, z', r', left)"
      by (metis prod_cases4)
    note stepped = steps [OF ok(2,3) i st]
    have p: "R r0 r'" using trans [OF poke [OF ok(2)] conjunct1 [OF stepped]] .
    show "R r0 (snd y)"
      using eq [unfolded Let_def i prod.case ok(1) st] p IH [of L T tcp rs "k + 1" z' "blit b RTP_HEADER_SIZE left" s' r' y] ok(2) conjunct2 [OF stepped] trans [OF p]
      by (auto split: if_splits)
  qed
  with assms(2,3) show ?thesis by simp
qed

text \<open>A turn that reconnects goes on to the next source; the others stay.\<close>

definition moved :: "turn_end \<Rightarrow> 'b input \<Rightarrow> 'b input \<Rightarrow> bool" where
  "moved k r r' \<longleftrightarrow> R (if k = Reconnected then next_input r else r) r'"

lemma finish_turn_rel:
  assumes "finish_turn T k0 code es0 r0 = (k, code', es, r)" and "R i (n_input r0)"
  shows "moved k i (n_input r)"
  using assms mono_next [OF assms(2)]
  by (cases k0) (auto simp: finish_turn_def moved_def next_source_def next_input_def end_session_def)

lemma session_read_rel:
  assumes "session_read L T c es0 r0 = Some (k, code', es, r')" and "turn_ok T" and "R i0 (n_input r0)"
  shows "moved k i0 (n_input r')"
proof -
  obtain url where url: "source (r_channel (n_input r0)) = Some url"
    using assms(1) by (auto simp: session_read_def split: option.splits)
  obtain sync n s where sync: "(if is_rtp url then Some (0, 0, te_conn T)
      else mpeg_sync (te_read T True) (te_die T) (te_late T) (te_conn T)) = Some (sync, n, s)"
    using assms(1) by (auto simp: session_read_def url Let_def split: option.splits)
  show ?thesis
  proof (cases "sync = 0")
    case False
    then have "finish_turn T Reconnected c (es0 @ [Slept 2000000]) r0 = (k, code', es, r')"
      using assms(1) by (simp add: session_read_def url Let_def sync)
    then show ?thesis using assms(3) by (rule finish_turn_rel)
  next
    case True
    then obtain out i where f: "finish_turn T (read_end out) c es0 (r0\<lparr> n_input := i \<rparr>) = (k, code', es, r')"
      and l: "read_loop L T (get_sproto url = tcp_sock) (is_rtp url) 0 MAX_ZERO_READS (te_buffer T) s
        (input_stream_reset L (n_input r0)) = Some (out, i)"
      using assms(1) by (auto simp: session_read_def url Let_def sync split: option.splits)
    have "R i0 i" using trans [OF trans [OF assms(3) reset] read_loop_rel [OF l assms(2) start [OF assms(2)]]] .
    with finish_turn_rel [OF f] show ?thesis by simp
  qed
qed

lemma session_turn_rel:
  assumes "session_turn L T code r = Some (k, code', es, r')" and "turn_ok T"
  shows "moved k (n_input r) (n_input r')"
proof -
  let ?i = "n_input r"
  have p0: "R ?i (te_poke T 0 ?i)" by (rule poke [OF assms(2)])
  show ?thesis
  proof (cases "input_check_state (te_poke T 0 ?i) = 2")
    case True
    then show ?thesis using assms(1) p0 finish_turn_rel [of T Quitted code "[]" _ k code' es r' ?i]
      by (auto simp: session_turn_def Let_def)
  next
    case check: False
    then obtain go i where w: "wait_work T 0 (te_poke T 0 ?i) = Some (go, i)"
      using assms(1) by (auto simp: session_turn_def Let_def split: option.splits)
    have pi: "R ?i i" using trans [OF p0 wait_work_rel [OF w assms(2)]] .
    show ?thesis
    proof (cases go)
      case False
      then show ?thesis using assms(1) check w pi finish_turn_rel [of T Quitted code "[]" _ k code' es r' ?i]
        by (auto simp: session_turn_def Let_def)
    next
      case True
      let ?r0 = "r\<lparr> n_input := i\<lparr> working := in_time (te_now T) i \<rparr> \<rparr>"
      obtain ret c es1 r1 where c: "connect_source (te_net T) 1 code ?r0 = Some (ret, c, es1, r1)"
        using assms(1) check w True by (auto simp: session_turn_def Let_def split: option.splits)
      have "R (n_input ?r0) (n_input r1)" using connect_source_input [OF c] asked refl by metis
      with trans [OF pi worktime] have p1: "R ?i (n_input r1)" by (auto intro: trans)
      have "if ret \<noteq> 0 then finish_turn T Reconnected c es1 r1 = (k, code', es, r') else session_read L T c es1 r1 = Some (k, code', es, r')"
        using assms(1) check w True c by (simp add: session_turn_def Let_def split: if_splits)
      with p1 show ?thesis using finish_turn_rel session_read_rel [OF _ assms(2)] by (metis (full_types))
    qed
  qed
qed

lemma next_input_pow: "R a b \<Longrightarrow> R ((next_input ^^ n) a) ((next_input ^^ n) b)"
  by (induction n) (simp_all add: mono_next)

lemma input_turns_rel:
  assumes "input_turns L Ts code r = Some (ended, ks, es, r')" and "\<forall>T \<in> set Ts. turn_ok T"
  shows "R ((next_input ^^ length (filter ((=) Reconnected) ks)) (n_input r)) (n_input r')"
  using assms
proof (induction Ts arbitrary: code r ended ks es)
  case (Cons T Ts)
  show ?case
  proof (cases "te_going T")
    case True
    then obtain k c es1 r1 where t: "session_turn L T code r = Some (k, c, es1, r1)"
      using Cons.prems(1) by (auto split: option.splits)
    have m: "moved k (n_input r) (n_input r1)" using session_turn_rel [OF t] Cons.prems(2) by simp
    show ?thesis
    proof (cases "k = Quitted")
      case q: True
      then show ?thesis using Cons.prems(1) True t m by (auto simp: moved_def)
    next
      case False
      then obtain ks' es2 where rest: "input_turns L Ts c r1 = Some (ended, ks', es2, r')" "ks = k # ks'"
        using Cons.prems(1) True t by (auto split: option.splits)
      have "R ((next_input ^^ length (filter ((=) Reconnected) ks')) (n_input r1)) (n_input r')"
        using Cons.IH [OF rest(1)] Cons.prems(2) by simp
      from trans [OF next_input_pow [OF m [unfolded moved_def]] this] show ?thesis
        using rest(2) by (auto simp: funpow_swap1)
    qed
  qed (use Cons.prems in auto)
qed simp

end

section \<open>The sources take turns\<close>

text \<open>Nothing but the end of a turn changes the source, if the other threads leave it alone.\<close>

definition same_sources :: "'e channel \<Rightarrow> 'e channel \<Rightarrow> bool" where
  "same_sources c c' \<longleftrightarrow> sources c' = sources c \<and> num_src c' = num_src c \<and> curr_src c' = curr_src c \<and> source c' = source c"

lemma same_sources_refl [simp]: "same_sources c c"
  by (simp add: same_sources_def)

lemma same_sources_trans: "same_sources a b \<Longrightarrow> same_sources b c \<Longrightarrow> same_sources a c"
  by (simp add: same_sources_def)

lemma same_sources_ok: "same_sources c c' \<Longrightarrow> chan_ok c \<Longrightarrow> chan_ok c'"
  by (auto simp: same_sources_def chan_ok_def)

definition poke_ok :: "('b, 's) turn_env \<Rightarrow> bool" where
  "poke_ok T \<longleftrightarrow> (\<forall>k r. same_sources (r_channel r) (r_channel (te_poke T k r)))"

lemma channel_frames [frame_simps, simp]:
  "r_channel (input_buffer_add L r d) = r_channel r" "r_channel (input_rewrite_pat L r) = r_channel r"
  "r_channel (input_rewrite_pmt L r) = r_channel r" "r_channel (input_rewrite_eit L r) = r_channel r"
  "r_channel (send_pat L r) = r_channel r" "r_channel (send_pmt L r) = r_channel r"
  "r_channel (snd (send_eit L r)) = r_channel r" "r_channel (snd (find_pmt_pid r)) = r_channel r"
  "r_channel (rewrite_pat_once L r) = r_channel r" "r_channel (rewrite_pmt_once L r) = r_channel r"
  "r_channel (rewrite_eit_once L r) = r_channel r" "r_channel (input_stream_reset L r) = r_channel r"
  by (simp_all add: input_buffer_add_def input_rewrite_pat_def input_rewrite_pmt_def input_rewrite_eit_def send_pat_def send_pmt_def
      send_eit_def find_pmt_pid_def input_process_pat_def rewrite_pat_once_def rewrite_pmt_once_def rewrite_eit_once_def
      input_stream_reset_def Let_def split: prod.split option.split)


lemma process_channel:
  "r_channel (fst (snd (process_pat L r pid pkt))) = r_channel r"
  "r_channel (snd (process_pmt L r pid pkt)) = r_channel r" "r_channel (snd (process_eit L r pkt)) = r_channel r"
proof -
  show "r_channel (snd (process_pmt L r pid pkt)) = r_channel r" by (simp add: process_pmt_def Let_def)
  show "r_channel (snd (process_eit L r pkt)) = r_channel r" by (simp add: process_eit_def Let_def)
  have "find_pmt_pid q = (a, q') \<Longrightarrow> r_channel q' = r_channel q" for q q' :: "'a input" and a
    using channel_frames(8) [of q] by simp
  then show "r_channel (fst (snd (process_pat L r pid pkt))) = r_channel r"
    by (auto simp: process_pat_def Let_def split: prod.split)
qed

lemma packet_step_channel: "r_channel (fst (snd (packet_step L r pkt))) = r_channel r"
proof -
  have fwd: "r_channel (fst (forward_packet L q pid p)) = r_channel q" for q pid p by (simp add: forward_packet_def Let_def)
  have pat: "process_pat L r pid p = (a, q, p') \<Longrightarrow> r_channel q = r_channel r" for pid p a q p'
    using process_channel(1) [of L r pid p] by simp
  have pmt: "process_pmt L q pid p = (a, q') \<Longrightarrow> r_channel q' = r_channel q" for q q' pid p a
    using process_channel(2) [of L q pid p] by simp
  show ?thesis by (auto simp: packet_step_def Let_def fwd process_channel(3) dest!: pat pmt split: prod.split)
qed

lemma read_packets_channel: "r_channel (fst (snd (read_packets L buf i n r))) = r_channel r"
proof (induction L buf i n r rule: read_packets.induct)
  case (1 L buf i n r)
  obtain out r' pkt where p: "packet_step L r (bslice buf i TS_PACKET_SIZE) = (out, r', pkt)" by (metis prod_cases3)
  then have "r_channel r' = r_channel r" using packet_step_channel [of L r "bslice buf i TS_PACKET_SIZE"] by simp
  with 1 p show ?case by (subst read_packets.simps) (auto split: packet_outcome.split)
qed

lemma read_step_channel: "read_step L t rtp_src n buf (z, r) = (out, z', r', left) \<Longrightarrow> r_channel r' = r_channel r"
  using read_packets_channel [of L buf 0 _ "r\<lparr> working := t \<rparr>"]
  by (auto simp: read_step_def Let_def split: if_splits prod.splits packet_outcome.splits) (metis fst_conv snd_conv input.select_convs(1) input.simps)+

lemma chansrc_next_same: "same_sources c c' \<Longrightarrow> same_sources (chansrc_next c) (chansrc_next c')"
  by (simp add: same_sources_def chansrc_next_def Let_def)

interpretation same_src: turn_relation L poke_ok "\<lambda>_. True" "\<lambda>r r'. same_sources (r_channel r) (r_channel r')"
  for L :: "'b input_env"
  by unfold_locales (auto simp: poke_ok_def next_input_def chansrc_next_same dest: read_step_channel intro: same_sources_trans)

lemma next_input_channel: "r_channel ((next_input ^^ n) i) = (chansrc_next ^^ n) (r_channel i)"
  by (induction n) (simp_all add: next_input_def)

lemmas input_turns_sources = same_src.input_turns_rel [unfolded next_input_channel]

section \<open>Two ways to hang on\<close>

lemma wait_work_never:
  assumes "wait_work T k r = Some y" and "\<And>k. te_keep T k" and "\<And>k i. \<not> in_time (te_wait T k) (te_poke T (k + 1) i)"
  shows "working r"
proof -
  have "(\<forall>k. te_keep T k) \<longrightarrow> (\<forall>k i. \<not> in_time (te_wait T k) (te_poke T (k + 1) i)) \<longrightarrow> working r"
  proof (rule wait_work.raw_induct [OF _ assms(1)], intro impI)
    fix wait :: "('a, 'b) turn_env \<Rightarrow> nat \<Rightarrow> 'a input \<Rightarrow> (bool \<times> 'a input) option" and T :: "('a, 'b) turn_env" and k r y
    assume IH: "\<And>T k r y. wait T k r = Some y \<Longrightarrow> (\<forall>k. te_keep T k) \<longrightarrow>
        (\<forall>k i. \<not> in_time (te_wait T k) (te_poke T (k + 1) i)) \<longrightarrow> working r"
      and eq: "(if working r then Some (True, r)
        else (let r0 = te_poke T (k + 1) r; r1 = r0\<lparr> working := in_time (te_wait T k) r0 \<rparr>
              in if \<not> te_keep T k then Some (False, r1) else wait T (k + 1) r1)) = Some y"
      and keep: "\<forall>k. te_keep T k" and never: "\<forall>k i. \<not> in_time (te_wait T k) (te_poke T (k + 1) i)"
    let ?r1 = "(te_poke T (k + 1) r)\<lparr> working := in_time (te_wait T k) (te_poke T (k + 1) r) \<rparr>"
    have "\<not> working ?r1" using never by simp
    then have "wait T (k + 1) ?r1 \<noteq> Some y" using IH keep never by blast
    with eq keep show "working r" by (auto simp: Let_def split: if_splits)
  qed
  with assms(2,3) show ?thesis by blast
qed

text \<open>A server that answers with an error code.\<close>

definition refuses :: "net_env \<Rightarrow> 'b net_input \<Rightarrow> chansrc \<Rightarrow> int \<Rightarrow> bool" where
  "refuses E r src code \<longleftrightarrow>
     chansrc_init (source (r_channel (n_input r))) = Some src \<and> sproto src = tcp_sock \<and>
     fst (ne_resolve E (host src) (port src)) = 0 \<and> 0 \<le> ne_socket E \<and> 0 \<le> ne_connect E \<and>
     http_headers (ne_lines E) 0 0 = Some code \<and> 300 < code"

lemma refused_turn:
  assumes "refuses (te_net T) r src code" and "\<And>k i. te_poke T k i = i" and "in_time (te_now T) (n_input r)"
    and "working (n_input r)" and "\<not> r_dienow (n_input r)" and "num_src (r_channel (n_input r)) \<le> 1"
  shows "\<exists>r'. session_turn L T c r = Some (Reconnected, code,
      [Opened (ne_socket (te_net T)), Wrote (ne_socket (te_net T)) (http_request (te_net T) src), Shut (ne_socket (te_net T))], r') \<and>
    r_channel (n_input r') = r_channel (n_input r) \<and> working (n_input r') \<and> \<not> r_dienow (n_input r')"
proof -
  let ?E = "te_net T"
  obtain addr where res: "ne_resolve ?E (host src) (port src) = (0, addr)"
    using assms(1) by (cases "ne_resolve ?E (host src) (port src)") (auto simp: refuses_def)
  have w: "wait_work T 0 (n_input r) = Some (True, n_input r)" using assms(4) by (subst wait_work.simps) simp
  have nx: "chansrc_next (r_channel (n_input r)) = r_channel (n_input r)" using assms(6) by (simp add: chansrc_next_def)
  show ?thesis
    using assms(1,3,4,5) res
    by (auto simp: session_turn_def Let_def assms(2) w input_check_state_def connect_source_def connect_tcp_def refuses_def
        finish_turn_def next_source_def end_session_def nx)
qed

section \<open>Properties\<close>

definition demo_url_channel :: "string \<Rightarrow> psi_table channel" where
  "demo_url_channel url = the (channel_new 7 0 ''a'' ''A'' 1 url 3 0 0)"

definition demo_net_input :: "string \<Rightarrow> queue net_input" where
  "demo_net_input url = \<lparr> n_input = (demo_input [])\<lparr> r_channel := demo_url_channel url \<rparr>, r_sock = - 1, connected = False, src_addr = 0 \<rparr>"

definition demo_net :: net_env where
  "demo_net = \<lparr> ne_resolve = (\<lambda>_ _. (0, 0x7F000001)), ne_socket = 5, ne_connect = 0,
     ne_lines = (\<lambda>k. if k = 0 then (1, ''HTTP/1.1 404 Not Found'') else (0, [])), ne_member = 0, ne_bind = 0,
     ne_unreach = False, ne_dienow = False, ne_sig = ''s'', ne_ver = ''v'', ne_ident = ''i'' \<rparr>"

definition demo_turn :: "(queue, bytes) turn_env" where
  "demo_turn = \<lparr> te_poke = (\<lambda>_ i. i), te_going = True, te_wait = (\<lambda>_. 0), te_keep = (\<lambda>_. True), te_now = 0, te_time = (\<lambda>_. 0),
     te_net = demo_net, te_conn = [], te_read = (\<lambda>_. list_rd), te_die = (\<lambda>_. False), te_late = (\<lambda>_. False),
     te_buffer = replicate 1328 0, te_shut = (\<lambda>_. - 1) \<rparr>"

lemma demo_headers: "http_headers (ne_lines demo_net) 0 0 = Some 404"
  by (subst http_headers.simps, subst http_headers.simps)
    (simp add: demo_net_def header_line_def status_match_def newline_def atoi_def strtol_def take_sign_def strtol_base_def
      digit_val_def char_defs clamp_long_def to_int32_id)

lemma demo_net_input_fields:
  "r_channel (n_input (demo_net_input url)) = demo_url_channel url" "source (demo_url_channel url) = Some url"
  "num_src (demo_url_channel url) = 1" "curr_src (demo_url_channel url) = 0" "sources (demo_url_channel url) ! 0 = Some url"
  "worktime_start (demo_url_channel url) = 0" "worktime_end (demo_url_channel url) = 0" "chan_ok (demo_url_channel url)"
  "working (n_input (demo_net_input url))" "\<not> r_dienow (n_input (demo_net_input url))"
proof -
  obtain c :: "psi_table channel" where c: "channel_new 7 0 ''a'' ''A'' 1 url 3 0 0 = Some c" by (simp add: channel_new_def)
  have d: "demo_url_channel url = c" by (simp add: demo_url_channel_def c)
  show "chan_ok (demo_url_channel url)" unfolding d by (rule channel_new_ok [OF c])
  show "r_channel (n_input (demo_net_input url)) = demo_url_channel url" "working (n_input (demo_net_input url))"
    "\<not> r_dienow (n_input (demo_net_input url))"
    by (simp_all add: demo_net_input_def demo_input_def)
  show "source (demo_url_channel url) = Some url" "num_src (demo_url_channel url) = 1" "curr_src (demo_url_channel url) = 0"
    "sources (demo_url_channel url) ! 0 = Some url" "worktime_start (demo_url_channel url) = 0" "worktime_end (demo_url_channel url) = 0"
    using c by (auto simp: d channel_new_def chansrc_add_def MAX_CHANNEL_SOURCES_def)
qed

lemma demo_refuses: "\<exists>src. refuses demo_net (demo_net_input ''http://h/x'') src 404"
proof -
  have "url_match ''http://h/x'' = Some (''http'', ''h'', [], True, ''x'')" by code_simp
  then show ?thesis
    using demo_headers by (auto simp: refuses_def demo_net_input_fields chansrc_init_def Let_def get_sproto_def) (auto simp: demo_net_def)
qed

lemma demo_run:
  "\<exists>es r'. input_thread demo_lib 0 [demo_turn] (demo_net_input ''http://h/x'') = Some (False, [Reconnected], es, r') \<and> es \<noteq> []"
proof -
  let ?r = "demo_net_input ''http://h/x''"
  obtain src where src: "refuses demo_net ?r src 404" using demo_refuses by blast
  have time: "in_time 0 (n_input ?r)" by (simp add: in_time_def in_worktime_def demo_net_input_fields)
  have r: "?r\<lparr> n_input := (n_input ?r)\<lparr> working := True \<rparr> \<rparr> = ?r" by (simp add: demo_net_input_def demo_input_def)
  obtain es r' where "session_turn demo_lib demo_turn 0 ?r = Some (Reconnected, 404, es, r')" "es \<noteq> []"
    using refused_turn [of demo_turn ?r src 404 demo_lib 0] src time by (auto simp: demo_turn_def demo_net_input_fields)
  then show ?thesis using time r by (simp add: input_thread_def) (simp add: demo_turn_def)
qed

text \<open>
  C13. Whatever the network, the clock and the other threads do, an input thread has at most one
  descriptor open at any time, none between two turns, and none when it has ended.
\<close>

theorem input_loses_no_descriptor:
  assumes "input_thread L now Ts r = Some (ended, ks, es, r')"
  shows "(\<forall>n. card (open_after (take n es) {}) \<le> 1) \<and> open_after es {} = {}"
  using input_turns_open assms unfolding input_thread_def one_open_def by blast

theorem input_loses_no_descriptor_witness:
  "\<exists>ended ks es r'. input_thread demo_lib 0 [demo_turn] (demo_net_input ''http://h/x'') = Some (ended, ks, es, r') \<and> es \<noteq> [] \<and>
     open_after es {} = {}"
proof -
  obtain ks es r' where run: "input_thread demo_lib 0 [demo_turn] (demo_net_input ''http://h/x'') = Some (False, ks, es, r')" "es \<noteq> []"
    using demo_run by blast
  show ?thesis using input_loses_no_descriptor [OF run(1)] run by blast
qed

text \<open>
  C14. The sources of a channel take turns: after \<open>n\<close> turns that ended in a reconnect, for
  whatever reason, the input is at the source \<open>n\<close> places further on, cyclically; a turn that
  ended with the work time keeps its source. So no configured source is left out for ever.
\<close>

theorem sources_take_turns:
  assumes "input_thread L now Ts r = Some (ended, ks, es, r')" and "\<forall>T \<in> set Ts. poke_ok T"
    and "chan_ok (r_channel (n_input r))" and "0 < num_src (r_channel (n_input r))"
  shows "let c = r_channel (n_input r); c' = r_channel (n_input r'); i = (curr_src c + length (filter ((=) Reconnected) ks)) mod num_src c in
    sources c' = sources c \<and> num_src c' = num_src c \<and> curr_src c' = i \<and> source c' = sources c ! i"
proof -
  let ?c = "r_channel (n_input r)" and ?n = "length (filter ((=) Reconnected) ks)"
  have s: "same_sources ((chansrc_next ^^ ?n) ?c) (r_channel (n_input r'))"
    using input_turns_sources [OF assms(1) [unfolded input_thread_def] assms(2)] by simp
  note P = chansrc_next_pow [OF assms(3,4), of ?n]
  have "source ((chansrc_next ^^ ?n) ?c) = sources ?c ! ((curr_src ?c + ?n) mod num_src ?c)"
    using chan_okD(5) [of "(chansrc_next ^^ ?n) ?c"] P assms(4) by simp
  with s P show ?thesis by (simp add: same_sources_def Let_def)
qed

theorem sources_take_turns_witness:
  "\<exists>ended ks es r'. input_thread demo_lib 0 [demo_turn] (demo_net_input ''http://h/x'') = Some (ended, ks, es, r') \<and>
     source (r_channel (n_input r')) = Some ''http://h/x''"
proof -
  obtain ks es r' where run: "input_thread demo_lib 0 [demo_turn] (demo_net_input ''http://h/x'') = Some (False, ks, es, r')"
    using demo_run by blast
  have "poke_ok demo_turn" by (simp add: poke_ok_def demo_turn_def)
  with sources_take_turns [OF run] run show ?thesis by (auto simp: Let_def demo_net_input_fields)
qed


text \<open>
  C22. An input with a single source whose server answers with an error code connects again at
  once, without any pause, for as long as the program runs: the result that is documented to end
  the thread only ends the turn.
\<close>

theorem refused_source_spins:
  assumes "refuses (te_net T) r src code" and "\<And>k i. te_poke T k i = i" and "te_going T" and "in_time (te_now T) (n_input r)"
    and "working (n_input r)" and "\<not> r_dienow (n_input r)" and "num_src (r_channel (n_input r)) \<le> 1"
  shows "\<exists>r'. input_turns L (replicate n T) c r = Some (False, replicate n Reconnected,
    concat (replicate n [Opened (ne_socket (te_net T)), Wrote (ne_socket (te_net T)) (http_request (te_net T) src),
      Shut (ne_socket (te_net T))]), r')"
  using assms(1,4-7)
proof (induction n arbitrary: c r)
  case (Suc n)
  obtain r1 where t: "session_turn L T c r = Some (Reconnected, code,
      [Opened (ne_socket (te_net T)), Wrote (ne_socket (te_net T)) (http_request (te_net T) src), Shut (ne_socket (te_net T))], r1)"
    and same: "r_channel (n_input r1) = r_channel (n_input r)" "working (n_input r1)" "\<not> r_dienow (n_input r1)"
    using refused_turn [OF Suc.prems(1) assms(2) Suc.prems(2-5), of L c] by blast
  have "refuses (te_net T) r1 src code" "in_time (te_now T) (n_input r1)" "num_src (r_channel (n_input r1)) \<le> 1"
    using Suc.prems same(1) by (simp_all add: refuses_def in_time_def)
  with Suc.IH [of r1 code] same(2,3) t assms(3) show ?case by auto
qed simp

theorem refused_source_spins_witness:
  "\<exists>src r'. input_turns demo_lib (replicate 100 demo_turn) 0 (demo_net_input ''http://h/x'') = Some (False, replicate 100 Reconnected,
     concat (replicate 100 [Opened 5, Wrote 5 (http_request demo_net src), Shut 5]), r')"
proof -
  obtain src where src: "refuses demo_net (demo_net_input ''http://h/x'') src 404" using demo_refuses by blast
  have T: "te_net demo_turn = demo_net" "te_going demo_turn" "te_now demo_turn = 0" "ne_socket demo_net = 5"
    by (simp_all add: demo_turn_def demo_net_def)
  have "in_time 0 (n_input (demo_net_input ''http://h/x''))" by (simp add: in_time_def in_worktime_def demo_net_input_fields)
  moreover have "te_poke demo_turn k i = i" for k i by (simp add: demo_turn_def)
  ultimately have "\<exists>r'. input_turns demo_lib (replicate 100 demo_turn) 0 (demo_net_input ''http://h/x'') = Some (False, replicate 100 Reconnected,
     concat (replicate 100 [Opened 5, Wrote 5 (http_request demo_net src), Shut 5]), r')"
    using refused_source_spins [of demo_turn "demo_net_input ''http://h/x''" src 404 demo_lib 100 0] src
    by (simp only: T demo_net_input_fields simp_thms)
  then show ?thesis by blast
qed

text \<open>
  An input that waits for its work time does not look at the request to stop: while the
  program runs and the work time does not come, the turn never ends, whatever the other
  threads store in the input.
\<close>

theorem worktime_wait_ignores_stop:
  assumes "\<And>k. te_keep T k" and "\<And>k i. \<not> in_time (te_wait T k) (te_poke T (k + 1) i)"
    and "\<not> r_dienow (te_poke T 0 (n_input r))" and "\<not> working (te_poke T 0 (n_input r))"
  shows "session_turn L T c r = None"
proof -
  have "wait_work T 0 (te_poke T 0 (n_input r)) = None"
    using wait_work_never [OF _ assms(1,2)] assms(4) by (cases "wait_work T 0 (te_poke T 0 (n_input r))") auto
  then show ?thesis using assms(3) by (simp add: session_turn_def Let_def input_check_state_def)
qed

theorem worktime_wait_ignores_stop_witness:
  "session_turn demo_lib (demo_turn\<lparr> te_poke := (\<lambda>k i. if k = 0 then i else i\<lparr> r_dienow := True, r_channel :=
       (r_channel i)\<lparr> worktime_start := 36000, worktime_end := 72000 \<rparr> \<rparr>) \<rparr>) 0
     ((demo_net_input ''http://h/x'')\<lparr> n_input := (demo_input [])\<lparr> working := False \<rparr> \<rparr>) = None"
  by (rule worktime_wait_ignores_stop) (simp_all add: demo_turn_def in_time_def in_worktime_def demo_input_def)

end
