(* ===== verification/Web.thy ===== *)
theory Web
  imports Network
begin

text \<open>
  The web server, \<^verbatim>\<open>src/web_server.c\<close> and
  \<^verbatim>\<open>src/web_pages.c\<close>: what a request is, which page answers it, and the loop that
  accepts connections. The lines of a request are parameters; the answers are recorded as what
  is sent, and the descriptors as in the theory of the network.
\<close>

section \<open>A request\<close>

text \<open>The texts of libfuncs are named by the function that sends them.\<close>

datatype web_reply = Send200Ok | SendTextPlain | Send404NotFound | Send501NotImplemented | Puts string

text \<open>\<open>keep_going\<close>, the lines \<^verbatim>\<open>fdgetline\<close> returns, \<^verbatim>\<open>chomp\<close>, and the number of inputs.\<close>

record web_env =
  we_going :: bool
  we_malloc :: bool
  we_lines :: "nat \<Rightarrow> int \<times> string"
  we_chomp :: "string \<Rightarrow> string"
  we_items :: nat

text \<open>
  \<^verbatim>\<open>^GET /([^ ]*) HTTP/1.*$\<close>: the group is what stands between the slash and the
  next blank.
\<close>

definition request_match :: "string \<Rightarrow> string option" where
  "request_match buf =
     (if take 5 buf = ''GET /'' then
        (let p = takeWhile (\<lambda>c. c \<noteq> CHR '' '') (drop 5 buf) in
         if take 7 (drop (length p) (drop 5 buf)) = '' HTTP/1'' then Some p else None)
      else None)"

text \<open>
  The path without a trailing slash, which is looked for at the place the match ended: not
  when \<^verbatim>\<open>chomp\<close> has cut the path. For an empty path the character there is the slash of
  \<^verbatim>\<open>GET /\<close>, and overwriting that leaves the path as it is.
\<close>

definition request_path :: "web_env \<Rightarrow> string \<Rightarrow> string option" where
  "request_path W buf =
     (case request_match buf of
        None \<Rightarrow> None
      | Some p \<Rightarrow>
          (let q = we_chomp W p in
           Some (if q \<noteq> [] \<and> length q = length p \<and> last q = CHR ''/'' then butlast q else q)))"

text \<open>The headers are read and thrown away.\<close>

partial_function (option) skip_headers :: "(nat \<Rightarrow> int \<times> string) \<Rightarrow> nat \<Rightarrow> nat option" where
  "skip_headers lines k =
     (case lines k of (ret, buf) \<Rightarrow>
        if ret > 0 then
          (if buf \<noteq> [] \<and> (hd buf = newline \<or> hd buf = CHR 0x0D) then Some (k + 1) else skip_headers lines (k + 1))
        else Some (k + 1))"

declare skip_headers.simps [code]

definition cmd_index :: "web_reply list" where
  "cmd_index = [Send200Ok, SendTextPlain, Puts ([newline] @ ''Hi from mptsd.'' @ [newline])]"

definition cmd_reconnect :: "nat \<Rightarrow> web_reply list" where
  "cmd_reconnect items =
     [Send200Ok, SendTextPlain, Puts ([newline] @ ''Reconnecting '' @ show_nat items @ '' inputs.'' @ [newline])]"

text \<open>
  The thread of a request: what it sends, and what it does with the client's descriptor. It has
  no value when the headers never end.
\<close>

definition process_web_request :: "web_env \<Rightarrow> int \<Rightarrow> (web_reply list \<times> net_event list) option" where
  "process_web_request W clientsock =
     (if \<not> we_going W then Some ([], [])
      else if \<not> we_malloc W then Some ([], [Shut clientsock])
      else
        (case we_lines W 0 of (ret, buf) \<Rightarrow>
           if ret \<le> 0 then Some ([], [Shut clientsock])
           else
             (case request_path W buf of
                None \<Rightarrow> Some ([Send501NotImplemented], [Shut clientsock])
              | Some pth \<Rightarrow>
                  (case skip_headers (we_lines W) 1 of
                     None \<Rightarrow> None
                   | Some _ \<Rightarrow>
                       Some (if length pth = 0 then cmd_index
                             else if take 9 pth = ''reconnect'' then cmd_reconnect (we_items W)
                             else [Send404NotFound], [Shut clientsock])))))"

section \<open>The server\<close>

text \<open>
  One turn of the accepting thread: \<open>accept\<close> gave \<open>fd\<close>; \<open>full\<close> is EMFILE or ENFILE. It goes on,
  stops, or ends the program when the thread of the request can't be created.
\<close>

datatype server_end = ServeNext | ServeStop | ServeExit

record accept_env =
  ae_going :: bool
  ae_accept :: int
  ae_full :: bool
  ae_malloc :: bool
  ae_thread :: bool
  ae_web :: web_env

definition serve_one :: "accept_env \<Rightarrow> (server_end \<times> web_reply list \<times> net_event list) option" where
  "serve_one A =
     (let fd = ae_accept A in
      if fd < 0 then Some (if ae_full A then ServeStop else ServeNext, [], [])
      else if \<not> ae_malloc A then Some (ServeNext, [], [Opened fd])
      else if \<not> ae_thread A then Some (ServeExit, [], [Opened fd])
      else (case process_web_request (ae_web A) fd of
              None \<Rightarrow> None
            | Some (rs, es) \<Rightarrow> Some (ServeNext, rs, Opened fd # es)))"

fun web_server_thread :: "accept_env list \<Rightarrow> (server_end \<times> web_reply list list \<times> net_event list) option" where
  "web_server_thread [] = Some (ServeNext, [], [])"
| "web_server_thread (A # As) =
     (if \<not> ae_going A then Some (ServeStop, [], [])
      else
        (case serve_one A of
           None \<Rightarrow> None
         | Some (e, rs, es) \<Rightarrow>
             if e \<noteq> ServeNext then Some (e, [rs], es)
             else (case web_server_thread As of
                     None \<Rightarrow> None
                   | Some (e', rss, es') \<Rightarrow> Some (e', rs # rss, es @ es'))))"

text \<open>Starting and stopping, with the socket of the configuration.\<close>

definition web_server_start :: "int \<Rightarrow> bool" where
  "web_server_start server_socket \<longleftrightarrow> server_socket > - 1"

definition web_server_stop :: "(int \<Rightarrow> int) \<Rightarrow> int \<Rightarrow> int \<times> net_event list" where
  "web_server_stop shut server_socket =
     (if server_socket > - 1 then (shut server_socket, [Shut server_socket]) else (server_socket, []))"


section \<open>Properties\<close>






end
