(* ===== verification/Regex.thy ===== *)
theory Regex
  imports Web
begin

text \<open>
  The regular expressions of the program. Sources of channels, requests to the web server and
  answers of a source are taken apart with \<^verbatim>\<open>regexec\<close>; the theories before model
  that by cutting the strings directly. Here are the patterns as the code writes them, with a
  matcher that tries every length of every item, the longest first, and the proof that the
  direct functions are these matchers.
\<close>

section \<open>Patterns\<close>

text \<open>
  The patterns are sequences of items: characters of a class, at least so many and perhaps at
  most so many of them. An anchor at the start is the start of the match; the last item of each
  pattern, any characters, takes the rest.
\<close>

datatype rx_item = Rx "char \<Rightarrow> bool" nat "nat option"

definition rx_char :: "char \<Rightarrow> rx_item" where "rx_char c = Rx (\<lambda>x. x = c) 1 (Some 1)"
definition rx_opt :: "char \<Rightarrow> rx_item" where "rx_opt c = Rx (\<lambda>x. x = c) 0 (Some 1)"
definition rx_plus :: "(char \<Rightarrow> bool) \<Rightarrow> rx_item" where "rx_plus P = Rx P 1 None"
definition rx_star :: "(char \<Rightarrow> bool) \<Rightarrow> rx_item" where "rx_star P = Rx P 0 None"

fun first_some :: "('a \<Rightarrow> 'b option) \<Rightarrow> 'a list \<Rightarrow> 'b option" where
  "first_some f [] = None"
| "first_some f (x # xs) = (case f x of None \<Rightarrow> first_some f xs | Some y \<Rightarrow> Some y)"

text \<open>
  The submatches of the items, by the rule of POSIX for a sequence: every item takes the
  longest string with which the rest still matches.
\<close>

fun rx_match :: "rx_item list \<Rightarrow> string \<Rightarrow> string list option" where
  "rx_match [] s = Some []"
| "rx_match (Rx P lo hi # rs) s =
     (let m = length (takeWhile P (case hi of None \<Rightarrow> s | Some h \<Rightarrow> take h s)) in
      first_some (\<lambda>k. map_option ((#) (take k s)) (rx_match rs (drop k s))) (rev [lo..<m + 1]))"

definition rx_string :: "string \<Rightarrow> rx_item list" where
  "rx_string s = map rx_char s"

text \<open>\<^verbatim>\<open>^([a-z]+)://([^:/?]+):?([0-9]*)/?(.*)\<close>\<close>

definition url_rx :: "rx_item list" where
  "url_rx = [rx_plus islower] @ rx_string ''://'' @
     [rx_plus (\<lambda>c. c \<notin> set '':/?''), rx_opt CHR '':'', rx_star isdigit, rx_opt CHR ''/'', rx_star (\<lambda>_. True)]"

text \<open>\<^verbatim>\<open>^GET /([^ ]*) HTTP/1.*$\<close>\<close>

definition request_rx :: "rx_item list" where
  "request_rx = rx_string ''GET /'' @ [rx_star (\<lambda>c. c \<noteq> CHR '' '')] @ rx_string '' HTTP/1'' @ [rx_star (\<lambda>_. True)]"

text \<open>\<^verbatim>\<open>^HTTP/1.[0-1] (([0-9]{3}) .*)\<close>\<close>

definition status_rx :: "rx_item list" where
  "status_rx = rx_string ''HTTP/1'' @
     [Rx (\<lambda>_. True) 1 (Some 1), Rx (\<lambda>c. c \<in> {CHR ''0'', CHR ''1''}) 1 (Some 1), rx_char CHR '' '',
      Rx isdigit 3 (Some 3), rx_char CHR '' '', rx_star (\<lambda>_. True)]"

section \<open>Items that leave no choice\<close>

lemma first_some_None: "first_some f xs = None \<longleftrightarrow> (\<forall>x \<in> set xs. f x = None)"
  by (induction xs) (auto split: option.splits)

lemma first_some_first: "xs \<noteq> [] \<Longrightarrow> f (hd xs) = Some y \<Longrightarrow> first_some f xs = Some y"
  by (cases xs) auto

lemma first_some_only:
  assumes "x \<in> set xs" and "\<And>y. y \<in> set xs \<Longrightarrow> y \<noteq> x \<Longrightarrow> f y = None"
  shows "first_some f xs = f x"
  using assms
proof (induction xs)
  case (Cons a xs)
  then show ?case
  proof (cases "a = x")
    case True
    have "first_some f xs = None" if "f x = None" using Cons.prems(2) that by (metis first_some_None list.set_intros(2))
    with True show ?thesis by (auto split: option.splits)
  next
    case False
    with Cons show ?thesis by auto
  qed
qed simp

lemma rx_char_match:
  "rx_match (rx_char c # rs) s = (if take 1 s = [c] then map_option ((#) [c]) (rx_match rs (drop 1 s)) else None)"
  by (cases s) (auto simp: rx_char_def split: option.splits)

lemma rx_string_match:
  "rx_match (rx_string t @ rs) s =
     (if take (length t) s = t then map_option ((@) (map (\<lambda>c. [c]) t)) (rx_match rs (drop (length t) s)) else None)"
proof (induction t arbitrary: s)
  case (Cons c t)
  then show ?case
    by (cases s) (auto simp: rx_string_def rx_char_match option.map_comp comp_def)
qed (simp add: rx_string_def option.map_id [unfolded id_def] fun_eq_iff option.map_ident_strong)

lemma rx_one_match:
  "rx_match (Rx P 1 (Some 1) # rs) s =
     (case s of c # cs \<Rightarrow> if P c then map_option ((#) [c]) (rx_match rs cs) else None | [] \<Rightarrow> None)"
  by (cases s) (auto split: option.splits)

text \<open>An optional character is taken when it is there, if the rest always matches.\<close>

lemma rx_opt_match:
  assumes "\<And>t. rx_match rs t \<noteq> None"
  shows "rx_match (rx_opt c # rs) s =
     (if take 1 s = [c] then map_option ((#) [c]) (rx_match rs (drop 1 s)) else map_option ((#) []) (rx_match rs s))"
proof -
  obtain ms where "rx_match rs (drop 1 s) = Some ms" using assms by blast
  then show ?thesis by (cases s) (auto simp: rx_opt_def split: option.splits)
qed

text \<open>A star takes all it can, if the rest always matches.\<close>

lemma rx_star_match:
  assumes "\<And>t. rx_match rs t \<noteq> None"
  shows "rx_match (rx_star P # rs) s =
     map_option ((#) (takeWhile P s)) (rx_match rs (drop (length (takeWhile P s)) s))"
proof -
  let ?m = "length (takeWhile P s)"
  obtain ms where ms: "rx_match rs (drop ?m s) = Some ms" using assms by blast
  have "take ?m s = takeWhile P s" by (metis takeWhile_eq_take)
  then have "first_some (\<lambda>k. map_option ((#) (take k s)) (rx_match rs (drop k s))) (rev [0..<?m + 1]) = Some (takeWhile P s # ms)"
    using ms by (intro first_some_first) (simp_all add: hd_rev)
  then show ?thesis using ms by (simp add: rx_star_def del: upt_Suc)
qed

lemma rx_rest: "rx_match [rx_star (\<lambda>_. True)] s = Some [s]"
proof -
  have "takeWhile (\<lambda>_. True) s = s" by (simp add: takeWhile_eq_all_conv)
  then show ?thesis using rx_star_match [of "[]" "\<lambda>_. True" s] by simp
qed

text \<open>A repetition takes all it can when the rest can't start inside it.\<close>

lemma rx_repeat_match:
  assumes "\<And>k. k < length (takeWhile P s) \<Longrightarrow> rx_match rs (drop k s) = None"
  shows "rx_match (Rx P lo None # rs) s =
     (if lo \<le> length (takeWhile P s) then map_option ((#) (takeWhile P s)) (rx_match rs (drop (length (takeWhile P s)) s)) else None)"
proof -
  let ?m = "length (takeWhile P s)"
  let ?f = "\<lambda>k. map_option ((#) (take k s)) (rx_match rs (drop k s))"
  have "take ?m s = takeWhile P s" by (metis takeWhile_eq_take)
  moreover have "first_some ?f (rev [lo..<?m + 1]) = ?f ?m" if "lo \<le> ?m"
    by (rule first_some_only) (use that assms in auto)
  moreover have "rev [lo..<?m + 1] = []" if "\<not> lo \<le> ?m" using that by simp
  ultimately show ?thesis by (simp add: Let_def del: upt_Suc)
qed

lemma nth_takeWhile_holds: "k < length (takeWhile P s) \<Longrightarrow> P (s ! k)"
  by (metis nth_mem set_takeWhileD takeWhile_nth)

lemma string_needs_first:
  "s \<noteq> [] \<Longrightarrow> t \<noteq> [] \<Longrightarrow> hd s \<noteq> hd t \<Longrightarrow> rx_match (rx_string t @ rs) s = None"
  by (cases s; cases t) (auto simp: rx_string_match)

lemma string_not_inside:
  assumes "t \<noteq> []" and "\<not> P (hd t)" and "k < length (takeWhile P s)"
  shows "rx_match (rx_string t @ rs) (drop k s) = None"
proof (rule string_needs_first)
  have "k < length s" using assms(3) length_takeWhile_le [of P s] by linarith
  then show "drop k s \<noteq> []" "hd (drop k s) \<noteq> hd t"
    using nth_takeWhile_holds [OF assms(3)] assms(2) by (auto simp: hd_drop_conv_nth)
qed (rule assms(1))

lemma rx_greedy:
  assumes "\<And>t. rx_match rs t \<noteq> None"
  shows "rx_match (Rx P lo None # rs) s =
     (if lo \<le> length (takeWhile P s) then map_option ((#) (takeWhile P s)) (rx_match rs (drop (length (takeWhile P s)) s)) else None)"
proof -
  let ?m = "length (takeWhile P s)"
  obtain ms where ms: "rx_match rs (drop ?m s) = Some ms" using assms by blast
  have "take ?m s = takeWhile P s" by (metis takeWhile_eq_take)
  then have "first_some (\<lambda>k. map_option ((#) (take k s)) (rx_match rs (drop k s))) (rev [lo..<?m + 1]) = Some (takeWhile P s # ms)"
    if "lo \<le> ?m" using ms that by (intro first_some_first) (simp_all add: hd_rev)
  moreover have "rev [lo..<?m + 1] = []" if "\<not> lo \<le> ?m" using that by simp
  ultimately show ?thesis using ms by (simp add: Let_def del: upt_Suc)
qed

lemma rx_exact:
  "rx_match (Rx P n (Some n) # rs) s =
     (if length (takeWhile P (take n s)) = n then map_option ((#) (take n s)) (rx_match rs (drop n s)) else None)"
proof -
  let ?m = "length (takeWhile P (take n s))"
  have "?m \<le> n" using length_takeWhile_le [of P "take n s"] by simp
  then show ?thesis by (auto split: option.splits)
qed

section \<open>Properties\<close>

definition url_tail :: "rx_item list" where
  "url_tail = [rx_opt CHR '':'', rx_star isdigit, rx_opt CHR ''/'', rx_star (\<lambda>_. True)]"

lemma url_tail_matches:
  "rx_match [rx_opt CHR ''/'', rx_star (\<lambda>_. True)] s = Some (if take 1 s = ''/'' then [''/'', drop 1 s] else [[], s])"
  "rx_match url_tail s =
     (let t = (if take 1 s = '':'' then drop 1 s else s); d = takeWhile isdigit t; r = drop (length d) t in
      Some [if take 1 s = '':'' then '':'' else [], d, if take 1 r = ''/'' then ''/'' else [], if take 1 r = ''/'' then drop 1 r else r])"
proof -
  show two: "rx_match [rx_opt CHR ''/'', rx_star (\<lambda>_. True)] s = Some (if take 1 s = ''/'' then [''/'', drop 1 s] else [[], s])" for s
    by (subst rx_opt_match) (simp_all add: rx_rest)
  have three: "rx_match [rx_star isdigit, rx_opt CHR ''/'', rx_star (\<lambda>_. True)] s =
      (let d = takeWhile isdigit s; r = drop (length d) s in
       Some [d, if take 1 r = ''/'' then ''/'' else [], if take 1 r = ''/'' then drop 1 r else r])" for s
    by (subst rx_star_match) (simp_all add: two Let_def)
  show "rx_match url_tail s =
     (let t = (if take 1 s = '':'' then drop 1 s else s); d = takeWhile isdigit t; r = drop (length d) t in
      Some [if take 1 s = '':'' then '':'' else [], d, if take 1 r = ''/'' then ''/'' else [], if take 1 r = ''/'' then drop 1 r else r])"
    unfolding url_tail_def by (subst rx_opt_match) (simp_all add: three Let_def)
qed

lemma url_match_rx:
  "url_match u = map_option (\<lambda>ms. (ms ! 0, ms ! 4, ms ! 6, ms ! 7 = ''/'', ms ! 8)) (rx_match url_rx u)"
proof -
  have rx: "url_rx = rx_plus islower # rx_string ''://'' @ rx_plus (\<lambda>c. c \<notin> set '':/?'') # url_tail"
    by (simp add: url_rx_def url_tail_def)
  let ?p = "takeWhile islower u"
  let ?r = "drop (length ?p) u"
  have inside: "rx_match (rx_string ''://'' @ rx_plus (\<lambda>c. c \<notin> set '':/?'') # url_tail) (drop k u) = None" if "k < length ?p" for k
    by (rule string_not_inside [where P = islower]) (use that in \<open>simp_all add: char_defs\<close>)
  have first: "rx_match url_rx u = (if ?p \<noteq> [] then map_option ((#) ?p)
      (rx_match (rx_string ''://'' @ rx_plus (\<lambda>c. c \<notin> set '':/?'') # url_tail) ?r) else None)"
    unfolding rx rx_plus_def [of islower]
    by (subst rx_repeat_match [OF inside]) (simp_all add: Suc_le_eq)
  have host: "rx_match (rx_plus (\<lambda>c. c \<notin> set '':/?'') # url_tail) t =
      (let h = takeWhile (\<lambda>c. c \<notin> set '':/?'') t in if h \<noteq> [] then map_option ((#) h) (rx_match url_tail (drop (length h) t)) else None)" for t
    unfolding rx_plus_def by (subst rx_greedy) (simp_all add: url_tail_matches Let_def Suc_le_eq)
  show ?thesis
    unfolding first rx_string_match host url_tail_matches(2) url_match_def Let_def by (simp add: option.map_comp comp_def eval_nat_numeral)
qed

lemma request_match_rx: "request_match b = map_option (\<lambda>ms. ms ! 5) (rx_match request_rx b)"
proof -
  have inside: "rx_match (rx_string '' HTTP/1'' @ [rx_star (\<lambda>_. True)]) (drop k t) = None"
    if "k < length (takeWhile (\<lambda>c. c \<noteq> CHR '' '') t)" for k t
    by (rule string_not_inside [where P = "\<lambda>c. c \<noteq> CHR '' ''"]) (use that in simp_all)
  have star: "rx_match (rx_star (\<lambda>c. c \<noteq> CHR '' '') # rx_string '' HTTP/1'' @ [rx_star (\<lambda>_. True)]) t =
      map_option ((#) (takeWhile (\<lambda>c. c \<noteq> CHR '' '') t))
        (rx_match (rx_string '' HTTP/1'' @ [rx_star (\<lambda>_. True)]) (drop (length (takeWhile (\<lambda>c. c \<noteq> CHR '' '') t)) t))" for t
    unfolding rx_star_def [of "\<lambda>c. c \<noteq> CHR '' ''"] by (subst rx_repeat_match [OF inside]) simp_all
  show ?thesis
    unfolding request_rx_def append.simps rx_string_match star rx_rest request_match_def Let_def
    by (simp add: option.map_comp comp_def eval_nat_numeral)
qed

lemma status_match_rx:
  "status_match b = map_option (\<lambda>ms. (ms ! 9 @ ms ! 10 @ ms ! 11, ms ! 9)) (rx_match status_rx b)"
  unfolding status_rx_def append.simps rx_string_match rx_one_match rx_char_match rx_exact rx_rest status_match_def
  by (auto split: list.split)


text \<open>
  C25. The functions that take URLs, requests and status lines apart are the matchers of the
  patterns in the code, groups included: the longest match of each item in turn.
\<close>

theorem regex_functions_exact:
  "url_match u = map_option (\<lambda>ms. (ms ! 0, ms ! 4, ms ! 6, ms ! 7 = ''/'', ms ! 8)) (rx_match url_rx u) \<and>
   is_valid_url u = (rx_match url_rx u \<noteq> None) \<and>
   request_match b = map_option (\<lambda>ms. ms ! 5) (rx_match request_rx b) \<and>
   status_match l = map_option (\<lambda>ms. (ms ! 9 @ ms ! 10 @ ms ! 11, ms ! 9)) (rx_match status_rx l)"
  using url_match_rx [of u] request_match_rx status_match_rx by (simp add: is_valid_url_def)

end
