(* ===== verification/Program.thy ===== *)
theory Program
  imports Threads Pipeline Psi Chanfile Session Web
begin

text \<open>
  The program as a whole: \<^verbatim>\<open>main\<close> of \<^verbatim>\<open>src/mptsd.c\<close> puts the
  components together. It loads the configuration, builds the tables, connects the output,
  starts an input for every channel and the three output threads; at the end it stops them and
  frees what it opened. The state it starts the threads in is the one the theorems on inputs,
  PSI and output pipeline assume.
\<close>

section \<open>The environment\<close>

text \<open>
  What the libraries and the operating system answer: the files, \<^verbatim>\<open>rand\<close>,
  \<^verbatim>\<open>xstrcmp\<close>, the table builders with the number of programs of a PAT,
  \<^verbatim>\<open>cbuf_init\<close> for the PSI buffer (None: no memory) and for an input, the clock,
  the socket calls, \<^verbatim>\<open>open\<close>, and whether the \<open>k\<close>-th output thread could be created.
\<close>

record 'b program_env =
  pr_opts :: options_env
  pr_files :: files
  pr_can :: "nat \<Rightarrow> bool"
  pr_below :: char
  pr_cookie :: int
  pr_epg :: "psi_table epg_env"
  pr_cmp :: "string option \<Rightarrow> string option \<Rightarrow> int"
  pr_build :: "psi_table ts_build"
  pr_programs :: "psi_table \<Rightarrow> nat"
  pr_tdt :: "int \<Rightarrow> psi_table"
  pr_tot :: "int \<Rightarrow> psi_table"
  pr_time :: int
  pr_clock :: int
  pr_psibuf :: "nat \<Rightarrow> 'b option"
  pr_cbuf :: "nat \<Rightarrow> string \<Rightarrow> 'b"
  pr_udp :: udp_env
  pr_open :: "string \<Rightarrow> int"
  pr_lib :: "'b input_env"
  pr_cb :: "'b cbuf_ops"
  pr_oob :: "int \<Rightarrow> int"
  pr_thread :: "nat \<Rightarrow> bool"

section \<open>The objects\<close>

text \<open>\<^verbatim>\<open>output_new\<close>: the PSI part of the output, all zero but its buffer of 50 frames.\<close>

definition output_new :: "'b program_env \<Rightarrow> stop + 'b psi_out" where
  "output_new P =
     (case pr_psibuf P (50 * 1316) of
        None \<Rightarrow> Inl (Exit 1)
      | Some b \<Rightarrow> Inr
          \<lparr> psibuf = b, pid_pat_cont = 0, pid_nit_cont = 0, pid_sdt_cont = 0, pid_eit_cont = 0, pid_tdt_cont = 0,
            pat = \<lparr> pt_num = 0, pt_data = [], pt_continuity = 0 \<rparr>, pat_programs = 0, sdt = None, nit_table = None,
            tdt = None, tot = None, pat_ts = 0, nit_ts = 0, sdt_ts = 0, tdt_ts = 0, tot_ts = 0, eit_ts = 0 \<rparr>)"

text \<open>\<^verbatim>\<open>input_stream_alloc\<close> on a zeroed structure, and \<^verbatim>\<open>input_new\<close>.\<close>

definition input_stream_alloc :: "'b input_env \<Rightarrow> psi_table channel \<Rightarrow> input_stream \<Rightarrow> input_stream" where
  "input_stream_alloc L c s =
     s\<lparr> is_pidref := pidref_init 64 (word_of_int (c_base_pid c)), is_pat := pat_alloc L, is_pmt := pmt_alloc L,
        is_eit := eit_alloc L, last_pat := pat_alloc L, last_pmt := pmt_alloc L \<rparr>"

definition zero_stream :: "'b input_env \<Rightarrow> input_stream" where
  "zero_stream L =
     \<lparr> is_pidref = pidref_init 0 0, nit_pid = 0, pmt_pid = 0, pcr_pid = 0, is_pat = pat_alloc L, is_pmt = pmt_alloc L,
       is_eit = eit_alloc L, input_pcr = 0, is_pat_cont = 0, is_pmt_cont = 0, is_eit_cont = 0, pat_rewritten = None,
       pmt_rewritten = None, eit_rewritten = None, last_pat = pat_alloc L, last_pmt = pmt_alloc L \<rparr>"

definition input_file_name :: "psi_table channel \<Rightarrow> string" where
  "input_file_name c = ''mptsd-input-'' @ c_id c @ ''.ts''"

definition new_input :: "'b program_env \<Rightarrow> bool \<Rightarrow> psi_table channel \<Rightarrow> 'b net_input" where
  "new_input P write_input_file c =
     \<lparr> n_input =
         \<lparr> in_buf = pr_cbuf P (1428 * 1316 * 4) (c_id c), output_pcr_pid = 0, output_last_pcr = 0, output_pcr = 0,
           output_pcr_packets_needed = 0, outputed_packets = 0, input_ready = 0, r_channel = c,
           r_stream = input_stream_alloc (pr_lib P) c (zero_stream (pr_lib P)), reconnect = False, working = False,
           r_dienow = False, freechannel = False, cookie = 0,
           ifd = (if write_input_file then pr_open P (input_file_name c) else 0), disabled = False, ifile = [] \<rparr>,
       r_sock = - 1, connected = False, src_addr = 0 \<rparr>"

section \<open>The tables\<close>

definition psi_conf_of :: "options \<Rightarrow> psi_table config \<Rightarrow> psi_table psi_conf" where
  "psi_conf_of s cf =
     \<lparr> pc_network_id = cf_network_id cf, pc_ts_id = cf_ts_id cf, pc_network_name = cf_network_name cf,
       pc_provider = cf_provider_name cf, pc_use_lcn = o_use_lcn s,
       pc_channels = map (\<lambda>a. the (cf_store cf a)) (cf_channels cf), pc_nit = cf_nit cf \<rparr>"

definition output_psi_init_tdt_tot :: "'b program_env \<Rightarrow> 'b psi_out \<Rightarrow> 'b psi_out" where
  "output_psi_init_tdt_tot P o1 =
     o1\<lparr> pid_tdt_cont := 15, tdt := Some (pr_tdt P (pr_time P)), tot := Some (pr_tot P (pr_time P)),
         tdt_ts := pr_clock P, tot_ts := pr_clock P \<rparr>"

definition output_psi_init :: "'b program_env \<Rightarrow> psi_table psi_conf \<Rightarrow> 'b psi_out \<Rightarrow> 'b psi_out option" where
  "output_psi_init P pc o0 =
     (let p = output_psi_init_pat (pr_build P) pc;
          o1 = o0\<lparr> pat := p, pat_programs := pr_programs P p, pat_ts := pr_clock P \<rparr>
      in case output_psi_init_nit (pr_build P) pc of
           None \<Rightarrow> None
         | Some n \<Rightarrow>
             (let o2 = o1\<lparr> nit_table := Some n, nit_ts := pr_clock P,
                           sdt := Some (output_psi_init_sdt (pr_build P) pc), sdt_ts := pr_clock P \<rparr>
              in Some ((output_psi_init_tdt_tot P o2)\<lparr> eit_ts := pr_clock P \<rparr>)))"

section \<open>Starting\<close>

text \<open>The output threads; when one can't be created the program exits.\<close>

definition spawn_output_threads :: "(nat \<Rightarrow> bool) \<Rightarrow> stop + unit" where
  "spawn_output_threads created =
     (if \<not> created 0 then Inl (Exit 1)
      else if \<not> created 1 then Inl (Exit 1)
      else if \<not> created 2 then Inl (Exit 1)
      else Inr ())"

text \<open>What the threads share once they run.\<close>

record 'b running =
  mn_conf :: "psi_table config"
  mn_options :: options
  mn_rate :: rate
  mn_psi :: "'b psi_out"
  mn_inputs :: "'b net_input list"
  mn_pipe :: "('b, unit input_ext) pipe"
  mn_mix :: "'b mix_env"
  mn_web :: bool
  mn_sock :: int
  mn_events :: "net_event list"

text \<open>The state the output threads find: the mixing thread starts at the last input, so the first is next.\<close>

definition mix_env_of :: "'b program_env \<Rightarrow> options \<Rightarrow> rate \<Rightarrow> obuf \<Rightarrow> 'b mix_env" where
  "mix_env_of P s r ob =
     \<lparr> me_ts = il_ts (pr_lib P), me_cb = pr_cb P, me_pcr_mode = o_pcr_mode s, me_bitrate = bitrate r,
       me_max = ob_size ob div TS_PACKET_SIZE, me_oob = pr_oob P \<rparr>"

definition output_of :: "options \<Rightarrow> rate \<Rightarrow> woutput" where
  "output_of s r =
     \<lparr> ofd = o_ofd s, traffic = 0, traffic_period = 0, padding_period = 0, last_org_pcr = replicate 8193 0,
       last_pcr = replicate 8193 0, last_traffic = replicate 8193 0,
       rtp_sequence_number = o_rtp_sequence_number s, rtp_ssrc = o_rtp_ssrc s, woutput.o_bitrate = bitrate r \<rparr>"

definition pipe_of :: "'b \<Rightarrow> 'b net_input list \<Rightarrow> woutput \<Rightarrow> obuf \<Rightarrow> obuf \<Rightarrow> ('b, unit input_ext) pipe" where
  "pipe_of b ins out ob0 ob1 =
     \<lparr> p_bufs = [ob0, ob1],
       p_mix = \<lparr> m_psi = b, m_inputs = map n_input ins, m_inpt = length ins, m_data = None, m_size = 0, m_read = 0 \<rparr>,
       p_out = out, p_die = 0, mix_pc = Head, mix_buf = 0, wr_pc = Head, wr_buf = 0, wr_aborted = False, psi_pc = Head,
       killed = False, inputs_die = False, p_made = [], p_sent = [] \<rparr>"

text \<open>
  \<^verbatim>\<open>main\<close> up to its waiting loop. The output is connected also when it is not
  written to; an input whose thread can't be created stays in the list like the others.
\<close>

definition main_start :: "'b program_env \<Rightarrow> (char \<times> string) list \<Rightarrow> stop + 'b running" where
  "main_start P jos =
     and_then (output_new P) (\<lambda>o0.
     and_then (config_load (pr_opts P) (pr_epg P) (pr_can P) (pr_below P) (pr_cookie P) (pr_files P) jos)
       (\<lambda>(cf, s, r, ob0, ob1).
          case output_psi_init P (psi_conf_of s cf) o0 of
            None \<Rightarrow> Inl Undef
          | Some o1 \<Rightarrow>
              (let web = web_server_start (o_server_socket s) in
               case connect_output (pr_udp P) (o_out_host s) of
                 (None, _) \<Rightarrow> Inl (Exit 1)
               | (Some sock, es) \<Rightarrow>
                   (case spawn_input_threads (pr_cmp P) (cf_store cf) (cf_channels cf) (cf_inputs cf) of
                      None \<Rightarrow> Inl Undef
                    | Some rs \<Rightarrow>
                        (let ins = map (\<lambda>x. new_input P (o_write_input_file s) (the (cf_store cf (in_chan x)))) rs in
                         and_then (spawn_output_threads (pr_thread P)) (\<lambda>_.
                           Inr \<lparr> mn_conf = cf\<lparr> cf_inputs := rs \<rparr>, mn_options = s, mn_rate = r, mn_psi = o1, mn_inputs = ins,
                                 mn_pipe = pipe_of (psibuf o1) ins (output_of s r) ob0 ob1,
                                 mn_mix = mix_env_of P s r ob0, mn_web = web, mn_sock = sock, mn_events = es \<rparr>))))))"

section \<open>Stopping\<close>

text \<open>
  \<^verbatim>\<open>output_free\<close> closes the socket and the file, and \<^verbatim>\<open>main\<close>
  after its loop: when \<^verbatim>\<open>kill_threads\<close> gives up, the program ends there. The
  result is what is closed; the exit code is 0 either way.
\<close>

definition output_free :: "int \<Rightarrow> int \<Rightarrow> net_event list" where
  "output_free out_sock out_fd = (if out_sock > - 1 then [Shut out_sock] else []) @ (if out_fd \<noteq> 0 then [Shut out_fd] else [])"

definition main_stop :: "(nat \<Rightarrow> bool) \<Rightarrow> (nat \<Rightarrow> int) \<Rightarrow> (int \<Rightarrow> int) \<Rightarrow> int \<Rightarrow> int \<Rightarrow> int \<Rightarrow> net_event list" where
  "main_stop items dienow shut server_socket out_sock out_fd =
     (if kill_wait items dienow 0
      then snd (web_server_stop shut server_socket) @ output_free out_sock out_fd
      else [])"

section \<open>The configuration that is loaded\<close>

lemma input_stream_reset_alloc:
  "input_stream_reset L r = r\<lparr> r_stream := (input_stream_alloc L (r_channel r) (r_stream r))\<lparr>
     pat_rewritten := None, pmt_rewritten := None, eit_rewritten := None,
     nit_pid := 0, pmt_pid := 0, pcr_pid := 0, input_pcr := 0 \<rparr> \<rparr>"
  by (simp add: input_stream_reset_def input_stream_alloc_def)

lemma on_channels_ok:
  assumes "conf_ok cf" and "on_channels f (cf_channels cf) (cf_store cf) = Some h"
    and "\<And>c c'. good c \<Longrightarrow> f c = Some c' \<Longrightarrow> good c'"
  shows "conf_ok (cf\<lparr> cf_store := h \<rparr>)"
proof -
  note C = conf_okD [OF assms(1)]
  have "\<exists>c'. f c = Some c' \<and> good c'" if "a \<in> set (cf_channels cf)" "cf_store cf a = Some c" for a c
    using on_channels_Some [OF assms(2) C(3)] that assms(3) [OF store_okD [OF C(1) that(2)]] by fastforce
  then have "\<exists>h'. on_channels f (cf_channels cf) (cf_store cf) = Some h' \<and> conf_ok (cf\<lparr> cf_store := h' \<rparr>)"
    by (rule update_ok [OF assms(1) C(4,3)])
  with assms(2) show ?thesis by simp
qed

lemma load_epg_frame:
  assumes "config_load_epg E can below mtime file cf = Some (ret, cf')" and "conf_ok cf"
  shows "conf_ok cf' \<and> cf_inputs cf' = cf_inputs cf \<and> cf_channels cf' = cf_channels cf"
proof -
  have reset: "conf_ok x' \<and> cf_inputs x' = cf_inputs x \<and> cf_channels x' = cf_channels x"
    if r: "config_reset_channels_epg x = Some x'" and x: "conf_ok x" for x x' :: "'a config"
  proof -
    have "conf_ok x'" using reset_ok [OF x] r by auto
    with r show ?thesis by (auto simp: config_reset_channels_epg_def Option.bind_eq_Some_conv)
  qed
  show ?thesis
  proof (cases mtime)
    case None
    with assms reset show ?thesis by (auto simp: config_load_epg_def Option.bind_eq_Some_conv)
  next
    case (Some m)
    let ?cf = "cf\<lparr> cf_epg_mtime := m \<rparr>"
    have ok: "conf_ok ?cf" using assms(2) by (simp add: conf_ok_def)
    show ?thesis
    proof (cases "m > cf_epg_mtime cf")
      case False
      with assms Some show ?thesis by (simp add: config_load_epg_def)
    next
      case True
      obtain ini where ini: "load_ini can below file = Some ini"
        using assms(1) Some True by (auto simp: config_load_epg_def Let_def Option.bind_eq_Some_conv)
      show ?thesis
      proof (cases ini)
        case None
        with ini assms(1) Some True have "config_reset_channels_epg ?cf = Some cf'"
          by (auto simp: config_load_epg_def Let_def Option.bind_eq_Some_conv)
        from reset [OF this ok] show ?thesis by simp
      next
        case d: (Some d)
        obtain h where h: "on_channels (\<lambda>c. do {
            now \<leftarrow> config_load_epg_entry E d ''now'' (c_id c);
            nxt \<leftarrow> config_load_epg_entry E d ''next'' (c_id c);
            Some (config_channel_init_epg E ?cf c now nxt) }) (cf_channels ?cf) (cf_store ?cf) = Some h" "cf' = ?cf\<lparr> cf_store := h \<rparr>"
          using assms(1) Some True ini d by (auto simp: config_load_epg_def Let_def Option.bind_eq_Some_conv)
        have "conf_ok (?cf\<lparr> cf_store := h \<rparr>)"
          by (rule on_channels_ok [OF ok h(1)]) (auto simp: Option.bind_eq_Some_conv init_epg_good)
        with h(2) show ?thesis by simp
      qed
    qed
  qed
qed

lemma load_channels_frame:
  assumes "config_load_channels can below ck file cf = Some (ret, cf')" and "conf_ok cf" and "cf_inputs cf = []" and "ret \<noteq> 0"
  shows "conf_ok cf' \<and> cf_inputs cf' = [] \<and> cf_channels cf' \<noteq> []"
proof -
  obtain d ts cs pn where d: "load_channel_list d [1..<32] = Some cs"
    "switch_channels ck cs (cf\<lparr> cf_provider_name := pn, cf_ts_id := ts \<rparr>) = Some cf'" "ret = int (length cs)"
    using assms(1,4) by (auto simp: config_load_channels_def Option.bind_eq_Some_conv split: option.splits)
  let ?cf = "cf\<lparr> cf_provider_name := pn, cf_ts_id := ts \<rparr>"
  have ok: "conf_ok ?cf" using assms(2) by (simp add: conf_ok_def)
  obtain js where js: "set js \<subseteq> set [1..<32]" "list_all2 Config.loaded js cs"
    using load_channel_list_loaded [OF d(1)] sorted_wrt_upt by blast
  have "good c" if c: "c \<in> set cs" for c
  proof -
    obtain i where "i \<in> set js" "Config.loaded i c" using list_all2_origin [OF js(2) c] by blast
    with js(1) show ?thesis by (intro loaded_good [of i]) auto
  qed
  then have g: "\<forall>c \<in> set cs. good c" by blast
  have "\<exists>x. switch_channels ck cs ?cf = Some x \<and> conf_ok x \<and> cf_channels x = new_addrs ?cf cs \<and> cf_inputs x = []"
    using switch_channels_total [OF ok g, of ck] assms(3) by auto
  with d(2) assms(4) d(3) show ?thesis by (auto simp: new_addrs_def)
qed

lemma config_load_Inr:
  assumes "config_load E EE can below ck F jos = Inr (cf, s, r, ob0, ob1)"
  shows "load_options E jos = Inr (s, r, ob0, ob1) \<and> conf_ok cf \<and> cf_inputs cf = [] \<and> cf_channels cf \<noteq> []"
proof -
  obtain cf1 cf2 cf3 ret r1 r2 r3 where L: "load_options E jos = Inr (s, r, ob0, ob1)"
    "config_load_global can below (fs_read F (the (o_global_conf s))) config_alloc = Some (r1, cf1)"
    "config_load_nit can below (fs_read F (the (o_nit_conf s))) cf1 = Some (r2, cf2)"
    "config_load_channels can below ck (fs_read F (the (o_channels_conf s))) cf2 = Some (r3, cf3)" "r3 \<noteq> 0"
    "config_load_epg EE can below (fs_mtime F (the (o_epg_conf s))) (fs_read F (the (o_epg_conf s))) cf3 = Some (ret, cf)"
    using assms by (auto simp: config_load_def and_then_Inr ok_or_exit_def split: option.splits if_splits prod.splits)
  have a: "conf_ok cf1 \<and> cf_inputs cf1 = []"
    using L(2) config_alloc_ok by (auto simp: config_load_global_def Option.bind_eq_Some_conv conf_ok_def config_alloc_def split: option.splits)
  have nit: "conf_ok (x\<lparr> cf_network_name := n, cf_nit := ns \<rparr>)" if "conf_ok x" for x :: "'a config" and n ns
    using that by (simp add: conf_ok_def)
  from a have b: "conf_ok cf2 \<and> cf_inputs cf2 = []"
    using L(3) nit by (auto simp: config_load_nit_def Option.bind_eq_Some_conv split: option.splits)
  from load_channels_frame [OF L(4) _ _ L(5)] b have "conf_ok cf3 \<and> cf_inputs cf3 = [] \<and> cf_channels cf3 \<noteq> []" by blast
  with load_epg_frame [OF L(6)] L(1) show ?thesis by simp
qed


section \<open>The threads\<close>

text \<open>With a comparison that tells names apart there is one input for every channel name.\<close>

lemma spawn_names:
  assumes "\<And>x y. cmp (Some x) (Some y) = 0 \<longleftrightarrow> x = y"
  shows "spawn_input_threads cmp h as rs = Some rs' \<Longrightarrow> distinct (map in_name rs) \<Longrightarrow>
    (\<forall>r \<in> set rs. in_name r = c_name (the (h (in_chan r)))) \<Longrightarrow>
    distinct (map in_name rs') \<and> in_name ` set rs' = in_name ` set rs \<union> (\<lambda>a. c_name (the (h a))) ` set as \<and>
    (\<forall>r \<in> set rs'. in_name r = c_name (the (h (in_chan r))))"
proof (induction as arbitrary: rs)
  case (Cons a as)
  obtain c where c: "h a = Some c" using Cons.prems(1) by (auto simp: Option.bind_eq_Some_conv)
  define rs1 where "rs1 = (if c_name c \<in> in_name ` set rs then rs else rs @ [input_new c a])"
  have "(\<exists>r \<in> set rs. cmp (Some (in_name r)) (Some (c_name c)) = 0) \<longleftrightarrow> c_name c \<in> in_name ` set rs"
    using assms by (auto simp: image_iff) metis
  then have s: "spawn_input_threads cmp h as rs1 = Some rs'" using Cons.prems(1) c by (simp add: rs1_def)
  have d: "distinct (map in_name rs1)" "\<forall>r \<in> set rs1. in_name r = c_name (the (h (in_chan r)))"
    using Cons.prems(2,3) c by (auto simp: rs1_def input_new_def)
  have "in_name ` set rs1 = in_name ` set rs \<union> {c_name (the (h a))}" using c by (auto simp: rs1_def input_new_def)
  with Cons.IH [OF s d] show ?case by auto
qed simp

text \<open>The builders make tables of whole packets.\<close>

definition build_ok :: "'b program_env \<Rightarrow> bool" where
  "build_ok P \<longleftrightarrow>
     (\<forall>x. table_ok (b_pat_init (pr_build P) x) \<and> table_ok (b_nit_init (pr_build P) x)) \<and>
     (\<forall>x y. table_ok (b_sdt_init (pr_build P) x y)) \<and> (\<forall>x. table_ok (pr_tdt P x) \<and> table_ok (pr_tot P x)) \<and>
     (\<forall>t. table_ok t \<longrightarrow>
        (\<forall>a b. table_ok (b_pat_add (pr_build P) t a b)) \<and> (\<forall>a b c d. table_ok (b_sdt_add (pr_build P) t a b c d)) \<and>
        (\<forall>a. table_ok (b_nit_name (pr_build P) t a)) \<and> (\<forall>a b c. table_ok (b_nit_freqs (pr_build P) t a b c)) \<and>
        (\<forall>a b c d e. table_ok (b_nit_cable (pr_build P) t a b c d e)) \<and>
        (\<forall>a b c. table_ok (b_nit_services (pr_build P) t a b c)) \<and>
        (\<forall>a b c d e f g. table_ok (b_nit_stream (pr_build P) t a b c d e f g)))"

lemma foldl_table_ok:
  assumes "\<And>t x. table_ok t \<Longrightarrow> table_ok (f t x)" and "table_ok t"
  shows "table_ok (foldl f t xs)"
  using assms(2) by (induction xs arbitrary: t) (simp_all add: assms(1))

lemma output_psi_init_ok:
  assumes "build_ok P" and "output_psi_init P pc o0 = Some o1"
  shows "psi_ok o1 \<and> psibuf o1 = psibuf o0"
proof -
  note B = assms(1) [unfolded build_ok_def]
  obtain n where n: "output_psi_init_nit (pr_build P) pc = Some n"
    using assms(2) by (auto simp: output_psi_init_def Let_def split: option.splits)
  have "table_ok (output_psi_init_pat (pr_build P) pc)" "table_ok (output_psi_init_sdt (pr_build P) pc)"
    unfolding output_psi_init_pat_def output_psi_init_sdt_def by (intro foldl_table_ok; simp add: B)+
  moreover have cable: "table_ok (foldl (add_cable (pr_build P) pc) t (pc_nit pc))" if "table_ok t" for t
    using that by (intro foldl_table_ok) (simp_all add: B add_cable_def)
  have "table_ok n"
    using n cable B by (auto simp: output_psi_init_nit_def Let_def split: if_splits option.splits nit_result.splits)
  ultimately show ?thesis
    using assms n B by (auto simp: output_psi_init_def output_psi_init_tdt_tot_def Let_def psi_ok_def)
qed

lemma output_buffer_alloc_written:
  "output_buffer_alloc fresh ms rate = Some (ob0, ob1) \<Longrightarrow> ob_written ob0 = 0 \<and> ob_written ob1 = 0"
  by (auto simp: output_buffer_alloc_def Let_def split: if_splits)

lemma pipe_of_start:
  assumes "load_options E jos = Inr (s, r, ob0, ob1)" and "\<And>n. length (oe_fresh E n) = n"
    and "cont b = []" and "\<forall>i \<in> set ins. cont (in_buf (n_input i)) = []"
  shows "pipe_start (mix_env_of P s r ob0) cont (pipe_of b ins out ob0 ob1)"
proof -
  obtain rate where a: "output_buffer_alloc (oe_fresh E) 100 rate = Some (ob0, ob1)"
    using load_options_Inr [OF assms(1)] by metis
  have "st_ok cont (p_mix (pipe_of b ins out ob0 ob1))"
    using assms(3,4) by (simp add: st_ok_def pipe_of_def aligned_def)
  moreover note output_buffer_alloc_ok [OF assms(2) a] output_buffer_alloc_written [OF a]
  ultimately show ?thesis by (simp add: pipe_start_def pipe_of_def mix_env_of_def)
qed

lemma connect_output_open:
  assumes "connect_output U a = (Some fd, es)"
  shows "open_after es {} = {fd} \<and> fd > - 1"
  using assms by (auto simp: connect_output_def connect_udp_def Let_def split: if_splits)

lemma main_start_Inr:
  assumes "main_start P jos = Inr m"
  obtains cf s r ob0 ob1 o0 o1 rs where "output_new P = Inr o0"
    "config_load (pr_opts P) (pr_epg P) (pr_can P) (pr_below P) (pr_cookie P) (pr_files P) jos = Inr (cf, s, r, ob0, ob1)"
    "output_psi_init P (psi_conf_of s cf) o0 = Some o1"
    "spawn_input_threads (pr_cmp P) (cf_store cf) (cf_channels cf) (cf_inputs cf) = Some rs"
    "connect_output (pr_udp P) (o_out_host s) = (Some (mn_sock m), mn_events m)"
    "mn_conf m = cf\<lparr> cf_inputs := rs \<rparr>" "mn_psi m = o1" "mn_options m = s" "mn_rate m = r"
    "mn_inputs m = map (\<lambda>x. new_input P (o_write_input_file s) (the (cf_store cf (in_chan x)))) rs"
    "mn_pipe m = pipe_of (psibuf o1) (mn_inputs m) (output_of s r) ob0 ob1" "mn_mix m = mix_env_of P s r ob0"
    "\<forall>k < 3. pr_thread P k"
proof -
  obtain o0 cf s r ob0 ob1 where a: "output_new P = Inr o0"
    "config_load (pr_opts P) (pr_epg P) (pr_can P) (pr_below P) (pr_cookie P) (pr_files P) jos = Inr (cf, s, r, ob0, ob1)"
    using assms by (auto simp: main_start_def and_then_Inr)
  obtain o1 where o1: "output_psi_init P (psi_conf_of s cf) o0 = Some o1"
    using assms by (cases "output_psi_init P (psi_conf_of s cf) o0") (simp_all add: main_start_def a)
  obtain sock es where c: "connect_output (pr_udp P) (o_out_host s) = (Some sock, es)"
    using assms by (cases "connect_output (pr_udp P) (o_out_host s)") (auto simp: main_start_def a o1 split: option.splits)
  obtain rs where rs: "spawn_input_threads (pr_cmp P) (cf_store cf) (cf_channels cf) (cf_inputs cf) = Some rs"
    using assms by (cases "spawn_input_threads (pr_cmp P) (cf_store cf) (cf_channels cf) (cf_inputs cf)")
      (simp_all add: main_start_def a o1 c)
  have t: "pr_thread P 0" "pr_thread P 1" "pr_thread P 2"
    using assms by (auto simp: main_start_def a o1 c rs spawn_output_threads_def split: if_splits)
  then have "\<forall>k < 3. pr_thread P k" by (simp add: numeral_3_eq_3 numeral_2_eq_2 less_Suc_eq)
  moreover have "m = \<lparr> mn_conf = cf\<lparr> cf_inputs := rs \<rparr>, mn_options = s, mn_rate = r, mn_psi = o1,
      mn_inputs = map (\<lambda>x. new_input P (o_write_input_file s) (the (cf_store cf (in_chan x)))) rs,
      mn_pipe = pipe_of (psibuf o1) (map (\<lambda>x. new_input P (o_write_input_file s) (the (cf_store cf (in_chan x)))) rs)
        (output_of s r) ob0 ob1,
      mn_mix = mix_env_of P s r ob0, mn_web = web_server_start (o_server_socket s), mn_sock = sock, mn_events = es \<rparr>"
    using assms t by (simp add: main_start_def a o1 c rs spawn_output_threads_def Let_def)
  ultimately show ?thesis using that [OF a o1 rs] c by simp
qed

text \<open>The output pipeline of a started program.\<close>

lemma started_pipe:
  assumes "main_start P jos = Inr m" and "\<And>n. length (oe_fresh (pr_opts P) n) = n"
    and "\<forall>n b. pr_psibuf P n = Some b \<longrightarrow> cont b = []" and "\<forall>n x. cont (pr_cbuf P n x) = []" and "build_ok P"
  shows "pipe_start (mn_mix m) cont (mn_pipe m)" and "\<exists>ob. mn_mix m = mix_env_of P (mn_options m) (mn_rate m) ob"
    and "int (ob_size (p_bufs (mn_pipe m) ! 0)) = ((packets_per_sec (mn_rate m) + 9) div 10) * 1316"
proof -
  obtain cf s r ob0 ob1 o0 o1 rs where m: "output_new P = Inr o0"
    "config_load (pr_opts P) (pr_epg P) (pr_can P) (pr_below P) (pr_cookie P) (pr_files P) jos = Inr (cf, s, r, ob0, ob1)"
    "output_psi_init P (psi_conf_of s cf) o0 = Some o1"
    "spawn_input_threads (pr_cmp P) (cf_store cf) (cf_channels cf) (cf_inputs cf) = Some rs"
    "connect_output (pr_udp P) (o_out_host s) = (Some (mn_sock m), mn_events m)"
    "mn_conf m = cf\<lparr> cf_inputs := rs \<rparr>" "mn_psi m = o1" "mn_options m = s" "mn_rate m = r"
    "mn_inputs m = map (\<lambda>x. new_input P (o_write_input_file s) (the (cf_store cf (in_chan x)))) rs"
    "mn_pipe m = pipe_of (psibuf o1) (mn_inputs m) (output_of s r) ob0 ob1" "mn_mix m = mix_env_of P s r ob0"
    "\<forall>k < 3. pr_thread P k"
    by (rule main_start_Inr [OF assms(1)])
  have l: "load_options (pr_opts P) jos = Inr (s, r, ob0, ob1)" using config_load_Inr [OF m(2)] by simp
  have "cont (psibuf o0) = []" using m(1) assms(3) by (auto simp: output_new_def split: option.splits)
  moreover have "\<forall>i \<in> set (mn_inputs m). cont (in_buf (n_input i)) = []" by (auto simp: m(10) new_input_def assms(4))
  ultimately show "pipe_start (mn_mix m) cont (mn_pipe m)"
    unfolding m(11,12) using pipe_of_start [OF l assms(2)] conjunct2 [OF output_psi_init_ok [OF assms(5) m(3)]] by metis
  show "\<exists>ob. mn_mix m = mix_env_of P (mn_options m) (mn_rate m) ob" using m(8,9,12) by blast
  show "int (ob_size (p_bufs (mn_pipe m) ! 0)) = ((packets_per_sec (mn_rate m) + 9) div 10) * 1316"
    using load_options_buffers(3) [OF l assms(2)] by (simp add: m(9,11) pipe_of_def)
qed

section \<open>Properties\<close>

text \<open>An example: the channels file of two channels, the other files empty, no EPG.\<close>

definition demo_files :: files where
  "demo_files = \<lparr> fs_read = (\<lambda>nm. Some (if nm = ''mptsd_channels.conf'' then unlines (render_ini (map chan_section demo_entries)) else '''')),
     fs_mtime = (\<lambda>_. None) \<rparr>"

definition demo_build :: "psi_table ts_build" where
  "demo_build = \<lparr> b_pat_init = (\<lambda>_. demo_table), b_pat_add = (\<lambda>t _ _. t), b_nit_init = (\<lambda>_. demo_table), b_nit_name = (\<lambda>t _. t),
     b_nit_freqs = (\<lambda>t _ _ _. t), b_nit_cable = (\<lambda>t _ _ _ _ _. t), b_nit_services = (\<lambda>t _ _ _. t),
     b_nit_stream = (\<lambda>t _ _ _ _ _ _ _. t), b_sdt_init = (\<lambda>_ _. demo_table), b_sdt_add = (\<lambda>t _ _ _ _. t) \<rparr>"

definition demo_pepg :: "psi_table epg_env" where
  "demo_pepg = \<lparr> ee_utf8 = id, ee_iso5 = id, ee_xstrcmp = (\<lambda>a b. if a = b then 0 else 1), ee_init = (\<lambda>_ _ _ _ _. demo_table),
     ee_version = (\<lambda>t _. t), ee_short = (\<lambda>t _ _ _ _ _ _. t), ee_extended = (\<lambda>t _ _ _ _ _. t), ee_regen = id \<rparr>"

definition demo_program :: "queue program_env" where
  "demo_program = \<lparr> pr_opts = demo_oenv, pr_files = demo_files, pr_can = (\<lambda>_. True), pr_below = CHR 0x00, pr_cookie = 1,
     pr_epg = demo_pepg, pr_cmp = (\<lambda>a b. if a = b then 0 else 1), pr_build = demo_build, pr_programs = (\<lambda>_. 2),
     pr_tdt = (\<lambda>_. demo_table), pr_tot = (\<lambda>_. demo_table), pr_time = 0, pr_clock = 0,
     pr_psibuf = (\<lambda>n. Some \<lparr> q_bytes = [], q_out = 0, q_cap = n \<rparr>), pr_cbuf = (\<lambda>n _. \<lparr> q_bytes = [], q_out = 0, q_cap = n \<rparr>),
     pr_udp = \<lparr> ue_socket = 6, ue_ttl = 0, ue_if = 0, ue_connect = 0 \<rparr>, pr_open = (\<lambda>_. 8), pr_lib = demo_lib,
     pr_cb = queue_ops, pr_oob = (\<lambda>_. 0), pr_thread = (\<lambda>_. True) \<rparr>"

abbreviation demo_args :: "(char \<times> string) list" where
  "demo_args \<equiv> [(CHR ''O'', ''x''), (CHR ''m'', ''3'')]"

lemma demo_channels_file:
  "\<exists>d cs. load_ini (\<lambda>_. True) CHR 0x00 (Some (unlines (render_ini (map chan_section demo_entries)))) = Some (Some d) \<and>
     load_channel_list d [1..<32] = Some cs \<and> length (cs :: 'e channel list) = 2 \<and>
     ini_get_int (Some d) 0 ''Global:transport_stream_id'' = Some 0"
proof -
  have dist: "distinct (map ce_index demo_entries)" by (simp add: demo_entries_def)
  obtain d where d: "iniparser_load (\<lambda>_. True) CHR 0x00 (Some (unlines (render_ini (map chan_section demo_entries)))) = Inr d"
    "dict_ok d" "dict_map d = map_of (concat (map section_entries (map chan_section demo_entries)))"
    using iniparser_roundtrip [OF render_plain [OF demo_entries_ok(1)] file_keys_distinct [OF dist], of "CHR 0x00"] by auto
  obtain cs :: "'e channel list" where cs: "load_channel_list d [1..<32] = Some cs" "list_all2 describes demo_entries cs"
    using channels_file_loaded [OF demo_entries_ok, of "CHR 0x00"] d(1) by auto
  have "length cs = 2" using list_all2_lengthD [OF cs(2)] by (simp add: demo_entries_def)
  moreover have "dict_map d (strlwc (handle_format ''Global:transport_stream_id'')) = None"
    unfolding d(3) by code_simp
  then have "ini_get_int (Some d) 0 ''Global:transport_stream_id'' = Some 0" by (simp add: queries_map(1) [OF d(2)])
  ultimately show ?thesis using d(1) cs(1) by (auto simp: load_ini_def)
qed


lemma demo_config: "\<exists>cf s r ob0 ob1. config_load (pr_opts demo_program) (pr_epg demo_program) (pr_can demo_program) (pr_below demo_program)
    (pr_cookie demo_program) (pr_files demo_program) demo_args = Inr (cf, s, r, ob0, ob1) \<and> \<not> o_use_lcn s \<and> cf_nit cf = []"
proof -
  obtain s r ob0 ob1 where l: "load_options demo_oenv demo_args = Inr (s, r, ob0, ob1)" using demo_load by blast
  obtain s0 fd sock where s0: "set_options demo_oenv demo_args options_init = Inr s0" "s = (set_defaults s0)\<lparr> o_ofd := fd, o_server_socket := sock \<rparr>"
    using load_options_Inr [OF l] by metis
  have n: "o_global_conf s = Some ''mptsd.conf''" "o_nit_conf s = Some ''mptsd_nit.conf''"
    "o_channels_conf s = Some ''mptsd_channels.conf''" "o_epg_conf s = Some ''mptsd_epg.conf''" "\<not> o_use_lcn s"
    using s0 by (auto simp: set_option_def options_init_def demo_oenv_def set_defaults_def or_default_def Let_def)
  obtain ts where g: "config_load_global (\<lambda>_. True) CHR 0x00 (Some '''') (config_alloc :: psi_table config) =
      Some (1, config_alloc\<lparr> cf_network_id := 0, cf_timeouts := ts \<rparr>)"
    by (simp add: config_load_global_def empty_file empty_dict load_timeouts_def)
  have nil: "load_transponders (dictionary_new 0) ks ns = Some ns" for ks ns
    by (induction ks arbitrary: ns) (simp_all add: load_transponder_def empty_dict to_u16_def)
  define cf2 :: "psi_table config" where "cf2 = config_alloc\<lparr> cf_network_id := 0, cf_timeouts := ts, cf_network_name := None, cf_nit := [] \<rparr>"
  have t: "config_load_nit (\<lambda>_. True) CHR 0x00 (Some '''') (config_alloc\<lparr> cf_network_id := 0, cf_timeouts := ts \<rparr>) = Some (1, cf2)"
    by (simp add: config_load_nit_def empty_file empty_dict nil cf2_def config_alloc_def)
  have ok2: "conf_ok cf2" "cf_inputs cf2 = []" "cf_nit cf2 = []"
    using config_alloc_ok by (simp_all add: cf2_def conf_ok_def config_alloc_def)
  obtain d and cs :: "psi_table channel list" where d: "load_ini (\<lambda>_. True) CHR 0x00 (Some (unlines (render_ini (map chan_section demo_entries)))) = Some (Some d)"
    "load_channel_list d [1..<32] = Some cs" "length cs = 2" "ini_get_int (Some d) 0 ''Global:transport_stream_id'' = Some 0"
    using demo_channels_file by blast
  obtain js where js: "set js \<subseteq> set [1..<32]" "list_all2 Config.loaded js cs"
    using load_channel_list_loaded [OF d(2)] sorted_wrt_upt by blast
  have good: "\<forall>c \<in> set cs. good c" using js loaded_good list_all2_origin [OF js(2)] by fastforce
  let ?cf = "cf2\<lparr> cf_provider_name := str_of (ini_get_string_copy (Some d) SNull ''Global:provider_name''), cf_ts_id := to_u16 0 \<rparr>"
  have "conf_ok ?cf" using ok2(1) by (simp add: conf_ok_def)
  from switch_phases [OF this good, of 1] obtain cf3 where cf3: "switch_channels 1 cs ?cf = Some cf3" "cf_nit cf3 = []"
    using ok2(3) by auto
  have c: "config_load_channels (\<lambda>_. True) CHR 0x00 1 (Some (unlines (render_ini (map chan_section demo_entries)))) cf2 = Some (2, cf3)"
    using d cf3(1) by (simp add: config_load_channels_def)
  from load_channels_frame [OF c ok2(1,2)] have "conf_ok cf3" by simp
  from reset_ok [OF this] obtain cf4 where cf4: "config_reset_channels_epg cf3 = Some cf4" by blast
  have e: "config_load_epg demo_pepg (\<lambda>_. True) CHR 0x00 None x cf3 = Some (0, cf4)" for x by (simp add: config_load_epg_def cf4)
  have "cf_nit cf4 = []" using cf4 cf3(2) by (auto simp: config_reset_channels_epg_def Option.bind_eq_Some_conv)
  then show ?thesis
    using l n g t c e by (simp add: demo_program_def config_load_def ok_or_exit_def demo_files_def)
qed

lemma demo_start: "\<exists>m. main_start demo_program demo_args = Inr m"
proof -
  obtain cf s r ob0 ob1 where c: "config_load (pr_opts demo_program) (pr_epg demo_program) (pr_can demo_program) (pr_below demo_program)
      (pr_cookie demo_program) (pr_files demo_program) demo_args = Inr (cf, s, r, ob0, ob1)" "\<not> o_use_lcn s" "cf_nit cf = []"
    using demo_config by blast
  note cf = config_load_Inr [OF c(1)]
  obtain o0 where o0: "output_new demo_program = Inr o0" by (simp add: output_new_def demo_program_def)
  obtain o1 where o1: "output_psi_init demo_program (psi_conf_of s cf) o0 = Some o1"
    using c(2,3) by (simp add: output_psi_init_def output_psi_init_nit_def psi_conf_of_def Let_def)
  have "set (cf_channels cf) \<subseteq> dom (cf_store cf)" using cf conf_okD(4) by blast
  from spawn_total [OF this, of "pr_cmp demo_program" "cf_inputs cf"] obtain rs
    where rs: "spawn_input_threads (pr_cmp demo_program) (cf_store cf) (cf_channels cf) (cf_inputs cf) = Some rs" by blast
  have u: "connect_output (pr_udp demo_program) (o_out_host s) = (Some 6, [Opened 6])"
    by (simp add: connect_output_def connect_udp_def demo_program_def)
  have t: "pr_thread demo_program k" for k by (simp add: demo_program_def)
  show ?thesis by (simp add: main_start_def o0 c(1) o1 rs u t spawn_output_threads_def Let_def)
qed

lemma demo_program_ok:
  "length (oe_fresh (pr_opts demo_program) n) = n" "pr_psibuf demo_program n = Some b \<Longrightarrow> q_bytes b = []"
  "q_bytes (pr_cbuf demo_program n x) = []" "build_ok demo_program" "cbuf_ok (pr_cb demo_program) q_bytes"
  "ts_ops_ok (il_ts (pr_lib demo_program))"
proof -
  have "table_ok demo_table" by (simp add: table_ok_def demo_table_def ts_sizes)
  then show "build_ok demo_program" by (simp add: build_ok_def demo_program_def demo_build_def)
qed (auto simp: demo_program_def demo_oenv_def queue_ops_ok demo_lib_def iso_ts_ok)

text \<open>
  A clean stop closes the web server's socket, the output socket and the output file, whatever
  else is open; a stop that \<^verbatim>\<open>kill_threads\<close> gives up closes nothing.
\<close>

theorem main_stop_closes:
  "open_after (main_stop items dienow shut server_socket out_sock out_fd) S =
     (if kill_wait items dienow 0
      then S - ({x. x > - 1 \<and> (x = server_socket \<or> x = out_sock)} \<union> {x. x = out_fd \<and> x \<noteq> 0})
      else S)"
  by (auto simp: main_stop_def web_server_stop_def output_free_def)

text \<open>
  C5. A program that gets past its start has put the parts together as they need it: no pointer
  dangles, there is at least one channel and exactly one input for every channel name, each
  unconnected, with a source and an empty rewriting table of its own; the tables are whole
  packets; the two output buffers are free and all padding, so that what holds of the output
  pipeline holds of this program; and the output socket is the only one the start leaves open.
\<close>

theorem program_starts_ready:
  assumes "main_start P jos = Inr m" and "\<And>n. length (oe_fresh (pr_opts P) n) = n"
    and "\<And>x y. pr_cmp P (Some x) (Some y) = 0 \<longleftrightarrow> x = y" and "build_ok P"
    and "\<And>n b. pr_psibuf P n = Some b \<Longrightarrow> cont b = []" and "\<And>n x. cont (pr_cbuf P n x) = []"
  shows "conf_ok (mn_conf m) \<and> cf_channels (mn_conf m) \<noteq> [] \<and> distinct (map in_name (cf_inputs (mn_conf m))) \<and>
    in_name ` set (cf_inputs (mn_conf m)) = (\<lambda>a. c_name (the (cf_store (mn_conf m) a))) ` set (cf_channels (mn_conf m)) \<and>
    (\<forall>i \<in> set (mn_inputs m). r_sock i = - 1 \<and> good (r_channel (n_input i)) \<and>
       (let t = is_pidref (r_stream (n_input i)) in
        pidref_ok t \<and> pid_map t = (\<lambda>_. None) \<and> pid_free t = 64 \<and> base_pid t = word_of_int (c_base_pid (r_channel (n_input i))))) \<and>
    psi_ok (mn_psi m) \<and> pipe_start (mn_mix m) cont (mn_pipe m) \<and> open_after (mn_events m) {} = {mn_sock m}"
proof -
  obtain cf s r ob0 ob1 o0 o1 rs where m: "output_new P = Inr o0"
    "config_load (pr_opts P) (pr_epg P) (pr_can P) (pr_below P) (pr_cookie P) (pr_files P) jos = Inr (cf, s, r, ob0, ob1)"
    "output_psi_init P (psi_conf_of s cf) o0 = Some o1"
    "spawn_input_threads (pr_cmp P) (cf_store cf) (cf_channels cf) (cf_inputs cf) = Some rs"
    "connect_output (pr_udp P) (o_out_host s) = (Some (mn_sock m), mn_events m)"
    "mn_conf m = cf\<lparr> cf_inputs := rs \<rparr>" "mn_psi m = o1" "mn_options m = s" "mn_rate m = r"
    "mn_inputs m = map (\<lambda>x. new_input P (o_write_input_file s) (the (cf_store cf (in_chan x)))) rs"
    "mn_pipe m = pipe_of (psibuf o1) (mn_inputs m) (output_of s r) ob0 ob1" "mn_mix m = mix_env_of P s r ob0"
    "\<forall>k < 3. pr_thread P k"
    by (rule main_start_Inr [OF assms(1)])
  have cf: "load_options (pr_opts P) jos = Inr (s, r, ob0, ob1)" "conf_ok cf" "cf_inputs cf = []" "cf_channels cf \<noteq> []"
    using config_load_Inr [OF m(2)] by auto
  note C = conf_okD [OF cf(2)]
  obtain new where new: "rs = new" "\<forall>x \<in> set new. in_chan x \<in> set (cf_channels cf)"
    using spawn_total [OF C(4), of "pr_cmp P" "[]"] m(4) cf(3) by auto
  obtain conf where conf: "conf_ok conf" "conf = cf\<lparr> cf_inputs := rs \<rparr>"
    using spawn_ok [OF cf(2), of "\<lparr> ae_cmp = pr_cmp P, ae_epg = undefined, ae_can = \<lambda>_. True, ae_below = CHR 0x00 \<rparr>"] m(4) by auto
  have names: "distinct (map in_name rs)" "in_name ` set rs = (\<lambda>a. c_name (the (cf_store cf a))) ` set (cf_channels cf)"
    using spawn_names [of "pr_cmp P", OF assms(3) m(4)] cf(3) by auto
  have "good (the (cf_store cf (in_chan x)))" if "x \<in> set rs" for x
    using new that C(4) store_okD [OF C(1)] by fastforce
  then have ins: "\<forall>i \<in> set (mn_inputs m). r_sock i = - 1 \<and> good (r_channel (n_input i)) \<and>
       (let t = is_pidref (r_stream (n_input i)) in
        pidref_ok t \<and> pid_map t = (\<lambda>_. None) \<and> pid_free t = 64 \<and> base_pid t = word_of_int (c_base_pid (r_channel (n_input i))))"
    by (auto simp: m(10) new_input_def input_stream_alloc_def Let_def pidref_init_ok pidref_init_map pidref_init_free)
      (simp_all add: pidref_init_def)
  have psi: "psi_ok o1" "psibuf o1 = psibuf o0" using output_psi_init_ok [OF assms(4) m(3)] by simp_all
  have "\<forall>n b. pr_psibuf P n = Some b \<longrightarrow> cont b = []" "\<forall>n x. cont (pr_cbuf P n x) = []" using assms(5,6) by blast+
  note pipe = started_pipe(1) [OF assms(1,2) this assms(4)]
  from pipe ins names psi conf cf(4) connect_output_open [OF m(5)] show ?thesis by (simp add: m(6,7))
qed

theorem program_starts_ready_witness:
  "\<exists>m. main_start demo_program demo_args = Inr m \<and> pipe_start (mn_mix m) q_bytes (mn_pipe m) \<and> cf_inputs (mn_conf m) \<noteq> []"
proof -
  obtain m where m: "main_start demo_program demo_args = Inr m" using demo_start by blast
  have cmp: "pr_cmp demo_program (Some x) (Some y) = 0 \<longleftrightarrow> x = y" for x y by (simp add: demo_program_def)
  have r: "pipe_start (mn_mix m) q_bytes (mn_pipe m)" "cf_channels (mn_conf m) \<noteq> []"
    "in_name ` set (cf_inputs (mn_conf m)) = (\<lambda>a. c_name (the (cf_store (mn_conf m) a))) ` set (cf_channels (mn_conf m))"
    using program_starts_ready [where cont = q_bytes, OF m demo_program_ok(1) cmp demo_program_ok(4,2,3)] by simp_all
  have "cf_inputs (mn_conf m) \<noteq> []" using r(2,3) by (metis image_is_empty set_empty)
  with r m show ?thesis by blast
qed


text \<open>
  What a started program sends is what its inputs and its PSI thread hand over: in every
  interleaving of the output threads the buffers written are the buffers filled, each once and in
  order; every filled buffer holds the packets taken from the PSI buffer and the inputs, each
  slot once, and padding elsewhere; and every buffer goes out as a tenth of the frames per
  second, each frame changed only as the writing thread may.
\<close>

theorem program_output_in_order:
  assumes "main_start P jos = Inr m" and "\<And>n. length (oe_fresh (pr_opts P) n) = n"
    and "\<And>n b. pr_psibuf P n = Some b \<Longrightarrow> cont b = []" and "\<And>n x. cont (pr_cbuf P n x) = []"
    and "build_ok P" and "cbuf_ok (pr_cb P) cont" and "ts_ops_ok (il_ts (pr_lib P))"
    and "pipe_reach (mn_mix m) cont (mn_pipe m) s"
  shows "n_sent s \<le> n_made s \<and> n_made s \<le> n_sent s + 2 \<and>
    (\<forall>k < n_made s. \<exists>ob pos ps. ob_buf ob = snd (snd (p_made s ! k)) \<and>
       filled (mn_mix m) cont (fst (p_made s ! k)) (fst (snd (p_made s ! k))) ob pos ps) \<and>
    (\<forall>k < n_sent s. int (length (snd (p_sent s ! k))) = (packets_per_sec (mn_rate m) + 9) div 10 \<and>
       sends (il_ts (pr_lib P)) (o_pcr_mode (mn_options m)) (fst (p_sent s ! k)) (snd (snd (p_made s ! k))) 0 (snd (p_sent s ! k)))"
proof -
  have "\<forall>n b. pr_psibuf P n = Some b \<longrightarrow> cont b = []" "\<forall>n x. cont (pr_cbuf P n x) = []" using assms(3,4) by blast+
  note S = started_pipe [OF assms(1,2) this assms(5)]
  obtain ob where ob: "mn_mix m = mix_env_of P (mn_options m) (mn_rate m) ob" using S(2) by blast
  have E: "cbuf_ok (me_cb (mn_mix m)) cont" "ts_ops_ok (me_ts (mn_mix m))" using assms(6,7) by (simp_all add: ob mix_env_of_def)
  note R = pipe_reach_inv [OF assms(8) E S(1)]
  have "int (ob_size (p_bufs (mn_pipe m) ! 0) div FRAME_PACKET_SIZE) = (packets_per_sec (mn_rate m) + 9) div 10"
    using S(3) by (simp add: ts_sizes zdiv_int)
  then show ?thesis
    using R pipe_invD(6,7) [OF conjunct1 [OF R]] unfolding pipe_log_def by (simp add: ob mix_env_of_def)
qed

theorem program_output_in_order_witness:
  "\<exists>m s. main_start demo_program demo_args = Inr m \<and> pipe_reach (mn_mix m) q_bytes (mn_pipe m) s \<and> killed s \<and>
     n_made s \<le> n_sent s + 2"
proof -
  obtain m where m: "main_start demo_program demo_args = Inr m" using demo_start by blast
  note S = demo_program_ok
  have p: "pipe_start (mn_mix m) q_bytes (mn_pipe m)" by (rule started_pipe(1) [OF m S(1) _ _ S(4)]) (simp_all add: S)
  then have "\<not> killed (mn_pipe m)" by (simp add: pipe_start_def)
  from own_kill [OF this] have r: "pipe_reach (mn_mix m) q_bytes (mn_pipe m) ((mn_pipe m)\<lparr> killed := True, p_die := 1 \<rparr>)"
    by (meson rtranclp.intros)
  from program_output_in_order [where cont = q_bytes, OF m S r] r m show ?thesis by (intro exI [of _ m] exI [of _ "(mn_pipe m)\<lparr> killed := True, p_die := 1 \<rparr>"]) simp
qed

end
