(* ===== verification/Pacing.thy ===== *)
theory Pacing
  imports Writer Options
begin

text \<open>
  The pacing of the output, from \<^verbatim>\<open>output_handle_write\<close> of
  \<^verbatim>\<open>src/output_write.c\<close>: when the frames of a buffer are sent and how long a buffer takes,
  with the sleeps that the calibration at the start chose. Times are microseconds since the
  first frame of the buffer. The clock and the time a system call takes are parameters.
\<close>

section \<open>The clock of a buffer\<close>

text \<open>A sleep takes \<open>late\<close> microseconds more than asked; no sleep takes no time.\<close>

definition slept :: "int \<Rightarrow> int \<Rightarrow> int" where
  "slept late interval = (if interval > 0 then interval + late else 0)"

text \<open>
  The time at the end of the sleep that follows frame \<open>k\<close>, the \<^verbatim>\<open>used_ts\<close> of the code: \<open>work k\<close>
  is what correcting and sending the frame takes, \<open>late k\<close> what its sleep takes beyond the interval.
\<close>

fun frame_clock :: "int \<Rightarrow> int \<Rightarrow> (nat \<Rightarrow> int) \<Rightarrow> (nat \<Rightarrow> int) \<Rightarrow> nat \<Rightarrow> int" where
  "frame_clock tm ovh work late 0 = work 0 + slept (late 0) (sleep_interval tm ovh 0 0)"
| "frame_clock tm ovh work late (Suc k) =
     (let used = frame_clock tm ovh work late k
      in used + work (Suc k) + slept (late (Suc k)) (sleep_interval tm ovh (int (Suc k)) used))"

text \<open>
  When the loop turns to frame \<open>k\<close>, right after the sleep that follows the frame before, and when
  the frame is out.
\<close>

fun frame_start :: "int \<Rightarrow> int \<Rightarrow> (nat \<Rightarrow> int) \<Rightarrow> (nat \<Rightarrow> int) \<Rightarrow> nat \<Rightarrow> int" where
  "frame_start tm ovh work late 0 = 0"
| "frame_start tm ovh work late (Suc k) = frame_clock tm ovh work late k"

definition frame_sent :: "int \<Rightarrow> int \<Rightarrow> (nat \<Rightarrow> int) \<Rightarrow> (nat \<Rightarrow> int) \<Rightarrow> nat \<Rightarrow> int" where
  "frame_sent tm ovh work late k = frame_start tm ovh work late k + work k"

text \<open>What is left of \<^verbatim>\<open>obuf_ms\<close> after the last frame is slept too.\<close>

definition rest_sleep :: "int \<Rightarrow> int \<Rightarrow> int" where
  "rest_sleep obuf_ms write_time = (if write_time < obuf_ms * 1000 then obuf_ms * 1000 - write_time else 0)"

definition buffer_time :: "int \<Rightarrow> int \<Rightarrow> (nat \<Rightarrow> int) \<Rightarrow> (nat \<Rightarrow> int) \<Rightarrow> nat \<Rightarrow> int" where
  "buffer_time tm ovh work late n =
     (let t = (if n = 0 then 0 else frame_clock tm ovh work late (n - 1)) in t + slept (late n) (rest_sleep 100 t))"

section \<open>One frame after the other\<close>

text \<open>
  A frame that is late makes the next sleeps shorter, so delays do not add up: seen from the
  schedule, the sleep after frame \<open>k\<close> ends at most a frame time early and two late. As frame \<open>k\<close> goes
  out after the sleep before it, the frame is at most two frame times early.
\<close>

lemma frame_clock_step:
  assumes "ovh \<le> tm" and "0 \<le> ovh" and "0 \<le> work" and "0 \<le> late" and "work + late \<le> tm + ovh"
    and "used \<le> (k + 1) * (tm + ovh)" and "0 < k"
  shows "k * (tm + ovh) - tm \<le> used + work + slept late (sleep_interval tm ovh k used)"
    and "used + work + slept late (sleep_interval tm ovh k used) \<le> (k + 2) * (tm + ovh)"
  using assms by (auto simp: sleep_interval_def slept_def Let_def algebra_simps)

lemma frame_clock_bounds:
  assumes "ovh \<le> tm" and "0 \<le> ovh" and "\<And>k. 0 \<le> work k \<and> 0 \<le> late k \<and> work k + late k \<le> tm + ovh"
  shows "int k * (tm + ovh) - tm \<le> frame_clock tm ovh work late k \<and>
    frame_clock tm ovh work late k \<le> (int k + 2) * (tm + ovh)"
proof (induction k)
  case 0
  then show ?case using assms(1,2) assms(3) [of 0] by (auto simp: sleep_interval_def slept_def)
next
  case (Suc k)
  have "frame_clock tm ovh work late k \<le> (int (Suc k) + 1) * (tm + ovh)" using Suc by (simp add: add.commute)
  from frame_clock_step [OF assms(1,2) _ _ _ this, of "work (Suc k)" "late (Suc k)"] assms(3) [of "Suc k"]
  show ?case by (simp add: Let_def)
qed

lemma frame_sent_bounds:
  assumes "ovh \<le> tm" and "0 \<le> ovh" and "\<And>k. 0 \<le> work k \<and> 0 \<le> late k \<and> work k + late k \<le> tm + ovh"
  shows "(int k - 2) * (tm + ovh) \<le> frame_start tm ovh work late k" "frame_start tm ovh work late k \<le> frame_sent tm ovh work late k"
    and "frame_sent tm ovh work late k \<le> (int k + 2) * (tm + ovh)"
proof -
  have w: "0 \<le> work k" "work k \<le> tm + ovh" using assms(3) [of k] by linarith+
  have "(int k - 2) * (tm + ovh) \<le> frame_start tm ovh work late k \<and> frame_start tm ovh work late k \<le> (int k + 1) * (tm + ovh)"
  proof (cases k)
    case (Suc j)
    have "int j * (tm + ovh) - tm \<le> frame_clock tm ovh work late j \<and> frame_clock tm ovh work late j \<le> (int j + 2) * (tm + ovh)"
      by (rule frame_clock_bounds [OF assms])
    then show ?thesis using assms(2) by (simp add: Suc algebra_simps)
  qed (use assms(1,2) in simp)
  then show "(int k - 2) * (tm + ovh) \<le> frame_start tm ovh work late k" "frame_sent tm ovh work late k \<le> (int k + 2) * (tm + ovh)"
    using w(2) by (simp_all add: frame_sent_def algebra_simps)
  show "frame_start tm ovh work late k \<le> frame_sent tm ovh work late k" using w by (simp add: frame_sent_def)
qed

lemma calibrated_interval:
  assumes "r = calibrate_sleep gap (align_bitrate b)" and "2 \<le> b" "b \<le> 75" and "usleep_overhead r \<le> tmout r"
  shows "0 \<le> usleep_overhead r" and "tmout r + usleep_overhead r = 1000000 div packets_per_sec r"
    and "190 \<le> packets_per_sec r" and "packets_per_sec r \<le> 7124" and "140 \<le> 1000000 div packets_per_sec r"
proof -
  note A = align_bitrate_bounds [OF assms(2,3)]
  show p: "190 \<le> packets_per_sec r" "packets_per_sec r \<le> 7124" using A by (simp_all add: assms(1) calibrate_sleep_frame)
  have "1000000 div 7124 \<le> 1000000 div packets_per_sec r" using p by (intro zdiv_mono2) auto
  then show i: "140 \<le> 1000000 div packets_per_sec r" by simp
  have t: "tmout (align_bitrate b) = 1000000 div packets_per_sec r" using A(4) by (simp add: assms(1) calibrate_sleep_frame)
  show "0 \<le> usleep_overhead r" using calibrate_sleep_bounds(3) i t assms(1) by simp
  then show "tmout r + usleep_overhead r = 1000000 div packets_per_sec r"
    using assms(4) i t unfolding assms(1) calibrate_sleep_eq Let_def by (auto simp: max_def split: if_splits)
qed

text \<open>A tenth of a second of frames is on time within two frames.\<close>

lemma tenth_of_frames:
  assumes "(0::int) < pps"
  shows "((pps + 9) div 10 + 1) * (1000000 div pps) \<le> 100000 + 2 * (1000000 div pps)"
proof -
  let ?i = "1000000 div pps"
  have "10 * ((pps + 9) div 10) \<le> pps + 9" by simp
  moreover have "0 \<le> ?i" using assms by (simp add: pos_imp_zdiv_nonneg_iff)
  ultimately have "10 * ((pps + 9) div 10) * ?i \<le> (pps + 9) * ?i" by (intro mult_right_mono)
  moreover have "pps * ?i \<le> 1000000" using pos_mod_sign [OF assms, of 1000000] mult_div_mod_eq [of pps 1000000] by linarith
  ultimately show ?thesis using \<open>0 \<le> ?i\<close> by (simp add: algebra_simps)
qed

section \<open>Property\<close>

text \<open>
  C7. The output keeps its rate. For a bit rate of 2 to 75 Mbit/s, a measured overhead of a sleep not
  above the interval the calibration leaves, and work on a frame and lateness of its sleep that
  together stay within the time of a frame: the sending of frame \<open>k\<close> begins at most two frame times
  before its place in the schedule and is over at most two after it, however long the buffer; and
  a buffer of a tenth of a second takes at least that, and at most two frame times more.
\<close>

theorem frames_paced:
  assumes "r = calibrate_sleep gap (align_bitrate b)" and "2 \<le> b" "b \<le> 75" and "usleep_overhead r \<le> tmout r"
    and "frame_us = 1000000 div packets_per_sec r" and "\<And>k. 0 \<le> work k \<and> 0 \<le> late k \<and> work k + late k \<le> frame_us"
  shows "(int k - 2) * frame_us \<le> frame_start (tmout r) (usleep_overhead r) work late k \<and>
    frame_start (tmout r) (usleep_overhead r) work late k \<le> frame_sent (tmout r) (usleep_overhead r) work late k \<and>
    frame_sent (tmout r) (usleep_overhead r) work late k \<le> (int k + 2) * frame_us \<and>
    (let t = buffer_time (tmout r) (usleep_overhead r) work late (nat ((packets_per_sec r + 9) div 10))
     in 100000 \<le> t \<and> t \<le> 100000 + 2 * frame_us)"
proof -
  note C = calibrated_interval [OF assms(1-4)]
  have w: "0 \<le> work k \<and> 0 \<le> late k \<and> work k + late k \<le> tmout r + usleep_overhead r" for k
    using assms(6) unfolding C(2) assms(5) by simp
  have B: "frame_clock (tmout r) (usleep_overhead r) work late k \<le> (int k + 2) * frame_us" for k
    using frame_clock_bounds [OF assms(4) C(1), of work late k] w unfolding C(2) assms(5) by simp
  define n where "n = nat ((packets_per_sec r + 9) div 10)"
  have n: "int n = (packets_per_sec r + 9) div 10" "0 < n" using C(3) by (simp_all add: n_def)
  define t where "t = frame_clock (tmout r) (usleep_overhead r) work late (n - 1)"
  have "(int (n - 1) + 2) * frame_us = (int n + 1) * frame_us" using n(2) by (simp add: of_nat_diff)
  also have "\<dots> \<le> 100000 + 2 * frame_us" using tenth_of_frames [of "packets_per_sec r"] C(3) n(1) assms(5) by simp
  finally have "t \<le> 100000 + 2 * frame_us" using B [of "n - 1"] by (simp add: t_def)
  moreover have "0 \<le> late n" "late n \<le> frame_us" using assms(6) [of n] by auto
  ultimately have "100000 \<le> t + slept (late n) (rest_sleep 100 t) \<and> t + slept (late n) (rest_sleep 100 t) \<le> 100000 + 2 * frame_us"
    by (auto simp: slept_def rest_sleep_def)
  with frame_sent_bounds [OF assms(4) C(1) w, where k = k] n(2) show ?thesis
    unfolding C(2) assms(5) by (simp add: buffer_time_def t_def n_def [symmetric] Let_def)
qed

theorem frames_paced_witness:
  "let r = calibrate_sleep (\<lambda>_. 3) (align_bitrate 38)
   in frame_sent (tmout r) (usleep_overhead r) (\<lambda>_. 20) (\<lambda>_. 5) 300 \<le> 302 * (1000000 div packets_per_sec r)"
proof -
  define r where "r = calibrate_sleep (\<lambda>_. 3) (align_bitrate 38)"
  have A: "190 \<le> packets_per_sec r" "packets_per_sec r \<le> 7124" "tmout (align_bitrate 38) = 1000000 div packets_per_sec r"
    using align_bitrate_bounds [of 38] by (simp_all add: r_def calibrate_sleep_frame)
  have "1000000 div 7124 \<le> 1000000 div packets_per_sec r" using A(1,2) by (intro zdiv_mono2) auto
  then have i: "140 \<le> 1000000 div packets_per_sec r" by simp
  have "usleep_overhead r = 2" "tmout r = max 0 (tmout (align_bitrate 38) - 2)"
    by (simp_all add: r_def calibrate_sleep_eq Let_def)
  then have "usleep_overhead r \<le> tmout r" using i A(3) by simp
  from frames_paced [OF r_def _ _ this refl, of "\<lambda>_. 20" "\<lambda>_. 5" 300] i show ?thesis
    by (simp add: r_def [symmetric] Let_def)
qed

end
