(* ===== verification/Feed.thy ===== *)
theory Feed
  imports Program
begin

text \<open>
  The threads that fill the buffers of the mixing thread: the inputs and the PSI thread. The
  theory of the output pipeline lets them make any change that leaves whole packets; here the
  real threads are put in its place, and the theorems of the pipeline hold of the whole program.
\<close>

section \<open>What mixing leaves alone\<close>

text \<open>The mixing thread changes the first fields of an input; the rest, \<open>mix_in.more\<close>, stays.\<close>

lemma mix_get_more: "mix_get e r = (r', d, sz, rd, stop) \<Longrightarrow> mix_in.more r' = mix_in.more r"
  by (auto simp: mix_get_def Let_def split: prod.splits if_splits)

lemma mix_visit_more: "mix_visit e r = (r', d, sz, rd, stop) \<Longrightarrow> mix_in.more r' = mix_in.more r"
  by (auto simp: mix_visit_def Let_def dest!: mix_get_more split: prod.splits if_splits)

abbreviation rests :: "('b, 'z) mix_state \<Rightarrow> 'z list" where
  "rests st \<equiv> map mix_in.more (m_inputs st)"

lemma mix_scan_rests:
  "m_inputs st \<noteq> [] \<or> n = 0 \<Longrightarrow> rests (mix_scan e n st) = rests st"
proof (induction n arbitrary: st)
  case (Suc n)
  define c where "c = next_node (length (m_inputs st)) (m_inpt st)"
  have "0 < length (m_inputs st)" using Suc.prems by auto
  then have "0 < c \<and> c \<le> length (m_inputs st)" unfolding c_def by (rule next_node_bounds)
  then have ci: "c - 1 < length (m_inputs st)" by linarith
  obtain r' d sz rd stop where v: "mix_visit e (m_inputs st ! (c - 1)) = (r', d, sz, rd, stop)"
    by (metis prod_cases5)
  let ?s = "st\<lparr> m_inpt := c, m_inputs := (m_inputs st)[c - 1 := r'], m_data := d, m_size := sz, m_read := m_read st + rd \<rparr>"
  have "rests ?s = rests st" using mix_visit_more [OF v] ci by (simp add: map_update list_update_same_conv)
  moreover have "m_inputs ?s \<noteq> []" using Suc.prems by auto
  moreover have "mix_scan e (Suc n) st = (if stop then ?s else mix_scan e n ?s)" using v by (simp add: Let_def flip: c_def)
  ultimately show ?case using Suc.IH [of ?s] by auto
qed simp

lemma mix_next_rests: "mix_next e st = (st1, retry) \<Longrightarrow> rests st1 = rests st"
  using mix_scan_rests [where n = "length (m_inputs st)"]
  by (fastforce simp: mix_next_def Let_def split: prod.splits if_splits)

lemma bump_rests [simp]: "map (mix_in.more \<circ> bump k) rs = map mix_in.more rs"
  by (induction rs) (simp_all add: bump_def)

lemma mix_loop_rests:
  fixes st :: "('b, 'z) mix_state"
  assumes "mix_loop e die pl t dp nulls buf st = Some y"
  shows "rests (snd (snd (snd y))) = rests st"
proof (rule mix_loop.raw_induct [OF _ assms])
  fix loop e die pl t dp nulls buf y and st :: "('b, 'z) mix_state"
  assume IH: "\<And>e die pl t dp nulls buf (st :: ('b, 'z) mix_state) y. loop e die pl t dp nulls buf st = Some y \<Longrightarrow>
      rests (snd (snd (snd y))) = rests st"
    and eq: "(if \<not> dp < mp_packets pl \<or> die t then Some (dp, nulls, buf, st)
      else
        (case mix_next e st of (st1, retry) \<Rightarrow>
           if retry then loop e die pl (t + 1) dp nulls buf st1
           else
             (let st2 = st1\<lparr> m_inputs := map (bump 1) (m_inputs st1) \<rparr> in
              if m_data st1 \<noteq> None \<and> m_size st1 = TS_PACKET_SIZE then
                (let nulls' = mix_nulls (mp_dpn pl) (mp_npd pl) (mp_nulls pl) dp nulls in
                 if dp + nulls' \<ge> me_max e then Some (dp, nulls', buf, st1)
                 else loop e die pl (t + 1) (dp + 1) nulls'
                        (blit buf ((dp + nulls') * TS_PACKET_SIZE) (the (m_data st1))) st2)
              else loop e die pl (t + 1) (dp + 1) nulls buf st2))) = Some y"
  obtain st1 retry where nx: "mix_next e st = (st1, retry)" by fastforce
  from eq mix_next_rests [OF nx] show "rests (snd (snd (snd y))) = rests st"
    by (auto simp: nx Let_def dest!: IH split: if_splits)
qed

lemma mix_fill_rests:
  assumes "mix_fill e die st ob = Some (st', ob')"
  shows "rests st' = rests st"
  using assms mix_loop_rests [of e die "mix_plan_of e (mix_datasize e st)" 0 0 0 "ob_buf ob" st]
  by (auto simp: mix_fill_def Let_def split: if_splits option.splits)

section \<open>Inputs keep whole packets\<close>

text \<open>The libraries make tables of whole packets.\<close>

definition tables_whole :: "'b input_env \<Rightarrow> bool" where
  "tables_whole L \<longleftrightarrow> ts_ops_ok (il_ts L) \<and>
     (\<forall>t. table_ok (pm_packets (pmt_regen L t))) \<and> (\<forall>t. table_ok (ei_packets (eit_regen L t)))"

definition stream_ok :: "input_stream \<Rightarrow> bool" where
  "stream_ok s \<longleftrightarrow> (\<forall>P. pmt_rewritten s = Some P \<longrightarrow> table_ok (pm_packets P)) \<and>
     (\<forall>P. eit_rewritten s = Some P \<longrightarrow> table_ok (ei_packets P))"

definition input_ok :: "('b \<Rightarrow> bytes) \<Rightarrow> 'b input \<Rightarrow> bool" where
  "input_ok cont r \<longleftrightarrow> aligned cont (in_buf r) \<and> stream_ok (r_stream r)"

lemma table_bytes_whole: "table_ok t \<Longrightarrow> TS_PACKET_SIZE dvd length (table_bytes t)"
  by (simp add: table_ok_def table_bytes_def)

lemma stamped_whole: "ts_ops_ok T \<Longrightarrow> table_ok t \<Longrightarrow> table_ok (stamp T (unat (c :: 4 word)) t)"
  by (rule stamp_consec(1))

text \<open>Growth since the buffer was \<open>b\<close>, with whole rewritten tables.\<close>

definition grown :: "('b \<Rightarrow> bytes) \<Rightarrow> 'b \<Rightarrow> 'b input \<Rightarrow> bool" where
  "grown cont b r \<longleftrightarrow> grows cont b (in_buf r) \<and> stream_ok (r_stream r)"

lemma input_buffer_add_ok:
  assumes "cbuf_ok (il_cb L) cont" and "TS_PACKET_SIZE dvd length data" and "grown cont b r"
  shows "grown cont b (input_buffer_add L r data)"
  using assms by (auto simp: grown_def grows_def input_buffer_add_cont)

text \<open>Rewriting replaces a table by one the library made; the rest is bookkeeping.\<close>

lemma rewrite_ok:
  assumes "tables_whole L" and "grown cont b r"
  shows "grown cont b (input_rewrite_pat L r)" "grown cont b (input_rewrite_pmt L r)" "grown cont b (input_rewrite_eit L r)"
  using assms
  by (auto simp: grown_def stream_ok_def tables_whole_def input_rewrite_pat_def input_rewrite_pmt_def input_rewrite_eit_def Let_def
      split: prod.splits option.splits)

lemma rewrite_once_ok:
  assumes "tables_whole L" and "grown cont b r"
  shows "grown cont b (rewrite_pat_once L r)" "grown cont b (rewrite_pmt_once L r)" "grown cont b (rewrite_eit_once L r)"
  using rewrite_ok [OF assms] assms(2)
  by (auto simp: rewrite_pat_once_def rewrite_pmt_once_def rewrite_eit_once_def split: option.splits)

lemma send_ok:
  assumes C: "cbuf_ok (il_cb L) cont" and T: "tables_whole L" and I: "grown cont b r"
  shows "grown cont b (send_pat L r)" "grown cont b (send_pmt L r)" "grown cont b (snd (send_eit L r))"
proof -
  have ts: "ts_ops_ok (il_ts L)" using T by (simp add: tables_whole_def)
  show "grown cont b (send_pat L r)"
    using I by (auto simp: send_pat_def Let_def grown_def stream_ok_def split: option.splits)
  show "grown cont b (send_pmt L r)"
  proof (cases "pmt_rewritten (r_stream r)")
    case None
    with I show ?thesis by (simp add: send_pmt_def)
  next
    case (Some P)
    let ?t = "stamp (il_ts L) (unat (is_pmt_cont (r_stream r))) (pm_packets P)"
    let ?q = "r\<lparr> r_stream := (r_stream r)\<lparr> pmt_rewritten := Some (P\<lparr> pm_packets := ?t \<rparr>),
      is_pmt_cont := is_pmt_cont (r_stream r) + of_nat (pt_num ?t) \<rparr> \<rparr>"
    from I Some have "table_ok ?t" by (auto simp: grown_def stream_ok_def intro: stamped_whole [OF ts])
    with I have "grown cont b (input_buffer_add L ?q (table_bytes ?t))"
      by (intro input_buffer_add_ok [OF C] table_bytes_whole) (auto simp: grown_def stream_ok_def)
    with I show ?thesis by (simp add: send_pmt_def Let_def Some)
  qed
  show "grown cont b (snd (send_eit L r))"
  proof (cases "eit_rewritten (r_stream r)")
    case None
    with I show ?thesis by (simp add: send_eit_def)
  next
    case (Some P)
    let ?t = "stamp (il_ts L) (unat (is_eit_cont (r_stream r))) (ei_packets P)"
    let ?q = "r\<lparr> r_stream := (r_stream r)\<lparr> is_eit_cont := is_eit_cont (r_stream r) + of_nat (pt_num ?t) \<rparr> \<rparr>"
    from I Some have "table_ok ?t" by (auto simp: grown_def stream_ok_def intro: stamped_whole [OF ts])
    with I have "grown cont b (input_buffer_add L ?q (table_bytes ?t))"
      by (intro input_buffer_add_ok [OF C] table_bytes_whole) (auto simp: grown_def stream_ok_def)
    with I show ?thesis by (simp add: send_eit_def Let_def Some grown_def stream_ok_def)
  qed
qed

text \<open>One packet.\<close>

lemma find_pmt_pid_grown: "find_pmt_pid r = (a, r') \<Longrightarrow> grown cont b r' = grown cont b r"
  by (auto simp: find_pmt_pid_def input_process_pat_def Let_def grown_def stream_ok_def split: prod.splits if_splits)

lemma process_ok:
  assumes C: "cbuf_ok (il_cb L) cont" and T: "tables_whole L" and I: "grown cont b r"
  shows "process_pat L r pid pkt = (a, r', pkt') \<Longrightarrow> grown cont b r' \<and> pkt' \<in> {pkt, pad_packet}"
    and "process_pmt L r pid pkt = (a, r') \<Longrightarrow> grown cont b r'"
    and "grown cont b (snd (process_eit L r pkt))"
proof -
  have upd: "grown cont b (r\<lparr> r_stream := (r_stream r)\<lparr> is_pat := x, last_pat := y \<rparr> \<rparr>)"
    "grown cont b (r\<lparr> r_stream := (r_stream r)\<lparr> is_pat := x \<rparr> \<rparr>)"
    "grown cont b (r\<lparr> r_stream := (r_stream r)\<lparr> is_pmt := u, last_pmt := v \<rparr> \<rparr>)"
    "grown cont b (r\<lparr> r_stream := (r_stream r)\<lparr> is_pmt := u \<rparr> \<rparr>)"
    "grown cont b (r\<lparr> r_stream := (r_stream r)\<lparr> is_eit := w \<rparr> \<rparr>)" for x y u v w
    using I by (simp_all add: grown_def stream_ok_def)
  show "grown cont b r' \<and> pkt' \<in> {pkt, pad_packet}" if p: "process_pat L r pid pkt = (a, r', pkt')"
  proof -
    let ?lp = "if pa_init (last_pat (r_stream r)) then pat_alloc L else last_pat (r_stream r)"
    obtain ok r3 where f: "find_pmt_pid (r\<lparr> r_stream := (r_stream r)\<lparr> is_pat := pat_push L (is_pat (r_stream r)) pkt,
        last_pat := pat_push L ?lp pkt \<rparr> \<rparr>) = (ok, r3)" by fastforce
    have "grown cont b r3" using find_pmt_pid_grown [OF f] upd(1) by simp
    then have "grown cont b (send_pat L (rewrite_pat_once L r3))" by (intro send_ok [OF C T] rewrite_once_ok [OF T])
    with p I f upd \<open>grown cont b r3\<close> show ?thesis
      by (auto simp: process_pat_def Let_def split: if_splits)
  qed
  show "grown cont b r'" if "process_pmt L r pid pkt = (a, r')"
    using that I upd(3,4) send_ok(2) [OF C T rewrite_once_ok(2) [OF T]]
    by (auto simp: process_pmt_def Let_def split: if_splits)
  show "grown cont b (snd (process_eit L r pkt))"
    using I upd(5) send_ok(3) [OF C T rewrite_once_ok(3) [OF T]] by (auto simp: process_eit_def Let_def)
qed

lemma forward_packet_ok:
  assumes C: "cbuf_ok (il_cb L) cont" and T: "tables_whole L" and I: "grown cont b r" and "is_packet pkt"
  shows "grown cont b (fst (forward_packet L r pid pkt))"
proof -
  have "is_packet (snd (pidref_change_packet_pid (il_ts L) pkt pid ref))" for ref
    using T assms(4) by (auto simp: pidref_change_packet_pid_def Let_def tables_whole_def dest: ts_ops_okD(2))
  then have d: "TS_PACKET_SIZE dvd length (snd (pidref_change_packet_pid (il_ts L) pkt pid ref))" for ref
    by (simp add: is_packet_def)
  define r1 where "r1 = (if pmt_rewritten (r_stream r) \<noteq> None \<and> pid = pcr_pid (r_stream r) \<and> ts_has_pcr (il_ts L) pkt
    then r\<lparr> r_stream := (r_stream r)\<lparr> input_pcr := ts_get_pcr (il_ts L) pkt \<rparr> \<rparr> else r)"
  have "grown cont b r1" using I by (simp add: r1_def grown_def stream_ok_def)
  with input_buffer_add_ok [OF C d] show ?thesis
    unfolding forward_packet_def Let_def r1_def [symmetric] by (auto simp: grown_def)
qed

lemma pad_is_packet: "is_packet pad_packet"
  by (simp add: is_packet_def pad_packet_def ts_sizes)

lemma packet_step_grown:
  assumes C: "cbuf_ok (il_cb L) cont" and T: "tables_whole L" and I: "grown cont b r" and "is_packet pkt"
  shows "grown cont b (fst (snd (packet_step L r pkt)))"
proof -
  obtain a r1 pkt1 where p: "process_pat L r (ts_get_pid (il_ts L) pkt) pkt = (a, r1, pkt1)" by (metis prod_cases3)
  have 1: "grown cont b r1" "is_packet pkt1" using process_ok(1) [OF C T I p] assms(4) pad_is_packet by auto
  obtain c r2 where m: "process_pmt L r1 (ts_get_pid (il_ts L) pkt) pkt1 = (c, r2)" by fastforce
  have 2: "grown cont b r2" by (rule process_ok(2) [OF C T 1(1) m])
  show ?thesis
    using I 1 2 process_ok(3) [OF C T 2] forward_packet_ok [OF C T 2 1(2)] by (simp add: packet_step_def Let_def p m)
qed

lemma packet_step_grows:
  assumes "cbuf_ok (il_cb L) cont" "tables_whole L" "stream_ok (r_stream r)" "is_packet pkt"
  shows "grows cont (in_buf r) (in_buf (fst (snd (packet_step L r pkt))))"
  using packet_step_grown [OF assms(1,2) _ assms(4), of "in_buf r" r] assms(3) by (simp add: grown_def)

lemma packet_step_ok:
  assumes "cbuf_ok (il_cb L) cont" "tables_whole L" "input_ok cont r" "is_packet pkt"
  shows "input_ok cont (fst (snd (packet_step L r pkt)))"
  using packet_step_grown [OF assms(1,2) _ assms(4), of "in_buf r" r] assms(3)
  by (auto simp: input_ok_def grown_def intro: grows_aligned)

text \<open>What is left where the packet lay is a packet, whatever the input.\<close>

lemma packet_step_size:
  assumes "tables_whole L" and "is_packet pkt"
  shows "is_packet (snd (snd (packet_step L r pkt)))"
proof -
  obtain a r1 pkt1 where p: "process_pat L r (ts_get_pid (il_ts L) pkt) pkt = (a, r1, pkt1)" by (metis prod_cases3)
  have 1: "is_packet pkt1"
    using p assms(2) pad_is_packet by (auto simp: process_pat_def Let_def split: if_splits prod.splits)
  obtain b r2 where m: "process_pmt L r1 (ts_get_pid (il_ts L) pkt) pkt1 = (b, r2)" by fastforce
  have "is_packet (snd (forward_packet L q pid pkt1))" for q pid
    using assms(1) 1 by (auto simp: forward_packet_def pidref_change_packet_pid_def Let_def tables_whole_def dest: ts_ops_okD(2))
  with 1 assms(2) show ?thesis by (simp add: packet_step_def Let_def p m)
qed

section \<open>The life of an input\<close>

lemma read_packets_ok:
  assumes "cbuf_ok (il_cb L) cont" "tables_whole L" "n \<le> FRAME_PACKET_SIZE" "FRAME_PACKET_SIZE \<le> length buf" and "188 dvd i"
  shows "(input_ok cont r \<longrightarrow> input_ok cont (fst (snd (read_packets L buf i n r)))) \<and> length (snd (snd (read_packets L buf i n r))) = length buf"
  using assms
proof (induction L buf i n r rule: read_packets.induct)
  case (1 L buf i n r)
  show ?case
  proof (cases "i < n")
    case False
    with 1 show ?thesis by (simp add: read_packets.simps)
  next
    case True
    obtain k where k: "i = 188 * k" using 1 by blast
    with True 1 have "k < 7" by (simp add: ts_sizes)
    with k 1 have b: "is_packet (bslice buf i TS_PACKET_SIZE)" by (simp add: is_packet_def bslice_def ts_sizes)
    obtain out r' pkt where p: "packet_step L r (bslice buf i TS_PACKET_SIZE) = (out, r', pkt)" by (metis prod_cases3)
    have p': "input_ok cont r \<longrightarrow> input_ok cont r'" "is_packet pkt"
      using packet_step_ok [OF 1(2,3) _ b, of r] packet_step_size [OF 1(3) b, of r] by (simp_all add: p)
    have "i + length pkt \<le> length buf" using \<open>k < 7\<close> k 1(5) p'(2) by (simp add: is_packet_def ts_sizes)
    then have l: "length (blit buf i pkt) = length buf" by simp
    have "188 dvd i + 188" using 1 by simp
    have e: "read_packets L buf i n r = (if out = PktNext then read_packets L (blit buf i pkt) (i + 188) n r' else (out, r', blit buf i pkt))"
      using True p by (subst read_packets.simps) (simp split: packet_outcome.split)
    with 1 p p' True l show ?thesis by (cases "out = PktNext") simp_all
  qed
qed

text \<open>
  A read stores at most what it was asked for; the other threads take whole packets from the buffer and
  leave the rewritten tables alone. A read may end inside a packet: its rest is what the buffer on the
  stack held before.
\<close>

definition fair_turn :: "('b \<Rightarrow> bytes) \<Rightarrow> ('b, 's) turn_env \<Rightarrow> bool" where
  "fair_turn cont T \<longleftrightarrow> (\<forall>k r. input_ok cont r \<longrightarrow> input_ok cont (te_poke T k r)) \<and>
     length (te_buffer T) = FRAME_PACKET_SIZE + RTP_HEADER_SIZE \<and>
     (\<forall>tcp s n. fst (te_read T tcp s n) \<le> int n \<and> length (fst (snd (te_read T tcp s n))) \<le> n)"

lemma read_into_size:
  assumes "fair_turn cont T" "length buf = FRAME_PACKET_SIZE + RTP_HEADER_SIZE" "read_into T tcp rs buf s = (n, buf', s')"
  shows "length buf' = FRAME_PACKET_SIZE + RTP_HEADER_SIZE"
    and "n \<le> int (if rs then FRAME_PACKET_SIZE + RTP_HEADER_SIZE else FRAME_PACKET_SIZE)"
proof -
  let ?m = "if rs then FRAME_PACKET_SIZE + RTP_HEADER_SIZE else FRAME_PACKET_SIZE"
  obtain d where d: "te_read T tcp s ?m = (n, d, s')" "buf' = blit buf (if rs then 0 else RTP_HEADER_SIZE) d"
    using assms(3) by (auto simp: read_into_def split: prod.splits)
  have "fst (te_read T tcp s ?m) \<le> int ?m" "length (fst (snd (te_read T tcp s ?m))) \<le> ?m"
    using assms(1) unfolding fair_turn_def by blast+
  with d(1) have s: "n \<le> int ?m" "length d \<le> ?m" by simp_all
  then show "n \<le> int ?m" by simp
  have "(if rs then 0 else RTP_HEADER_SIZE) + length d \<le> length buf" using s(2) assms(2) by (simp split: if_splits)
  with d(2) assms(2) show "length buf' = FRAME_PACKET_SIZE + RTP_HEADER_SIZE" by simp
qed

lemma read_step_ok:
  assumes "cbuf_ok (il_cb L) cont" "tables_whole L" "length buf = FRAME_PACKET_SIZE"
    and "n \<le> int (if rs then FRAME_PACKET_SIZE + RTP_HEADER_SIZE else FRAME_PACKET_SIZE)"
    and "read_step L w rs n buf (z, r) = (out, z', r', left)"
  shows "(input_ok cont r \<longrightarrow> input_ok cont r') \<and> length left = length buf"
proof -
  let ?n = "if rs \<and> n > int RTP_HEADER_SIZE then n - int RTP_HEADER_SIZE else n"
  let ?r = "r\<lparr> working := w \<rparr>"
  have r: "input_ok cont ?r = input_ok cont r" by (simp add: input_ok_def)
  have n: "nat ?n \<le> FRAME_PACKET_SIZE" using assms(4) by (auto simp: ts_sizes split: if_splits)
  obtain out1 r1 left1 where p: "read_packets L buf 0 (nat ?n) ?r = (out1, r1, left1)" by (metis prod_cases3)
  have "(input_ok cont r \<longrightarrow> input_ok cont r1) \<and> length left1 = length buf"
    using read_packets_ok [OF assms(1,2) n, of buf 0 ?r] assms(3) r by (simp add: p)
  moreover have "(r', left) \<in> {(?r, buf), (r1, left1)}"
    using assms(5) p by (auto simp: read_step_def Let_def split: if_splits packet_outcome.splits)
  ultimately show ?thesis using r by auto
qed

lemma input_ok_frames [simp]:
  "input_ok cont (next_input r) = input_ok cont r" "input_ok cont (r\<lparr> working := w \<rparr>) = input_ok cont r"
  "input_ok cont (r\<lparr> reconnect := w \<rparr>) = input_ok cont r" "input_ok cont r \<Longrightarrow> input_ok cont (input_stream_reset L r)"
  by (simp_all add: next_input_def input_ok_def input_stream_reset_def stream_ok_def)

interpretation whole_packets: turn_relation L
    "\<lambda>T. cbuf_ok (il_cb L) cont \<and> tables_whole L \<and> fair_turn cont T" "\<lambda>b. length b = FRAME_PACKET_SIZE + RTP_HEADER_SIZE"
    "\<lambda>r r'. input_ok cont r \<longrightarrow> input_ok cont r'"
  for L :: "'b input_env" and cont
proof (unfold_locales, goal_cases)
  case (3 T r k)
  then show ?case unfolding fair_turn_def by blast
next
  case (8 T)
  then show ?case unfolding fair_turn_def by blast
next
  case (9 T buf tcp rs s n buf' s' w z r out z' r' left)
  have l: "length buf' = FRAME_PACKET_SIZE + RTP_HEADER_SIZE"
    "n \<le> int (if rs then FRAME_PACKET_SIZE + RTP_HEADER_SIZE else FRAME_PACKET_SIZE)"
    using 9 read_into_size [of cont T buf tcp rs s n buf' s'] by blast+
  then have d: "length (drop RTP_HEADER_SIZE buf') = FRAME_PACKET_SIZE" by simp
  have "cbuf_ok (il_cb L) cont" "tables_whole L" using 9(1) by blast+
  from read_step_ok [OF this d l(2) 9(4)] d l(1) show ?case by simp
qed (blast | simp)+


section \<open>The running program\<close>

text \<open>
  The output pipeline, the PSI thread's state and the EITs of the channels. The PSI buffer is
  the one the mixing thread reads, \<open>m_psi\<close>; the inputs are those of its list. \<open>sy_dangling\<close>: the
  mixing thread's pointer to the node it used last, \<open>m_inpt\<close>, points to a node that was freed;
  \<open>sy_undefined\<close>: it was followed, and the state means nothing any more.
\<close>

record 'b system =
  sy_pipe :: "('b, unit input_ext) pipe"
  sy_psi :: "'b psi_out"
  sy_eits :: "(psi_table option \<times> psi_table option) list"
  sy_dangling :: bool
  sy_undefined :: bool

abbreviation sy_inputs :: "'b system \<Rightarrow> 'b input list" where
  "sy_inputs x \<equiv> m_inputs (p_mix (sy_pipe x))"

definition with_mix :: "'b system \<Rightarrow> ('b, unit input_ext) mix_state \<Rightarrow> 'b system" where
  "with_mix x st = x\<lparr> sy_pipe := (sy_pipe x)\<lparr> p_mix := st \<rparr> \<rparr>"

definition with_input :: "'b system \<Rightarrow> nat \<Rightarrow> 'b input \<Rightarrow> 'b system" where
  "with_input x k r = with_mix x ((p_mix (sy_pipe x))\<lparr> m_inputs := (sy_inputs x)[k := r] \<rparr>)"

text \<open>
  An input leaves the list. The pointer to its node is 0 from then on: a search for the next input
  starts by moving the pointer to a node, so as long as it stays 0 nobody has followed it.
\<close>

definition drop_input :: "nat \<Rightarrow> ('b, 'z) mix_state \<Rightarrow> ('b, 'z) mix_state" where
  "drop_input k st =
     st\<lparr> m_inputs := take k (m_inputs st) @ drop (k + 1) (m_inputs st),
         m_inpt := (if m_inpt st = k + 1 then 0 else if k + 1 < m_inpt st then m_inpt st - 1 else m_inpt st) \<rparr>"

text \<open>
  The steps of all threads. An input handles a packet, starts a session, or has its flags, channel and
  file changed; inputs join the end of the list, and any of them leaves it at any time. The PSI
  thread makes a pass at some time while it has not seen the stop request. When the input that the
  mixing thread used last has left, the thread goes on as long as it looks for no other input;
  when there are inputs and it is filling a buffer it may look for one, and what happens then is
  not defined: any state may follow.
\<close>

inductive system_step ::
  "'b program_env \<Rightarrow> 'b psi_env \<Rightarrow> ((psi_table option \<times> psi_table option) list \<Rightarrow> (psi_table option \<times> psi_table option) list) \<Rightarrow>
   'b mix_env \<Rightarrow> 'b system \<Rightarrow> 'b system \<Rightarrow> bool"
  for P S load E where
  pipeline: "thread_step E (sy_pipe x) s \<Longrightarrow> (sy_dangling x \<Longrightarrow> m_inpt (p_mix s) = 0) \<Longrightarrow>
    system_step P S load E x (x\<lparr> sy_pipe := s \<rparr>)"
| packet: "k < length (sy_inputs x) \<Longrightarrow> is_packet pkt \<Longrightarrow> packet_step (pr_lib P) (sy_inputs x ! k) pkt = (out, r, pkt') \<Longrightarrow>
    system_step P S load E x (with_input x k r)"
| reset: "k < length (sy_inputs x) \<Longrightarrow>
    system_step P S load E x (with_input x k (input_stream_reset (pr_lib P) (sy_inputs x ! k)))"
| flags: "k < length (sy_inputs x) \<Longrightarrow>
    system_step P S load E x (with_input x k ((sy_inputs x ! k)\<lparr> r_channel := c, reconnect := a, working := w, r_dienow := d,
      freechannel := f, cookie := ck, ifd := fd \<rparr>))"
| joins: "system_step P S load E x
    (with_mix x ((p_mix (sy_pipe x))\<lparr> m_inputs := sy_inputs x @ [n_input (new_input P wfile c)] \<rparr>))"
| leaves: "k < length (sy_inputs x) \<Longrightarrow>
    system_step P S load E x
      ((with_mix x (drop_input k (p_mix (sy_pipe x))))\<lparr> sy_dangling := sy_dangling x \<or> m_inpt (p_mix (sy_pipe x)) = k + 1 \<rparr>)"
| follows: "sy_dangling x \<Longrightarrow> mix_pc (sy_pipe x) = Working \<Longrightarrow> sy_inputs x \<noteq> [] \<Longrightarrow>
    system_step P S load E x (y\<lparr> sy_undefined := True \<rparr>)"
| tables: "psi_pc (sy_pipe x) = Head \<Longrightarrow>
    psi_pass S load tn ((sy_psi x)\<lparr> psibuf := m_psi (p_mix (sy_pipe x)) \<rparr>, sy_eits x) = ((o', es'), tr) \<Longrightarrow>
    system_step P S load E x
      ((with_mix x ((p_mix (sy_pipe x))\<lparr> m_psi := psibuf o' \<rparr>))\<lparr> sy_psi := o', sy_eits := es' \<rparr>)"

inductive_cases system_stepE: "system_step P S load E x y"

abbreviation system_runs where
  "system_runs P S load E \<equiv> (system_step P S load E)\<^sup>*\<^sup>*"

text \<open>The steps that stay defined, and that a run to a defined state is made of them.\<close>

abbreviation defined_step where
  "defined_step P S load E x y \<equiv> system_step P S load E x y \<and> \<not> sy_undefined y"

lemma undefined_stays: "system_step P S load E x y \<Longrightarrow> sy_undefined x \<Longrightarrow> sy_undefined y"
  by (erule system_stepE) (simp_all add: with_mix_def with_input_def)

lemma defined_run:
  assumes "system_runs P S load E x y" and "\<not> sy_undefined y"
  shows "(defined_step P S load E)\<^sup>*\<^sup>* x y \<and> \<not> sy_undefined x"
  using assms
proof (induction rule: converse_rtranclp_induct)
  case (step x z)
  then show ?case using undefined_stays by (metis (no_types, lifting) converse_rtranclp_into_rtranclp)
qed simp

text \<open>The rewritten tables of the inputs and the output's tables are whole packets.\<close>

definition feeds_ok :: "'b psi_env \<Rightarrow> ((psi_table option \<times> psi_table option) list \<Rightarrow> (psi_table option \<times> psi_table option) list) \<Rightarrow>
  'b system \<Rightarrow> bool" where
  "feeds_ok S load x \<longleftrightarrow> (\<forall>r \<in> set (sy_inputs x). stream_ok (r_stream r)) \<and> psi_inv S load (sy_psi x, sy_eits x)"

definition libs_ok :: "('b \<Rightarrow> bytes) \<Rightarrow> 'b program_env \<Rightarrow> 'b psi_env \<Rightarrow> 'b mix_env \<Rightarrow> bool" where
  "libs_ok cont P S E \<longleftrightarrow> cbuf_ok (me_cb E) cont \<and> ts_ops_ok (me_ts E) \<and> cbuf_ok (il_cb (pr_lib P)) cont \<and> tables_whole (pr_lib P) \<and>
     cbuf_ok (pe_cb S) cont \<and> (\<forall>n x. cont (pr_cbuf P n x) = [])"

lemma stream_of_more: "mix_in.more r = mix_in.more (r' :: 'b input) \<Longrightarrow> r_stream r = r_stream r'"
  by (cases r; cases r') auto

lemma streams_of_rests:
  assumes "rests (st :: ('b, unit input_ext) mix_state) = rests st'" and "\<forall>r \<in> set (m_inputs st'). stream_ok (r_stream r)"
  shows "\<forall>r \<in> set (m_inputs st). stream_ok (r_stream r)"
proof
  fix r
  assume "r \<in> set (m_inputs st)"
  then have "mix_in.more r \<in> set (rests st')" unfolding assms(1) [symmetric] by simp
  then obtain r' where "r' \<in> set (m_inputs st')" "mix_in.more r = mix_in.more r'" by auto
  with assms(2) stream_of_more show "stream_ok (r_stream r)" by metis
qed

lemma new_input_stream: "stream_ok (r_stream (n_input (new_input P wfile c)))"
  by (simp add: new_input_def input_stream_alloc_def zero_stream_def stream_ok_def)

lemma new_input_whole: "cont (pr_cbuf P (1428 * 1316 * 4) (c_id c)) = [] \<Longrightarrow> input_ok cont (n_input (new_input P wfile c))"
  using new_input_stream [of P wfile c] by (simp add: input_ok_def aligned_def) (simp add: new_input_def)

text \<open>The output threads change the inputs by mixing only.\<close>

lemma thread_step_rests:
  "thread_step E s s' \<Longrightarrow> rests (p_mix s') = rests (p_mix s)"
  by (erule thread_stepE) (auto dest: mix_fill_rests)

lemma input_step_feeds:
  assumes "st_ok cont (p_mix (sy_pipe x))" and "feeds_ok S load x" and "input_ok cont r"
  shows "st_ok cont (p_mix (sy_pipe (with_input x k r)))" and "feeds_ok S load (with_input x k r)"
  using assms by (auto simp: st_ok_def feeds_ok_def input_ok_def with_input_def with_mix_def dest!: set_update_subset_insert [THEN subsetD])

lemma system_input_ok:
  assumes "st_ok cont (p_mix (sy_pipe x))" and "feeds_ok S load x" and "k < length (sy_inputs x)"
  shows "input_ok cont (sy_inputs x ! k)"
  using assms by (auto simp: st_ok_def feeds_ok_def input_ok_def)

lemma psi_pass_feeds:
  assumes "psi_inv S load (o1, es)" "psi_pass S load tn (o1, es) = ((o', es'), tr)" "cbuf_ok (pe_cb S) cont"
  shows "psi_inv S load (o', es') \<and> grows cont (psibuf o1) (psibuf o')"
proof -
  have r: "output_psi_add S load (fst tn) (snd tn) o1 es = (o', es', tr)" using assms(2) by (auto simp: psi_pass_def split: prod.splits)
  have "env_ok S" "psi_ok o1" "eits_ok es" "\<And>x. eits_ok x \<Longrightarrow> eits_ok (load x)" using assms(1) by (auto simp: psi_inv_def)
  from output_psi_add_counted [OF this r] assms show ?thesis by (auto simp: psi_inv_def)
qed

text \<open>Every step of the program is one of the pipeline's own or one it allows the others.\<close>

lemma system_simulates:
  assumes st: "system_step P S load E x y" "\<not> sy_undefined y"
    and L: "libs_ok cont P S E" and ok: "st_ok cont (p_mix (sy_pipe x))" and F: "feeds_ok S load x"
  shows "pipe_step E cont (sy_pipe x) (sy_pipe y) \<and> feeds_ok S load y"
proof -
  have feed: ?thesis if "sy_pipe y = (sy_pipe x)\<lparr> p_mix := st \<rparr>" "st_ok cont st" "feeds_ok S load y" for st
    using that pipe_step.feed by metis
  have one: ?thesis if "y = with_input x k r" "input_ok cont r" for k r
    using feed [of "p_mix (sy_pipe (with_input x k r))"] input_step_feeds [OF ok F that(2), of k] that(1)
    by (simp add: with_input_def with_mix_def)
  note lib = L [unfolded libs_ok_def]
  from st(1) show ?thesis
  proof cases
    case (pipeline s)
    then have "feeds_ok S load y" using F streams_of_rests [OF thread_step_rests [OF pipeline(2)]] by (simp add: feeds_ok_def)
    with pipeline pipe_step.own show ?thesis by fastforce
  next
    case (packet k pkt out r pkt')
    with packet_step_ok [of "pr_lib P" cont "sy_inputs x ! k" pkt] system_input_ok [OF ok F] lib have "input_ok cont r" by simp
    with packet(1) one show ?thesis by blast
  next
    case (reset k)
    with system_input_ok [OF ok F] one show ?thesis by simp
  next
    case (flags k c a w d f ck fd)
    with system_input_ok [OF ok F, of k] one show ?thesis by (simp add: input_ok_def)
  next
    case (joins wfile c)
    have "input_ok cont (n_input (new_input P wfile c))" using lib by (intro new_input_whole) blast
    with ok F show ?thesis
      by (intro feed [of "p_mix (sy_pipe y)"]) (auto simp: joins with_mix_def st_ok_def feeds_ok_def input_ok_def)
  next
    case (leaves k)
    then have sub: "set (m_inputs (drop_input k (p_mix (sy_pipe x)))) \<subseteq> set (sy_inputs x)"
      by (auto simp: drop_input_def dest: in_set_takeD in_set_dropD)
    have "m_inpt (drop_input k (p_mix (sy_pipe x))) \<le> length (m_inputs (drop_input k (p_mix (sy_pipe x))))"
      using ok leaves by (auto simp: drop_input_def st_ok_def)
    with sub ok F show ?thesis
      by (intro feed [of "drop_input k (p_mix (sy_pipe x))"]) (auto simp: leaves with_mix_def st_ok_def feeds_ok_def drop_input_def)
  next
    case (follows z)
    with st(2) show ?thesis by simp
  next
    case (tables tn o' es' tr)
    have "psi_inv S load ((sy_psi x)\<lparr> psibuf := m_psi (p_mix (sy_pipe x)) \<rparr>, sy_eits x)"
      using F by (simp add: feeds_ok_def psi_inv_def psi_ok_def)
    from psi_pass_feeds [OF this tables(3), of cont] ok lib have "psi_inv S load (o', es')" "aligned cont (psibuf o')"
      by (auto simp: st_ok_def intro: grows_aligned)
    with ok F show ?thesis
      by (intro feed [of "(p_mix (sy_pipe x))\<lparr> m_psi := psibuf o' \<rparr>"]) (auto simp: tables with_mix_def st_ok_def feeds_ok_def)
  qed
qed


interpretation program_run: simulation "defined_step P S load E" "pipe_step E cont" sy_pipe
    "\<lambda>x. libs_ok cont P S E \<and> pipe_inv E cont n (sy_pipe x) \<and> pipe_log E cont n (sy_pipe x) \<and> feeds_ok S load x"
  for P :: "'b program_env" and S load E cont n
proof
  fix x y :: "'b system"
  assume st: "defined_step P S load E x y"
    and I: "libs_ok cont P S E \<and> pipe_inv E cont n (sy_pipe x) \<and> pipe_log E cont n (sy_pipe x) \<and> feeds_ok S load x"
  have "st_ok cont (p_mix (sy_pipe x))" using I pipe_invD(3) by blast
  with system_simulates [OF conjunct1 [OF st] conjunct2 [OF st]] I have "pipe_step E cont (sy_pipe x) (sy_pipe y)" "feeds_ok S load y" by blast+
  with pipe_step_inv [of E cont "sy_pipe x" "sy_pipe y" n] I
  show "pipe_step E cont (sy_pipe x) (sy_pipe y) \<and>
      libs_ok cont P S E \<and> pipe_inv E cont n (sy_pipe y) \<and> pipe_log E cont n (sy_pipe y) \<and> feeds_ok S load y"
    by (auto simp: libs_ok_def)
qed

text \<open>So a run of the program is, in its output pipeline, a run the pipeline's theorems are about.\<close>

lemma system_refines:
  assumes "system_runs P S load E x0 x" "\<not> sy_undefined x"
    and "libs_ok cont P S E" "pipe_start E cont (sy_pipe x0)" "feeds_ok S load x0"
  shows "pipe_reach E cont (sy_pipe x0) (sy_pipe x)" and "st_ok cont (p_mix (sy_pipe x)) \<and> feeds_ok S load x"
proof -
  let ?n = "ob_size (p_bufs (sy_pipe x0) ! 0)"
  have I: "libs_ok cont P S E \<and> pipe_inv E cont ?n (sy_pipe x0) \<and> pipe_log E cont ?n (sy_pipe x0) \<and> feeds_ok S load x0"
    using assms(3-5) pipe_start_inv [OF assms(4)] by blast
  note run = conjunct1 [OF defined_run [OF assms(1,2)]]
  show "pipe_reach E cont (sy_pipe x0) (sy_pipe x)" by (rule program_run.run [OF run I])
  show "st_ok cont (p_mix (sy_pipe x)) \<and> feeds_ok S load x"
    using program_run.sim_inv.always [OF run I] pipe_invD(3) by blast
qed

text \<open>At the start no input has rewritten a table, and the output's own tables are whole.\<close>

lemma started_feeds:
  assumes "main_start P jos = Inr m" and "build_ok P"
  shows "(\<forall>r \<in> set (m_inputs (p_mix (mn_pipe m))). stream_ok (r_stream r)) \<and> psi_ok (mn_psi m)"
proof -
  obtain cf s r ob0 ob1 o0 o1 rs where m: "output_new P = Inr o0"
    "config_load (pr_opts P) (pr_epg P) (pr_can P) (pr_below P) (pr_cookie P) (pr_files P) jos = Inr (cf, s, r, ob0, ob1)"
    "output_psi_init P (psi_conf_of s cf) o0 = Some o1"
    "spawn_input_threads (pr_cmp P) (cf_store cf) (cf_channels cf) (cf_inputs cf) = Some rs"
    "connect_output (pr_udp P) (o_out_host s) = (Some (mn_sock m), mn_events m)"
    "mn_conf m = cf\<lparr> cf_inputs := rs \<rparr>" "mn_psi m = o1" "mn_options m = s" "mn_rate m = r"
    "mn_inputs m = map (\<lambda>x. new_input P (o_write_input_file s) (the (cf_store cf (in_chan x)))) rs"
    "mn_pipe m = pipe_of (psibuf o1) (mn_inputs m) (output_of s r) ob0 ob1" "mn_mix m = mix_env_of P s r ob0"
    "\<forall>k < 3. pr_thread P k"
    by (rule main_start_Inr [OF assms(1)])
  show ?thesis using output_psi_init_ok [OF assms(2) m(3)] by (auto simp: m(7,10,11) pipe_of_def new_input_stream)
qed


text \<open>The system a started program runs from meets what the simulation needs.\<close>

abbreviation system_of :: "'b running \<Rightarrow> (psi_table option \<times> psi_table option) list \<Rightarrow> 'b system" where
  "system_of m es \<equiv> \<lparr> sy_pipe = mn_pipe m, sy_psi = mn_psi m, sy_eits = es, sy_dangling = False, sy_undefined = False \<rparr>"

lemma started_system:
  assumes "main_start P jos = Inr m" and "\<And>n. length (oe_fresh (pr_opts P) n) = n"
    and "\<And>n b. pr_psibuf P n = Some b \<Longrightarrow> cont b = []" and "\<And>n x. cont (pr_cbuf P n x) = []" and "build_ok P"
    and "cbuf_ok (pr_cb P) cont" "cbuf_ok (il_cb (pr_lib P)) cont" "cbuf_ok (pe_cb S) cont" "tables_whole (pr_lib P)" "env_ok S"
    and "eits_ok es" "\<And>es. eits_ok es \<Longrightarrow> eits_ok (load es)"
  shows "libs_ok cont P S (mn_mix m)" and "pipe_start (mn_mix m) cont (sy_pipe (system_of m es))" and "feeds_ok S load (system_of m es)"
proof -
  have "\<forall>n b. pr_psibuf P n = Some b \<longrightarrow> cont b = []" "\<forall>n x. cont (pr_cbuf P n x) = []" using assms(3,4) by blast+
  note M = started_pipe [OF assms(1,2) this assms(5)]
  have T: "ts_ops_ok (il_ts (pr_lib P))" using assms(9) by (simp add: tables_whole_def)
  show "libs_ok cont P S (mn_mix m)" using M(2) assms(4,6-9) T by (auto simp: libs_ok_def mix_env_of_def)
  show "feeds_ok S load (system_of m es)" using started_feeds [OF assms(1,5)] assms(10-12) by (simp add: feeds_ok_def psi_inv_def)
  show "pipe_start (mn_mix m) cont (sy_pipe (system_of m es))" using M(1) by simp
qed

text \<open>A started program has inputs, and the mixing thread begins behind the last one.\<close>

lemma started_inputs_some:
  assumes "main_start P jos = Inr m" and "\<And>x y. pr_cmp P (Some x) (Some y) = 0 \<longleftrightarrow> x = y"
  shows "sy_inputs (system_of m es) \<noteq> []" and "m_inpt (p_mix (sy_pipe (system_of m es))) = length (sy_inputs (system_of m es))"
proof -
  obtain cf s r ob0 ob1 o0 o1 rs where m: "output_new P = Inr o0"
    "config_load (pr_opts P) (pr_epg P) (pr_can P) (pr_below P) (pr_cookie P) (pr_files P) jos = Inr (cf, s, r, ob0, ob1)"
    "output_psi_init P (psi_conf_of s cf) o0 = Some o1"
    "spawn_input_threads (pr_cmp P) (cf_store cf) (cf_channels cf) (cf_inputs cf) = Some rs"
    "connect_output (pr_udp P) (o_out_host s) = (Some (mn_sock m), mn_events m)"
    "mn_conf m = cf\<lparr> cf_inputs := rs \<rparr>" "mn_psi m = o1" "mn_options m = s" "mn_rate m = r"
    "mn_inputs m = map (\<lambda>x. new_input P (o_write_input_file s) (the (cf_store cf (in_chan x)))) rs"
    "mn_pipe m = pipe_of (psibuf o1) (mn_inputs m) (output_of s r) ob0 ob1" "mn_mix m = mix_env_of P s r ob0"
    "\<forall>k < 3. pr_thread P k"
    by (rule main_start_Inr [OF assms(1)])
  have "in_name ` set rs = (\<lambda>a. c_name (the (cf_store cf a))) ` set (cf_channels cf)" "cf_channels cf \<noteq> []"
    using config_load_Inr [OF m(2)] spawn_names [of "pr_cmp P", OF assms(2) m(4)] by auto
  then have "rs \<noteq> []" by auto
  then show "sy_inputs (system_of m es) \<noteq> []" "m_inpt (p_mix (sy_pipe (system_of m es))) = length (sy_inputs (system_of m es))"
    by (simp_all add: m(10,11) pipe_of_def)
qed

section \<open>Properties\<close>

text \<open>
  C33. Whatever the network delivers and however long it runs, an input thread leaves whole
  packets in its buffer, through sessions, reconnects, table changes and reads that end inside
  a packet, if the other threads do: the mixing thread's assumption on its inputs.
\<close>

theorem input_thread_keeps_packets:
  assumes "cbuf_ok (il_cb L) cont" "tables_whole L" "\<forall>T \<in> set Ts. fair_turn cont T"
    and "input_ok cont (n_input r)" and "input_thread L now Ts r = Some (ended, ks, es, r')"
  shows "TS_PACKET_SIZE dvd length (cont (in_buf (n_input r')))"
proof -
  let ?i = "(n_input r)\<lparr> working := in_time now (n_input r) \<rparr>"
  have "input_ok cont ((next_input ^^ n) ?i)" for n using assms(4) by (induction n) simp_all
  moreover have "input_ok cont ((next_input ^^ length (filter ((=) Reconnected) ks)) ?i) \<longrightarrow> input_ok cont (n_input r')"
    using whole_packets.input_turns_rel [OF assms(5) [unfolded input_thread_def]] assms(1-3) by simp
  ultimately show ?thesis by (simp add: input_ok_def aligned_def)
qed

lemma demo_lib_whole: "tables_whole demo_lib" "cbuf_ok (il_cb demo_lib) q_bytes"
  by (simp_all add: tables_whole_def demo_lib_def iso_ts_ok table_ok_def demo_pmt_def demo_eit_def ts_sizes queue_ops_ok)

lemma demo_timeout: "map_option (\<lambda>(ended, ks, es, r). (ended, ks)) (input_thread demo_lib 0 [demo_turn] (demo_net_input ''rtp://h/x'')) =
    Some (False, [Reconnected])"
  by code_simp

theorem input_thread_keeps_packets_witness:
  "\<exists>es r'. input_thread demo_lib 0 [demo_turn] (demo_net_input ''rtp://h/x'') = Some (False, [Reconnected], es, r') \<and>
     TS_PACKET_SIZE dvd length (q_bytes (in_buf (n_input r')))"
proof -
  have f: "fair_turn q_bytes demo_turn" by (simp add: fair_turn_def demo_turn_def list_rd_def ts_sizes)
  have i: "input_ok q_bytes (n_input (demo_net_input ''rtp://h/x''))"
    by (simp add: input_ok_def aligned_def stream_ok_def demo_net_input_def demo_input_def demo_stream_def)
  obtain es r' where r: "input_thread demo_lib 0 [demo_turn] (demo_net_input ''rtp://h/x'') = Some (False, [Reconnected], es, r')"
    using demo_timeout by (auto split: prod.splits)
  from input_thread_keeps_packets [OF demo_lib_whole(2,1) _ i r] f r show ?thesis by simp
qed

text \<open>
  C6. What a started program sends, with all its threads running in any interleaving, inputs
  joining and leaving at any time, up to the use of a freed node: after the input that the mixing
  thread used last has left, a buffer it fills while there are inputs may send it on from there,
  and nothing is said about what follows. Until then the buffers written are the buffers filled,
  each once and in order; every filled buffer holds the packets taken from the PSI buffer and the
  inputs, each slot once, and padding elsewhere; every buffer goes out as a tenth of the frames per
  second, each frame changed only as the writing thread may; and the inputs' buffers always hold
  whole packets.
\<close>

theorem running_program_output:
  assumes "main_start P jos = Inr m" and "\<And>n. length (oe_fresh (pr_opts P) n) = n"
    and "\<And>n b. pr_psibuf P n = Some b \<Longrightarrow> cont b = []" and "\<And>n x. cont (pr_cbuf P n x) = []" and "build_ok P"
    and "cbuf_ok (pr_cb P) cont" "cbuf_ok (il_cb (pr_lib P)) cont" "cbuf_ok (pe_cb S) cont" "tables_whole (pr_lib P)" "env_ok S"
    and "eits_ok es" "\<And>es. eits_ok es \<Longrightarrow> eits_ok (load es)"
    and "system_runs P S load (mn_mix m) (system_of m es) x" and "\<not> sy_undefined x"
  shows "let s = sy_pipe x in n_sent s \<le> n_made s \<and> n_made s \<le> n_sent s + 2 \<and>
    (\<forall>k < n_made s. \<exists>ob pos ps. ob_buf ob = snd (snd (p_made s ! k)) \<and>
       filled (mn_mix m) cont (fst (p_made s ! k)) (fst (snd (p_made s ! k))) ob pos ps) \<and>
    (\<forall>k < n_sent s. int (length (snd (p_sent s ! k))) = (packets_per_sec (mn_rate m) + 9) div 10 \<and>
       sends (il_ts (pr_lib P)) (o_pcr_mode (mn_options m)) (fst (p_sent s ! k)) (snd (snd (p_made s ! k))) 0 (snd (p_sent s ! k))) \<and>
    (\<forall>r \<in> set (sy_inputs x). TS_PACKET_SIZE dvd length (cont (in_buf r)))"
proof -
  note R = system_refines [OF assms(13,14) started_system [OF assms(1-12)]]
  have T: "ts_ops_ok (il_ts (pr_lib P))" using assms(9) by (simp add: tables_whole_def)
  have reach: "pipe_reach (mn_mix m) cont (mn_pipe m) (sy_pipe x)" using R(1) by simp
  have "\<forall>r \<in> set (sy_inputs x). TS_PACKET_SIZE dvd length (cont (in_buf r))" using R(2) by (simp add: st_ok_def aligned_def)
  with program_output_in_order [OF assms(1-6) T reach] show ?thesis by (simp add: Let_def)
qed

theorem running_program_output_witness:
  "\<exists>m x. main_start demo_program demo_args = Inr m \<and>
     system_runs demo_program demo_penv (\<lambda>es. es) (mn_mix m) (system_of m []) x \<and> \<not> sy_undefined x \<and> sy_dangling x \<and>
     killed (sy_pipe x) \<and> sy_inputs x \<noteq> [] \<and> n_made (sy_pipe x) \<le> n_sent (sy_pipe x) + 2 \<and>
     (\<forall>r \<in> set (sy_inputs x). TS_PACKET_SIZE dvd length (q_bytes (in_buf r)))"
proof -
  obtain m where m: "main_start demo_program demo_args = Inr m" using demo_start by blast
  let ?x = "system_of m []" and ?step = "system_step demo_program demo_penv (\<lambda>es. es) (mn_mix m)"
  note S = demo_program_ok
  define n where "n = length (sy_inputs ?x)"
  have "pr_cmp demo_program (Some a) (Some b) = 0 \<longleftrightarrow> a = b" for a b by (simp add: demo_program_def)
  then have n: "0 < n" "m_inpt (p_mix (sy_pipe ?x)) = n" using started_inputs_some [OF m] by (simp_all add: n_def)
  define y where "y = with_mix ?x ((p_mix (sy_pipe ?x))\<lparr> m_inputs := sy_inputs ?x @ [n_input (new_input demo_program False demo_channel)] \<rparr>)"
  have y: "?step ?x y" unfolding y_def by (rule joins)
  have yn: "length (sy_inputs y) = n + 1" "m_inpt (p_mix (sy_pipe y)) = n" using n(2) by (simp_all add: y_def with_mix_def n_def)
  obtain out r pkt' where p: "packet_step (pr_lib demo_program) (sy_inputs y ! n) pad_packet = (out, r, pkt')" by (metis prod_cases3)
  define z where "z = with_input y n r"
  have z: "?step y z" unfolding z_def by (rule packet [OF _ pad_is_packet p]) (simp add: yn)
  have zn: "length (sy_inputs z) = n + 1" "m_inpt (p_mix (sy_pipe z)) = n" using yn by (simp_all add: z_def with_input_def with_mix_def)
  define w where "w = (with_mix z (drop_input (n - 1) (p_mix (sy_pipe z))))
    \<lparr> sy_dangling := sy_dangling z \<or> m_inpt (p_mix (sy_pipe z)) = n - 1 + 1 \<rparr>"
  have w: "?step z w" unfolding w_def by (rule leaves) (simp add: zn)
  have wn: "length (sy_inputs w) = n" "m_inpt (p_mix (sy_pipe w)) = 0" "sy_dangling w" "\<not> sy_undefined w"
    using zn n(1) by (simp_all add: w_def with_mix_def drop_input_def) (simp add: z_def y_def with_input_def with_mix_def)
  have "pipe_start (mn_mix m) q_bytes (mn_pipe m)" by (rule started_pipe(1) [OF m S(1) _ _ S(4)]) (simp_all add: S)
  then have k: "\<not> killed (sy_pipe w)" by (simp add: pipe_start_def w_def y_def z_def with_mix_def with_input_def)
  define v where "v = w\<lparr> sy_pipe := (sy_pipe w)\<lparr> killed := True, p_die := 1 \<rparr> \<rparr>"
  have v: "?step w v" unfolding v_def by (rule pipeline [OF thread_step.kill [OF k]]) (simp add: wn)
  have run: "system_runs demo_program demo_penv (\<lambda>es. es) (mn_mix m) ?x v" using y z w v by (meson rtranclp.intros)
  have vn: "\<not> sy_undefined v" "sy_dangling v" "killed (sy_pipe v)" "sy_inputs v \<noteq> []" using wn n(1) by (auto simp: v_def)
  have lib: "pr_lib demo_program = demo_lib" "pe_cb demo_penv = queue_ops" "env_ok demo_penv"
    by (simp_all add: demo_program_def demo_penv_def env_ok_def iso_ts_ok)
  have "n_made (sy_pipe v) \<le> n_sent (sy_pipe v) + 2 \<and> (\<forall>r \<in> set (sy_inputs v). TS_PACKET_SIZE dvd length (q_bytes (in_buf r)))"
    using running_program_output [where cont = q_bytes and S = demo_penv and es = "[]" and load = "\<lambda>es. es", OF m S(1-5) _ _ _ _ _ _ run vn(1)]
      lib demo_lib_whole by (simp add: Let_def queue_ops_ok eits_ok_def)
  with m run vn show ?thesis by blast
qed

text \<open>
  C23. The RTP header is taken off only when more than the header was read. After a datagram of at
  most 12 bytes the loop looks at the first packet in the buffer, which the read has not
  written: the first packet of the datagram before is handled a second time.
\<close>

theorem short_datagram_repeats:
  assumes "te_read T tcp s (FRAME_PACKET_SIZE + RTP_HEADER_SIZE) = (n, d, s')" "0 < n" "n \<le> int RTP_HEADER_SIZE" "length d = nat n"
    and "length buf = FRAME_PACKET_SIZE + RTP_HEADER_SIZE" and "input_check_state (r\<lparr> working := True \<rparr>) = 0"
  shows "\<exists>buf'. read_into T tcp True buf s = (n, buf', s') \<and>
    fst (snd (snd (read_step L True True n (drop RTP_HEADER_SIZE buf') (z, r)))) =
      fst (snd (packet_step L (r\<lparr> working := True \<rparr>) (bslice buf RTP_HEADER_SIZE TS_PACKET_SIZE)))"
proof -
  let ?buf = "blit buf 0 d"
  have l: "length d \<le> RTP_HEADER_SIZE" using assms(3,4) by simp
  have b: "bslice (drop RTP_HEADER_SIZE ?buf) 0 TS_PACKET_SIZE = bslice buf RTP_HEADER_SIZE TS_PACKET_SIZE"
    using l by (simp add: blit_def bslice_def)
  have n: "0 < nat n" "nat n \<le> 188" using assms(2,3) by (simp_all add: ts_sizes)
  let ?r = "r\<lparr> working := True \<rparr>"
  obtain out r' pkt where p: "packet_step L ?r (bslice buf RTP_HEADER_SIZE TS_PACKET_SIZE) = (out, r', pkt)" by (metis prod_cases3)
  have rp: "read_packets L (drop RTP_HEADER_SIZE ?buf) 0 (nat n) ?r = (out, r', blit (drop RTP_HEADER_SIZE ?buf) 0 pkt)"
    using n by (subst read_packets.simps) (simp add: b p read_packets.simps split: packet_outcome.split)
  have "fst (snd (snd (read_step L True True n (drop RTP_HEADER_SIZE ?buf) (z, r)))) = r'"
    using assms(2,3,6) by (simp add: read_step_def Let_def rp split: packet_outcome.split)
  then show ?thesis using assms(1) p by (intro exI [of _ ?buf]) (simp add: read_into_def)
qed

theorem short_datagram_repeats_witness:
  "\<exists>buf'. read_into demo_turn False True (replicate 1328 0) ([7, 8] :: bytes) = (2, buf', []) \<and>
    fst (snd (snd (read_step demo_lib True True 2 (drop 12 buf') (3, demo_input [])))) =
      fst (snd (packet_step demo_lib (demo_input []) (replicate 188 0)))"
proof -
  have d: "(demo_input [])\<lparr> working := True \<rparr> = demo_input []" by (simp add: demo_input_def)
  have r: "te_read demo_turn False [7, 8] (FRAME_PACKET_SIZE + RTP_HEADER_SIZE) = (2, [7, 8], [])"
    by (simp add: demo_turn_def list_rd_def ts_sizes)
  have l: "length (replicate 1328 (0 :: u8)) = FRAME_PACKET_SIZE + RTP_HEADER_SIZE" by (simp add: ts_sizes)
  have c: "input_check_state ((demo_input [])\<lparr> working := True \<rparr>) = 0" by (simp add: input_check_state_def demo_input_def)
  have b: "bslice (replicate 1328 (0 :: u8)) RTP_HEADER_SIZE TS_PACKET_SIZE = replicate 188 0" by (simp add: bslice_def ts_sizes)
  show ?thesis
    using short_datagram_repeats [OF r _ _ _ l c, of demo_lib 3] unfolding d b by (simp add: ts_sizes)
qed

end
