(* ===== verification/Deliver.thy ===== *)
theory Deliver
  imports Feed
begin

text \<open>
  From the buffers to the output, over a whole run: what arrives in the PSI buffer and in the
  buffers of the inputs is, origin by origin and in order, what the filled output buffers carry,
  and what is still waiting. Nothing is lost, doubled, reordered or moved between origins.
\<close>

section \<open>Packets of a string of bytes\<close>

definition split_packets :: "bytes \<Rightarrow> bytes list" where
  "split_packets bs = map (slot bs) [0..<packets_in bs]"

lemma split_append:
  assumes "TS_PACKET_SIZE dvd length xs"
  shows "split_packets (xs @ ys) = split_packets xs @ split_packets ys"
proof -
  obtain n where n: "length xs = n * TS_PACKET_SIZE" using assms by (metis dvd_def mult.commute)
  then have px: "packets_in xs = n" by (simp add: packets_in_def ts_sizes)
  have left: "slot (xs @ ys) k = slot xs k" if "k < n" for k
  proof (rule slot_append_left)
    show "(k + 1) * TS_PACKET_SIZE \<le> length xs" unfolding n using that by (intro mult_le_mono1) simp
  qed
  have right: "slot (xs @ ys) k = slot ys (k - n)" if "\<not> k < n" for k
    using slot_append_right [OF n, of ys "k - n"] that by simp
  have "map (slot (xs @ ys)) [0..<n + packets_in ys] = map (slot xs) [0..<n] @ map (slot ys) [0..<packets_in ys]"
    by (rule nth_equalityI) (simp_all add: nth_append left right)
  with packets_in_append [OF assms, of ys] px show ?thesis by (simp add: split_packets_def)
qed

lemma split_one: "is_packet p \<Longrightarrow> split_packets p = [p]"
  by (simp add: split_packets_def packets_in_def is_packet_def slot_def bslice_def ts_sizes)

lemma split_concat:
  "\<forall>p \<in> set ps. is_packet p \<Longrightarrow> split_packets (concat ps @ bs) = ps @ split_packets bs"
  by (induction ps) (simp_all add: split_append split_one is_packet_def)

text \<open>The packets that are not padding.\<close>

definition data_of :: "ts_ops \<Rightarrow> bytes \<Rightarrow> bytes list" where
  "data_of T bs = filter (\<lambda>p. unat (ts_get_pid T p) < 0x1fff) (split_packets bs)"

lemma data_append: "TS_PACKET_SIZE dvd length xs \<Longrightarrow> data_of T (xs @ ys) = data_of T xs @ data_of T ys"
  by (simp add: data_of_def split_append)

lemma data_Nil [simp]: "data_of T [] = []"
  by (simp add: data_of_def split_packets_def packets_in_def)

lemma fed_data: "fed T cont a b sent \<Longrightarrow> data_of T (cont a) = sent @ data_of T (cont b)"
  by (auto simp: fed_def data_of_def split_concat)

section \<open>What arrives\<close>

text \<open>The buffer of an origin: 0 is the PSI thread, \<open>k + 1\<close> the input at index \<open>k\<close>.\<close>

definition origin_buf :: "('b, 'z) mix_state \<Rightarrow> nat \<Rightarrow> 'b" where
  "origin_buf st g = (if g = 0 then m_psi st else in_buf (m_inputs st ! (g - 1)))"

abbreviation held :: "('b \<Rightarrow> bytes) \<Rightarrow> 'b system \<Rightarrow> nat \<Rightarrow> bytes" where
  "held cont x g \<equiv> cont (origin_buf (p_mix (sy_pipe x)) g)"

text \<open>A run as its list of states, and what a run adds to a buffer, step by step.\<close>

fun arrived :: "('b \<Rightarrow> bytes) \<Rightarrow> nat \<Rightarrow> 'b system list \<Rightarrow> bytes" where
  "arrived cont g (x # y # xs) = drop (length (held cont x g)) (held cont y g) @ arrived cont g (y # xs)"
| "arrived cont g xs = []"

lemma arrived_snoc:
  "xs \<noteq> [] \<Longrightarrow> arrived cont g (xs @ [y]) = arrived cont g xs @ drop (length (held cont (last xs) g)) (held cont y g)"
  by (induction cont g xs rule: arrived.induct) auto

section \<open>One step\<close>

text \<open>A step either adds to the buffers or is a fill, which takes from them.\<close>

definition fill_of :: "'b mix_env \<Rightarrow> ('b \<Rightarrow> bytes) \<Rightarrow>
  ('b, 'z) mix_state \<times> ('b, 'z) mix_state \<times> bytes \<Rightarrow> (nat \<times> bytes) list \<Rightarrow> bool" where
  "fill_of E cont made ps \<longleftrightarrow> (\<exists>ob pos. ob_buf ob = snd (snd made) \<and> filled E cont (fst made) (fst (snd made)) ob pos ps)"

definition step_adds :: "('b \<Rightarrow> bytes) \<Rightarrow> 'b system \<Rightarrow> 'b system \<Rightarrow> bool" where
  "step_adds cont x y \<longleftrightarrow> p_made (sy_pipe y) = p_made (sy_pipe x) \<and>
     (\<forall>g \<le> length (sy_inputs x). grows cont (origin_buf (p_mix (sy_pipe x)) g) (origin_buf (p_mix (sy_pipe y)) g))"

definition step_fills :: "'b mix_env \<Rightarrow> ('b \<Rightarrow> bytes) \<Rightarrow> 'b system \<Rightarrow> 'b system \<Rightarrow> bool" where
  "step_fills E cont x y \<longleftrightarrow> (\<exists>b ps. p_made (sy_pipe y) = p_made (sy_pipe x) @ [(p_mix (sy_pipe x), p_mix (sy_pipe y), b)] \<and>
     fill_of E cont (p_mix (sy_pipe x), p_mix (sy_pipe y), b) ps)"

lemma thread_step_delivers:
  assumes "thread_step E s s'" and "pipe_log E cont n s'"
  shows "(p_made s' = p_made s \<and> p_mix s' = p_mix s) \<or>
    (\<exists>b ps. p_made s' = p_made s @ [(p_mix s, p_mix s', b)] \<and> fill_of E cont (p_mix s, p_mix s', b) ps)"
  using assms(1)
proof cases
  case (mix_done die st' ob')
  then have m: "p_made s' = p_made s @ [(p_mix s, p_mix s', ob_buf ob')]" by simp
  from assms(2) obtain ob pos ps where "ob_buf ob = snd (snd (p_made s' ! n_made s))"
    "filled E cont (fst (p_made s' ! n_made s)) (fst (snd (p_made s' ! n_made s))) ob pos ps"
    unfolding pipe_log_def using m by fastforce
  with m show ?thesis by (auto simp: fill_of_def)
qed auto

lemma origin_buf_update:
  "origin_buf (st\<lparr> m_inputs := (m_inputs st)[k := r] \<rparr>) g =
    (if g = Suc k \<and> k < length (m_inputs st) then in_buf r else origin_buf st g)"
  by (cases g; cases "k < length (m_inputs st)") (auto simp: origin_buf_def nth_list_update list_update_beyond)

lemma input_step_adds:
  assumes "k < length (sy_inputs x)" and "grows cont (in_buf (sy_inputs x ! k)) (in_buf r)"
  shows "step_adds cont x (with_input x k r)"
  using assms by (auto simp: step_adds_def with_input_def with_mix_def origin_buf_update) (auto simp: origin_buf_def)

lemma system_step_delivers:
  assumes st: "system_step P S load E x y" and L: "libs_ok cont P S E" and F: "feeds_ok S load x"
    and log: "pipe_log E cont n (sy_pipe y)" and len: "length (sy_inputs y) = length (sy_inputs x)"
    and d: "\<not> sy_dangling x"
  shows "step_adds cont x y \<or> step_fills E cont x y"
  using st
proof cases
  case (pipeline s)
  with thread_step_delivers [OF pipeline(2), of cont n] log show ?thesis
    by (auto simp: step_adds_def step_fills_def)
next
  case (follows z)
  with d show ?thesis by simp
next
  case (packet k pkt out r pkt')
  have "stream_ok (r_stream (sy_inputs x ! k))" using F packet(2) by (simp add: feeds_ok_def)
  with packet_step_grows [of "pr_lib P" cont "sy_inputs x ! k" pkt] L packet
  have "grows cont (in_buf (sy_inputs x ! k)) (in_buf r)" by (simp add: libs_ok_def)
  with input_step_adds [OF packet(2)] packet(1) show ?thesis by blast
next
  case (reset k)
  with input_step_adds [OF reset(2), of cont "input_stream_reset (pr_lib P) (sy_inputs x ! k)"] show ?thesis
    by (simp add: input_stream_reset_def)
next
  case (flags k c a w d f ck fd)
  with input_step_adds [OF flags(2)] show ?thesis by simp
next
  case (joins wfile c)
  with len show ?thesis by (simp add: with_mix_def)
next
  case (leaves k)
  with len show ?thesis by (simp add: with_mix_def drop_input_def)
next
  case (tables tn o' es' tr)
  have "psi_inv S load ((sy_psi x)\<lparr> psibuf := m_psi (p_mix (sy_pipe x)) \<rparr>, sy_eits x)"
    using F by (simp add: feeds_ok_def psi_inv_def psi_ok_def)
  from psi_pass_feeds [OF this tables(3), of cont] L have "grows cont (m_psi (p_mix (sy_pipe x))) (psibuf o')"
    by (simp add: libs_ok_def)
  then show ?thesis by (auto simp: tables step_adds_def with_mix_def origin_buf_def)
qed

text \<open>While no input leaves, the node the mixing thread used last is not freed.\<close>

lemma system_step_keeps:
  assumes "system_step P S load E x y" and "length (sy_inputs y) = length (sy_inputs x)" and "\<not> sy_dangling x" "\<not> sy_undefined x"
  shows "\<not> sy_dangling y" and "\<not> sy_undefined y"
  using assms by (auto elim!: system_stepE simp: with_mix_def with_input_def drop_input_def)

section \<open>A whole run\<close>

text \<open>
  The state \<open>x\<close> after a run in which \<open>arr g\<close> has arrived from origin \<open>g\<close>: \<open>pss\<close> lists the packets of
  each filled buffer.
\<close>

definition delivered :: "'b mix_env \<Rightarrow> ('b \<Rightarrow> bytes) \<Rightarrow> 'b system \<Rightarrow> (nat \<Rightarrow> bytes) \<Rightarrow> (nat \<times> bytes) list list \<Rightarrow> bool" where
  "delivered E cont x arr pss \<longleftrightarrow> list_all2 (fill_of E cont) (p_made (sy_pipe x)) pss \<and>
     arr 0 = concat (concat (map (from_origin 0) pss)) @ held cont x 0 \<and>
     (\<forall>g. 0 < g \<and> g \<le> length (sy_inputs x) \<longrightarrow>
        data_of (me_ts E) (arr g) = concat (map (from_origin g) pss) @ data_of (me_ts E) (held cont x g))"

lemma fills_held:
  assumes "fill_of E cont (p_mix (sy_pipe x), p_mix (sy_pipe y), b) ps"
  shows "held cont x 0 = concat (from_origin 0 ps) @ held cont y 0"
    and "0 < g \<Longrightarrow> g \<le> length (sy_inputs x) \<Longrightarrow> fed (me_ts E) cont (origin_buf (p_mix (sy_pipe x)) g) (origin_buf (p_mix (sy_pipe y)) g) (from_origin g ps)"
    and "g \<le> length (sy_inputs x) \<Longrightarrow> drop (length (held cont x g)) (held cont y g) = []"
proof -
  have t: "trace_ok (me_ts E) cont (p_mix (sy_pipe x)) (p_mix (sy_pipe y)) ps" using assms by (auto simp: fill_of_def filled_def)
  show psi: "held cont x 0 = concat (from_origin 0 ps) @ held cont y 0" using t by (simp add: trace_ok_def origin_buf_def)
  show fed: "fed (me_ts E) cont (origin_buf (p_mix (sy_pipe x)) g) (origin_buf (p_mix (sy_pipe y)) g) (from_origin g ps)"
    if "0 < g" "g \<le> length (sy_inputs x)" for g
    using t that by (cases g) (simp_all add: trace_ok_def origin_buf_def)
  show "drop (length (held cont x g)) (held cont y g) = []" if "g \<le> length (sy_inputs x)"
    using psi fed [of g] that by (cases "g = 0") (auto simp: fed_def)
qed

lemma adds_delivered:
  assumes D: "delivered E cont x arr pss" and W: "\<forall>g \<le> length (sy_inputs x). TS_PACKET_SIZE dvd length (arr g)"
    and H: "\<forall>g \<le> length (sy_inputs x). TS_PACKET_SIZE dvd length (held cont x g)"
    and st: "step_adds cont x y" and len: "length (sy_inputs y) = length (sy_inputs x)"
    and arr': "\<And>g. arr' g = arr g @ drop (length (held cont x g)) (held cont y g)"
  shows "delivered E cont y arr' pss \<and> (\<forall>g \<le> length (sy_inputs y). TS_PACKET_SIZE dvd length (arr' g))"
proof -
  let ?d = "\<lambda>g. drop (length (held cont x g)) (held cont y g)"
  have g: "held cont y g = held cont x g @ ?d g" "TS_PACKET_SIZE dvd length (?d g)" if "g \<le> length (sy_inputs x)" for g
    using st that by (auto simp: step_adds_def grows_def)
  have "data_of (me_ts E) (arr' g) = concat (map (from_origin g) pss) @ data_of (me_ts E) (held cont y g)"
    if "0 < g" "g \<le> length (sy_inputs x)" for g
    unfolding arr' using D W H that by (subst g(1)) (simp_all add: data_append delivered_def)
  moreover have "arr' 0 = concat (concat (map (from_origin 0) pss)) @ held cont y 0"
    unfolding arr' using D by (subst g(1)) (simp_all add: delivered_def)
  ultimately show ?thesis using D W st g(2) by (simp add: delivered_def step_adds_def len arr')
qed

lemma fills_delivered:
  assumes D: "delivered E cont x arr pss" and st: "step_fills E cont x y" and len: "length (sy_inputs y) = length (sy_inputs x)"
    and arr': "\<And>g. arr' g = arr g @ drop (length (held cont x g)) (held cont y g)"
  shows "(\<exists>pss'. delivered E cont y arr' pss') \<and> (\<forall>g \<le> length (sy_inputs x). arr' g = arr g)"
proof -
  obtain b ps where m: "p_made (sy_pipe y) = p_made (sy_pipe x) @ [(p_mix (sy_pipe x), p_mix (sy_pipe y), b)]"
    and f: "fill_of E cont (p_mix (sy_pipe x), p_mix (sy_pipe y), b) ps" using st by (auto simp: step_fills_def)
  note F = fills_held [OF f]
  have a: "arr' g = arr g" if "g \<le> length (sy_inputs x)" for g using F(3) [OF that] by (simp add: arr')
  have "delivered E cont y arr' (pss @ [ps])"
    using D f F(1) fed_data [OF F(2)] by (auto simp: delivered_def m len a intro!: list_all2_appendI)
  with a show ?thesis by blast
qed

text \<open>All the steps of a run in which the inputs stay.\<close>

lemma run_delivers:
  assumes L: "libs_ok cont P S E" and start: "pipe_start E cont (sy_pipe x0)" and F: "feeds_ok S load x0"
    and empty: "\<forall>g \<le> length (sy_inputs x0). held cont x0 g = []" and fresh: "\<not> sy_dangling x0" "\<not> sy_undefined x0"
  shows "successively (system_step P S load E) xs \<Longrightarrow> xs \<noteq> [] \<Longrightarrow> hd xs = x0 \<Longrightarrow>
    \<forall>x \<in> set xs. length (sy_inputs x) = length (sy_inputs x0) \<Longrightarrow>
    system_runs P S load E x0 (last xs) \<and> \<not> sy_dangling (last xs) \<and> \<not> sy_undefined (last xs) \<and> (\<exists>pss. delivered E cont (last xs) (\<lambda>g. arrived cont g xs) pss) \<and>
    (\<forall>g \<le> length (sy_inputs x0). TS_PACKET_SIZE dvd length (arrived cont g xs))"
proof (induction xs rule: rev_induct)
  case (snoc y xs)
  show ?case
  proof (cases "xs = []")
    case True
    with snoc.prems(3) start empty fresh show ?thesis by (auto simp: delivered_def pipe_start_def)
  next
    case False
    let ?x = "last xs" and ?n = "ob_size (p_bufs (sy_pipe x0) ! 0)"
    have st: "system_step P S load E ?x y" using snoc.prems(1) False by (simp add: successively_append_iff)
    have len: "length (sy_inputs ?x) = length (sy_inputs x0)" "length (sy_inputs y) = length (sy_inputs x0)"
      using snoc.prems(4) False by auto
    obtain pss where IH: "system_runs P S load E x0 ?x" "delivered E cont ?x (\<lambda>g. arrived cont g xs) pss"
      "\<forall>g \<le> length (sy_inputs x0). TS_PACKET_SIZE dvd length (arrived cont g xs)"
      and fresh': "\<not> sy_dangling ?x" "\<not> sy_undefined ?x"
      using snoc.IH snoc.prems False by (auto simp: successively_append_iff)
    have run: "system_runs P S load E x0 y" using IH(1) st by (rule rtranclp.rtrancl_into_rtrancl)
    have l: "length (sy_inputs y) = length (sy_inputs ?x)" using len by simp
    note fy = system_step_keeps [OF st l fresh']
    have I: "libs_ok cont P S E \<and> pipe_inv E cont ?n (sy_pipe x0) \<and> pipe_log E cont ?n (sy_pipe x0) \<and> feeds_ok S load x0"
      using L F pipe_start_inv [OF start] by blast
    have ok: "st_ok cont (p_mix (sy_pipe ?x))" "feeds_ok S load ?x" using system_refines(2) [OF IH(1) fresh'(2) L start F] by blast+
    have log: "pipe_log E cont ?n (sy_pipe y)" using program_run.sim_inv.always [OF conjunct1 [OF defined_run [OF run fy(2)]] I] by blast
    have H: "\<forall>g \<le> length (sy_inputs ?x). TS_PACKET_SIZE dvd length (held cont ?x g)"
      using ok(1) by (auto simp: st_ok_def aligned_def origin_buf_def)
    have arr: "arrived cont g (xs @ [y]) = arrived cont g xs @ drop (length (held cont ?x g)) (held cont y g)" for g
      by (rule arrived_snoc [OF False])
    from system_step_delivers [OF st L ok(2) log l fresh'(1)] show ?thesis
    proof
      assume "step_adds cont ?x y"
      from adds_delivered [OF IH(2) _ H this l arr] IH(3) len run fy show ?thesis by auto
    next
      assume "step_fills E cont ?x y"
      from fills_delivered [OF IH(2) this l arr] IH(3) len run fy show ?thesis by auto
    qed
  qed
qed simp


section \<open>Properties\<close>

text \<open>The inputs are those that were started, and all buffers are empty.\<close>

lemma started_inputs:
  assumes "main_start P jos = Inr m"
  shows "length (sy_inputs (system_of m es)) = length (mn_inputs m)"
  by (rule main_start_Inr [OF assms]) (simp add: pipe_of_def)

lemma started_empty:
  assumes "main_start P jos = Inr m" and "\<And>n b. pr_psibuf P n = Some b \<Longrightarrow> cont b = []" and "\<And>n x. cont (pr_cbuf P n x) = []"
    and "build_ok P" and "g \<le> length (mn_inputs m)"
  shows "held cont (system_of m es) g = []"
proof -
  obtain cf s r ob0 ob1 o0 o1 rs where m: "output_new P = Inr o0"
    "config_load (pr_opts P) (pr_epg P) (pr_can P) (pr_below P) (pr_cookie P) (pr_files P) jos = Inr (cf, s, r, ob0, ob1)"
    "output_psi_init P (psi_conf_of s cf) o0 = Some o1"
    "spawn_input_threads (pr_cmp P) (cf_store cf) (cf_channels cf) (cf_inputs cf) = Some rs"
    "connect_output (pr_udp P) (o_out_host s) = (Some (mn_sock m), mn_events m)"
    "mn_conf m = cf\<lparr> cf_inputs := rs \<rparr>" "mn_psi m = o1" "mn_options m = s" "mn_rate m = r"
    "mn_inputs m = map (\<lambda>x. new_input P (o_write_input_file s) (the (cf_store cf (in_chan x)))) rs"
    "mn_pipe m = pipe_of (psibuf o1) (mn_inputs m) (output_of s r) ob0 ob1" "mn_mix m = mix_env_of P s r ob0"
    "\<forall>k < 3. pr_thread P k"
    by (rule main_start_Inr [OF assms(1)])
  have psi: "cont (psibuf o1) = []"
    using m(1) assms(2) output_psi_init_ok [OF assms(4) m(3)] by (auto simp: output_new_def split: option.splits)
  have "cont (in_buf (n_input i)) = []" if "i \<in> set (mn_inputs m)" for i
    using that by (auto simp: m(10) new_input_def assms(3))
  with psi assms(5) show "held cont (system_of m es) g = []"
    by (cases g) (simp_all add: origin_buf_def m(11) pipe_of_def)
qed

text \<open>
  C4. End to end: over any run of a started program in which no input joins or leaves, every filled
  output buffer holds packets of known origins in its slots and padding elsewhere, such that
  the PSI packets of all buffers in order, then those still waiting, are exactly what the PSI
  thread stored; and the same for each input and its packets but padding. So nothing that
  reached a buffer is lost, doubled, reordered or taken for another's.
\<close>

theorem packets_delivered:
  assumes "main_start P jos = Inr m" and "\<And>n. length (oe_fresh (pr_opts P) n) = n"
    and "\<And>n b. pr_psibuf P n = Some b \<Longrightarrow> cont b = []" and "\<And>n x. cont (pr_cbuf P n x) = []" and "build_ok P"
    and "cbuf_ok (pr_cb P) cont" "cbuf_ok (il_cb (pr_lib P)) cont" "cbuf_ok (pe_cb S) cont" "tables_whole (pr_lib P)" "env_ok S"
    and "eits_ok es" "\<And>es. eits_ok es \<Longrightarrow> eits_ok (load es)"
    and "successively (system_step P S load (mn_mix m)) (system_of m es # xs)"
    and "\<forall>x \<in> set xs. length (sy_inputs x) = length (mn_inputs m)"
  shows "let run = system_of m es # xs; x = last run; T = il_ts (pr_lib P) in
    \<exists>pss. list_all2 (fill_of (mn_mix m) cont) (p_made (sy_pipe x)) pss \<and>
      arrived cont 0 run = concat (concat (map (from_origin 0) pss)) @ held cont x 0 \<and>
      (\<forall>g. 0 < g \<and> g \<le> length (mn_inputs m) \<longrightarrow>
         data_of T (arrived cont g run) = concat (map (from_origin g) pss) @ data_of T (held cont x g))"
proof -
  let ?run = "system_of m es # xs"
  note len = started_inputs [OF assms(1), of es]
  have empty: "\<forall>g \<le> length (sy_inputs (system_of m es)). held cont (system_of m es) g = []"
    using started_empty [where cont = cont and P = P, OF assms(1,3-5)] len by simp
  have start: "libs_ok cont P S (mn_mix m)" "pipe_start (mn_mix m) cont (sy_pipe (system_of m es))"
    "feeds_ok S load (system_of m es)"
    by (rule started_system [where cont = cont and P = P and S = S and load = load]; (assumption | rule assms)+)+
  have same: "\<forall>x \<in> set ?run. length (sy_inputs x) = length (sy_inputs (system_of m es))"
    using assms(14) len by (metis set_ConsD)
  obtain pss where D: "delivered (mn_mix m) cont (last ?run) (\<lambda>g. arrived cont g ?run) pss"
    using run_delivers [OF start empty _ _ assms(13) _ _ same] by auto
  have l: "length (sy_inputs (last ?run)) = length (mn_inputs m)" using assms(14) len by (cases xs rule: rev_cases) auto
  have c: "\<forall>n b. pr_psibuf P n = Some b \<longrightarrow> cont b = []" "\<forall>n x. cont (pr_cbuf P n x) = []" using assms(3,4) by blast+
  from started_pipe(2) [OF assms(1,2) c assms(5)] have "me_ts (mn_mix m) = il_ts (pr_lib P)" by (auto simp: mix_env_of_def)
  with D l show ?thesis unfolding delivered_def Let_def by auto
qed

theorem packets_delivered_witness:
  "\<exists>m x. main_start demo_program demo_args = Inr m \<and> system_step demo_program demo_penv (\<lambda>es. es) (mn_mix m) (system_of m []) x \<and>
     psi_pass demo_penv (\<lambda>es. es) (0, 100) (mn_psi m, []) = ((sy_psi x, sy_eits x), snd (psi_pass demo_penv (\<lambda>es. es) (0, 100) (mn_psi m, []))) \<and>
     arrived q_bytes 0 [system_of m [], x] = held q_bytes x 0"
proof -
  obtain m where m: "main_start demo_program demo_args = Inr m" using demo_start by blast
  note S = demo_program_ok
  let ?x = "system_of m []"
  have "pipe_start (mn_mix m) q_bytes (mn_pipe m)" by (rule started_pipe(1) [OF m S(1) _ _ S(4)]) (simp_all add: S)
  then have h: "psi_pc (sy_pipe ?x) = Head" "p_made (sy_pipe ?x) = []" by (simp_all add: pipe_start_def)
  have b: "(mn_psi m)\<lparr> psibuf := m_psi (p_mix (mn_pipe m)) \<rparr> = mn_psi m"
    by (rule main_start_Inr [OF m]) (simp add: pipe_of_def)
  obtain o' es' tr where p: "psi_pass demo_penv (\<lambda>es. es) (0, 100) (mn_psi m, []) = ((o', es'), tr)" by (metis prod_cases3 prod.collapse)
  define x where "x = (with_mix ?x ((p_mix (sy_pipe ?x))\<lparr> m_psi := psibuf o' \<rparr>))\<lparr> sy_psi := o', sy_eits := es' \<rparr>"
  have st: "system_step demo_program demo_penv (\<lambda>es. es) (mn_mix m) ?x x"
    unfolding x_def by (rule tables [OF h(1), where tn = "(0, 100)" and tr = tr]) (simp add: b p)
  then have run: "successively (system_step demo_program demo_penv (\<lambda>es. es) (mn_mix m)) (system_of m [] # [x])" by simp
  have len: "\<forall>y \<in> set [x]. length (sy_inputs y) = length (mn_inputs m)"
    using started_inputs [OF m, of "[]"] by (simp add: x_def with_mix_def)
  have lib: "pr_lib demo_program = demo_lib" "pe_cb demo_penv = queue_ops" "env_ok demo_penv"
    by (simp_all add: demo_program_def demo_penv_def env_ok_def iso_ts_ok table_ok_def)
  have "p_made (sy_pipe x) = []" using h(2) by (simp add: x_def with_mix_def)
  then have "arrived q_bytes 0 [system_of m [], x] = held q_bytes x 0"
    using packets_delivered [where cont = q_bytes and S = demo_penv and es = "[]" and load = "\<lambda>es. es", OF m S(1-5) _ _ _ _ _ _ run len]
      lib demo_lib_whole by (simp add: Let_def queue_ops_ok eits_ok_def)
  with m st p show ?thesis by (intro exI [of _ m] exI [of _ x]) (simp add: x_def)
qed

end
