(* ===== verification/Spec2Isabelle.thy ===== *)
theory Spec2Isabelle
  imports Iniparser Pidref Channel Mix Writer Psi Input Pipeline Options Config Threads Chanfile Network Session Web Regex
    Program Pacing Feed Deliver
begin

text \<open>
  \<^bold>\<open>mptsd\<close> reads MPEG transport streams from the network, rewrites their PIDs and PSI tables, and
  multiplexes them into one transport stream of constant bit rate, sent by UDP or RTP. This
  development models the program (\<^verbatim>\<open>src/*.c\<close>) in HOL, function by function, and proves
  what makes its parts correct, alone and together.

  \<^bold>\<open>The program.\<close> \<^verbatim>\<open>main\<close> (\<^verbatim>\<open>src/mptsd.c\<close>) loads the configuration
  (\<^verbatim>\<open>src/config.c\<close> through \<^verbatim>\<open>src/iniparser.c\<close> and \<^verbatim>\<open>src/inidict.c\<close>),
  builds the PSI tables, connects the output and starts the threads. An input thread per channel
  (\<^verbatim>\<open>src/input.c\<close>, \<^verbatim>\<open>src/network.c\<close>, \<^verbatim>\<open>src/pidref.c\<close>)
  connects to one of the channel's sources, rewrites what it reads and puts the packets into its
  buffer; it goes to the next source when anything fails. The PSI thread (\<^verbatim>\<open>src/output_psi.c\<close>)
  puts PAT, NIT, SDT, TDT, TOT and EIT into its own buffer. The mixing thread
  (\<^verbatim>\<open>src/output_mix.c\<close>) takes packets from these buffers, spreads padding between them and
  fills two output buffers in turn, which the writing thread (\<^verbatim>\<open>src/output_write.c\<close>) empties:
  it corrects the PCRs and sends frames of seven packets at the bit rate. A web server
  (\<^verbatim>\<open>src/web_server.c\<close>) answers two requests. Data structures are in \<^verbatim>\<open>src/data.c\<close>.

  \<^bold>\<open>Which theory models what.\<close> Records have the fields of the C structures, datatypes the
  constants of the enumerations, and functions keep their names where HOL allows it.

  \<^item> Prelude, Clib, Dbl: list lemmas and the collections \<^verbatim>\<open>len_simps\<close>, \<^verbatim>\<open>frame_simps\<close>,
    \<^verbatim>\<open>inv_intros\<close>; the C library calls the sources use (\<^verbatim>\<open>strtol\<close>, \<^verbatim>\<open>atoi\<close>,
    character classes, printed numbers); \<^verbatim>\<open>double\<close> arithmetic as exact rational operations
    followed by rounding to 53 bits (\<open>dbl\<close>), with its error bounds.
  \<^item> Steps: invariants kept by steps, simulation, and events that can't fail (locales \<open>kept_by\<close>,
    \<open>simulation\<close> and \<open>safe_events\<close>, interpreted in Pipeline, Feed and Threads).
  \<^item> Tspacket, Cbuf, Counted: what is used of libtsfuncs and libfuncs, as records of operations with
    the documented behaviour as predicates (\<open>ts_ops_ok\<close>, \<open>cbuf_ok\<close>), each shown to be
    satisfiable by a concrete instance; continuity counters over traces (locale \<open>counted_streams\<close>).
  \<^item> Inidict, Iniparser: \<^verbatim>\<open>dictionary_*\<close> and \<^verbatim>\<open>iniparser_*\<close>, \<^verbatim>\<open>ini_get_*\<close>.
    The dictionary refines a finite map (locale \<open>string_store\<close>); a file is read as the fold of its
    logical lines over that map, and what the dump format can express is read back.
  \<^item> Pidref: the PID rewriting table (locale \<open>pid_table\<close>).
  \<^item> Channel, Obuf: channels, their sources and URLs, EPG and NIT entries; output buffers.
  \<^item> Mix, Writer, Psi: the work of one turn of each output thread. A filled buffer conserves the packets
    taken; the frames sent are the frames of the buffer with continuous RTP numbers (locale
    \<open>frame_writer\<close>, interpreted for plain UDP, RTP and the choice between them); PSI packets carry
    consecutive counters.
  \<^item> Pacing: the times at which the frames of a buffer go out, with the calibrated sleeps.
  \<^item> Pipeline: the three output threads and the stop request as steps on the shared state
    (\<open>thread_step\<close>, with what the others may do \<open>pipe_step\<close>), for every interleaving: who owns a buffer,
    that the two buffers are a queue, no deadlock, and what \<^verbatim>\<open>kill_threads\<close> (\<open>kill_wait\<close>) may conclude.
  \<^item> Input: the work of an input on one packet and one read. Network: the output socket, the connection
    of a source with its HTTP dialogue, the search for the packets. Session: the loop of
    \<^verbatim>\<open>input_stream\<close> that puts these together, turn by turn, and the thread as a list of turns.
  \<^item> Options, Config, Chanfile: the command line with bit rate and sleep calibration; the four files and the
    switch of running inputs to new channels; the channels file as a format that is read back.
    Threads: starting and closing inputs, and the ownership of channel objects over all events.
  \<^item> Web, Regex: the web server and its pages; the regular expressions of the code and the hand-written
    functions of the model that take strings apart in their place.
  \<^item> Program: \<^verbatim>\<open>main\<close>. What it starts satisfies the hypotheses of the theorems on the parts
    (\<open>program_starts_ready\<close>), which is how they apply to the running program.
  \<^item> Feed: the input threads and the PSI thread put in the place of what Pipeline allows the others to do:
    the whole program as one step relation (\<open>system_step\<close>) that refines the pipeline. A preorder on
    inputs that pokes, resets and reads keep to is kept to by a whole thread (locale \<open>turn_relation\<close> of
    Session, interpreted for the sources of an input and for whole packets in its buffer).
  \<^item> Deliver: the conservation of one filled buffer (Mix) and the steps of Feed put together over a whole run
    in which no input joins or leaves: what arrived from each origin is what the filled buffers carry, in
    order, and what still waits (\<open>packets_delivered\<close>).

  \<^bold>\<open>State and memory.\<close> State is passed explicitly. Channel objects are shared between the
  configuration and the inputs and are freed on a reload, so Config and Threads keep them in a store from
  addresses to objects: using a freed one has no result. In the other theories an input holds its channel
  by value. Buffers are lists of bytes with the offsets of the code. C integers are words or \<^typ>\<open>int\<close> with
  the conversion written out (\<open>to_int32\<close>, \<open>to_u16\<close>) where they can overflow.

  \<^bold>\<open>Errors.\<close> A C return code is the same number or a datatype of outcomes. \<open>Inl (Exit n)\<close> is the end of the
  program, \<open>Inl Undef\<close>, \<open>LoadOob\<close> and the like what C leaves undefined: a NULL pointer used, a write past
  an array. Properties that say a result exists exclude these.

  \<^bold>\<open>Loops.\<close> Bounded loops are total functions with a measure: the calibration takes 3001 rounds,
  \<open>kill_wait\<close> at most 62 polls. Loops that may run for ever are \<^verbatim>\<open>partial_function (option)\<close>: no
  value means that they do not end. For \<open>mix_loop\<close> it is proved when it ends and when it does not
  (\<open>mix_fill_terminates\<close>, \<open>mix_loop_waits\<close>), for \<open>sync_loop\<close> that it always ends within 2632 bytes, for
  \<open>wait_work\<close> that it need not. No fuel is used. The loops of the threads are step relations (Pipeline)
  or lists of turns (Session, Web).

  \<^bold>\<open>Parameters.\<close> Code outside the repository is an argument of the definitions that use it: libfuncs
  (circular buffers, \<^verbatim>\<open>fdread_ex\<close>, \<^verbatim>\<open>fdgetline\<close>, the resolver, \<^verbatim>\<open>chomp\<close>,
  \<^verbatim>\<open>xstrcmp\<close>), libtsfuncs (packet accessors, builders and parsers of tables), the system calls, the
  clock, and what other threads do in between. Hypotheses about them are named predicates.

  \<^bold>\<open>What the properties show.\<close> In short: what comes in goes out, once, in order, with the PIDs, PCRs and counters
  it should have; the threads keep out of each other's way and can be stopped; a configuration is read as
  it was written, keeps the program's state well formed, and can be changed under running inputs without
  a dangling pointer; an input loses no descriptor and leaves out no source. Where the code does not do
  this, the property states what it does instead and the manifest lists the finding: errors of the
  ini parser that are forgotten, a retry loop that spins, lost increments of \<^verbatim>\<open>dienow\<close>, network errors
  that are masked, refused sources tried without a pause, a wait that ignores the request to stop.

  \<^bold>\<open>Not modelled.\<close> Logging and the usage text have no effect on the state. Functions that only free
  memory are left out, except where freeing decides what may still be used (channels) or closes a
  descriptor. The dump of the rewriting table only prints. \<^verbatim>\<open>daemonize\<close>, the signal dispositions and thread
  priorities belong to the operating system; the signal handler is the moment the stop request comes.
  The sleeps of the threads are not timed, except for the pacing of the writing thread. The threads of
  Pipeline take a fill and a write as one step each: the invariant shows that nobody else
  touches the buffer meanwhile; Feed takes a packet of an input and a pass of the PSI thread as one, and between
  them other threads may do anything. An input may leave the list at any time. When the mixing thread used
  it last, the code goes on from a freed node at the next search: \<open>system_step\<close> then has any result, and
  what is shown of the running program holds up to there. The file an input is copied to is opened and
  closed outside the thread, so it is not among the descriptors of Session. The reload of the channels is modelled with its events although the
  program never asks for it after its start.
\<close>

end
